(* ===== verification/Nfsim_Prelude.thy ===== *)
theory Nfsim_Prelude
  imports Main "HOL-Library.Word"
begin

unbundle bit_operations_syntax

text \<open>
  What every theory of the development shares: the names of the machine types, the way a C function
  that may call \<^verbatim>\<open>barf()\<close> is modelled, the loads and stores of little-endian integers, and the
  generic facts on lists, words and the one's complement arithmetic modulo 65535.

  The configuration fixed throughout is the one of an ordinary build of the simulator: a little-endian
  machine (\<^verbatim>\<open>kernelenv_littleendian.h\<close>), \<^verbatim>\<open>int\<close> of 32 bits and \<^verbatim>\<open>unsigned long\<close> of 64 bits,
  \<^verbatim>\<open>LINUX_VERSION_CODE\<close> of 2.6.14.
\<close>

section \<open>Machine types\<close>

type_synonym u8 = "8 word"
type_synonym u16 = "16 word"
type_synonym u32 = "32 word"
type_synonym u64 = "64 word"

text \<open>
  \<^verbatim>\<open>barf()\<close>, \<^verbatim>\<open>panic()\<close>, a failed \<^verbatim>\<open>assert()\<close> and \<^verbatim>\<open>BUG()\<close> all end the process (core/utils.c).
  A function that may do so returns \<open>Barf msg\<close>, with the text it prints; one that cannot is a plain function.
\<close>

datatype 'a outcome = Ok 'a | Barf string

fun bind_outcome :: "'a outcome \<Rightarrow> ('a \<Rightarrow> 'b outcome) \<Rightarrow> 'b outcome" where
  "bind_outcome (Ok a) f = f a"
| "bind_outcome (Barf m) f = Barf m"

lemma bind_outcome_Ok_iff: "bind_outcome m f = Ok b \<longleftrightarrow> (\<exists>a. m = Ok a \<and> f a = Ok b)"
  by (cases m) auto

named_theorems unat_simps \<open>equations that move word operations to natural numbers\<close>

section \<open>Little-endian integers in memory\<close>

definition val16 :: "u8 \<Rightarrow> u8 \<Rightarrow> nat" where
  "val16 a b = unat a + 256 * unat b"

definition val32 :: "u8 \<Rightarrow> u8 \<Rightarrow> u8 \<Rightarrow> u8 \<Rightarrow> nat" where
  "val32 a b c d = val16 a b + 65536 * val16 c d"

lemma unat_u8_less: "unat (a :: u8) < 256"
  using unsigned_less [of a, where ?'a = nat] by simp

lemma unat_u16_less: "unat (a :: u16) < 65536"
  using unsigned_less [of a, where ?'a = nat] by simp

lemma unat_u32_less: "unat (a :: u32) < 4294967296"
  using unsigned_less [of a, where ?'a = nat] by simp

lemma unat_u64_less: "unat (a :: u64) < 18446744073709551616"
  using unsigned_less [of a, where ?'a = nat] by simp

lemma val16_less: "val16 a b < 65536"
  using unat_u8_less [of a] unat_u8_less [of b] unfolding val16_def by linarith

lemma val32_less: "val32 a b c d < 4294967296"
  using val16_less [of a b] val16_less [of c d] unfolding val32_def by linarith

lemma val16_0 [simp]: "val16 a b = 0 \<longleftrightarrow> a = 0 \<and> b = 0"
  by (simp add: val16_def unat_eq_0)

text \<open>The same loads as the zero-extended 64-bit words the code adds up.\<close>

definition load16 :: "u8 \<Rightarrow> u8 \<Rightarrow> u64" where
  "load16 a b = ucast a + push_bit 8 (ucast b)"

definition load32 :: "u8 \<Rightarrow> u8 \<Rightarrow> u8 \<Rightarrow> u8 \<Rightarrow> u64" where
  "load32 a b c d = load16 a b + push_bit 16 (load16 c d)"

lemma load16_val16: "load16 a b = word_of_nat (val16 a b)"
  by (simp add: load16_def val16_def push_bit_eq_mult mult.commute)

lemma load32_val32: "load32 a b c d = word_of_nat (val32 a b c d)"
  by (simp add: load32_def val32_def load16_val16 push_bit_eq_mult mult.commute)

text \<open>The two bytes of a 16-bit word, in memory order.\<close>

definition byte0 :: "u16 \<Rightarrow> u8" where
  "byte0 w = ucast w"

definition byte1 :: "u16 \<Rightarrow> u8" where
  "byte1 w = ucast (drop_bit 8 w)"

lemma unat_byte0: "unat (byte0 w) = unat w mod 256"
  by (simp add: byte0_def unsigned_ucast_eq take_bit_eq_mod)

lemma unat_byte1: "unat (byte1 w) = unat w div 256"
proof -
  have "unat w div 256 < 256"
    using unat_u16_less [of w] by (simp add: less_mult_imp_div_less)
  then show ?thesis
    by (simp add: byte1_def unsigned_ucast_eq take_bit_eq_mod drop_bit_eq_div unat_div)
qed

lemma val16_bytes [simp]: "val16 (byte0 w) (byte1 w) = unat w"
  by (simp add: val16_def unat_byte0 unat_byte1)

lemma drop_4_Cons [simp]: "drop (4 + k) (a # b # c # d # r) = drop k r"
  by (simp add: numeral_eq_Suc)

lemma four_times_le [simp]:
  "4 * n \<le> Suc 0 \<longleftrightarrow> n = 0" "4 * n \<le> Suc (Suc 0) \<longleftrightarrow> n = 0"
  "4 * n \<le> Suc (Suc (Suc 0)) \<longleftrightarrow> n = 0"
  by auto

section \<open>Words as natural numbers\<close>

lemma unat_of_nat_u64 [unat_simps]: "n < 18446744073709551616 \<Longrightarrow> unat (word_of_nat n :: u64) = n"
  by (simp add: unat_of_nat take_bit_nat_eq_self)

lemma unat_add_u64 [unat_simps]:
  "unat a + unat b < 18446744073709551616 \<Longrightarrow> unat (a + b :: u64) = unat a + unat b"
  by (subst unat_add_lem [symmetric]) simp

lemma unat_and_low16 [unat_simps]: "unat (x AND 0xffff :: u64) = unat x mod 65536"
proof -
  have "x AND 0xffff = take_bit 16 x"
    by (simp add: take_bit_eq_mask mask_eq_exp_minus_1)
  then show ?thesis
    by (simp add: take_bit_eq_mod unat_mod)
qed

lemma unat_shift16 [unat_simps]: "unat (drop_bit 16 x :: u64) = unat x div 65536"
  by (simp add: drop_bit_eq_div unat_div)

section \<open>Error numbers\<close>

definition ENOENT :: int where "ENOENT = 2"
definition EIO :: int where "EIO = 5"
definition EAGAIN :: int where "EAGAIN = 11"
definition ENOMEM :: int where "ENOMEM = 12"
definition EACCES :: int where "EACCES = 13"
definition ENOTDIR :: int where "ENOTDIR = 20"
definition EINVAL :: int where "EINVAL = 22"
definition EPERM :: int where "EPERM = 1"

text \<open>Timer ticks per second.\<close>

definition HZ :: u32 where "HZ = 100"

text \<open>A signed value that is not negative.\<close>

lemma sint_nonneg:
  assumes "0 \<le> sint (v :: u32)"
  shows "sint v = int (unat v)" "unat v < 2147483648"
proof -
  have b: "\<not> bit (uint v) 31" using assms by (simp only: sint_uint) simp
  have full: "uint v = take_bit (Suc 31) (uint v)" using uint_lt2p [of v] by (simp add: take_bit_int_eq_self)
  have top: "take_bit (Suc 31) (uint v) = take_bit 31 (uint v)" by (simp only: take_bit_Suc_from_most b) simp
  have t: "take_bit 31 (uint v) = uint v" using full top by (simp only:)
  have "sint v = signed_take_bit 31 (uint v)" by (simp add: sint_uint)
  also have "\<dots> = uint v" by (simp only: signed_take_bit_eq_if_positive [OF b] t)
  finally show "sint v = int (unat v)" by simp
  have "uint v < 2 ^ 31" using take_bit_int_less_exp [of 31 "uint v"] by (simp only: t)
  then have "int (unat v) < 2147483648" by simp
  then show "unat v < 2147483648" by linarith
qed

section \<open>Registries\<close>

text \<open>
  Commands, fields, interfaces and modules are kept in lists that are searched from the front; new entries are put
  in front, so that they hide older ones with the same key.
\<close>

locale registry =
  fixes key :: "'e \<Rightarrow> 'k" and lookup :: "'k \<Rightarrow> 'e list \<Rightarrow> 'e option"
  assumes lookup_Nil: "lookup k [] = None"
    and lookup_Cons: "lookup k (e # es) = (if key e = k then Some e else lookup k es)"
begin

lemma lookup_filter_hd: "lookup k es = (case filter (\<lambda>e. key e = k) es of [] \<Rightarrow> None | e # _ \<Rightarrow> Some e)"
  by (induction es) (simp_all add: lookup_Nil lookup_Cons)

lemma lookup_key: "lookup k es = Some e \<Longrightarrow> key e = k \<and> e \<in> set es"
  by (induction es) (auto simp: lookup_Nil lookup_Cons split: if_splits)

lemma lookup_None: "lookup k es = None \<longleftrightarrow> k \<notin> key ` set es"
  by (induction es) (auto simp: lookup_Nil lookup_Cons)

lemma lookup_filter: "lookup k (filter (\<lambda>e. P (key e)) es) = (if P k then lookup k es else None)"
  by (induction es) (auto simp: lookup_Nil lookup_Cons)

lemma lookup_append: "lookup k (es @ ds) = (case lookup k es of Some e \<Rightarrow> Some e | None \<Rightarrow> lookup k ds)"
  by (induction es) (auto simp: lookup_Nil lookup_Cons)

end

end
