(* ===== verification/Cstring.thy ===== *)
theory Cstring
  imports Nfsim_Prelude
begin

text \<open>
  The functions of the C library on strings that the simulator calls, on strings without their
  terminator, the helpers of core/utils.h, and the bounded copies of kernelenv/kernelenv.c on buffers
  with it.
\<close>

section \<open>Library functions\<close>

definition isspace :: "char \<Rightarrow> bool" where
  "isspace c \<longleftrightarrow> c \<in> {CHR '' '', CHR 0x09, CHR 0x0A, CHR 0x0B, CHR 0x0C, CHR 0x0D}"

definition isdigit :: "char \<Rightarrow> bool" where
  "isdigit c \<longleftrightarrow> c \<in> set ''0123456789''"

definition digit_value :: "char \<Rightarrow> int" where
  "digit_value c = of_char c - 48"

text \<open>\<^verbatim>\<open>strtol\<close> with base 10: blanks, a sign, the longest run of digits; the rest of the string is returned
  too. Values outside the range of \<^verbatim>\<open>long\<close> are clamped to it.\<close>

definition digits_value :: "string \<Rightarrow> int" where
  "digits_value ds = foldl (\<lambda>n c. 10 * n + digit_value c) 0 ds"

fun split_sign :: "string \<Rightarrow> bool \<times> string" where
  "split_sign (c # s) = (if c = CHR ''-'' then (True, s) else if c = CHR ''+'' then (False, s) else (False, c # s))"
| "split_sign [] = (False, [])"

definition clamp_long :: "int \<Rightarrow> int" where
  "clamp_long n = max (-9223372036854775808) (min 9223372036854775807 n)"

definition strtol10 :: "string \<Rightarrow> int \<times> string" where
  "strtol10 s =
     (let (neg, t) = split_sign (dropWhile isspace s);
          ds = takeWhile isdigit t;
          n = digits_value ds
      in if ds = [] then (0, s) else (clamp_long (if neg then - n else n), dropWhile isdigit t))"

text \<open>\<^verbatim>\<open>atoi\<close> converts the \<^verbatim>\<open>long\<close> to \<^verbatim>\<open>int\<close>.\<close>

definition atoi :: "string \<Rightarrow> 32 word" where
  "atoi s = word_of_int (fst (strtol10 s))"

definition strstarts :: "string \<Rightarrow> string \<Rightarrow> bool" where
  "strstarts a b \<longleftrightarrow> take (length b) a = b"

definition strends :: "string \<Rightarrow> string \<Rightarrow> bool" where
  "strends a b \<longleftrightarrow> (if length a < length b then False else drop (length a - length b) a = b)"

text \<open>The pieces of a string between the occurrences of a character.\<close>

fun split_on :: "char \<Rightarrow> string \<Rightarrow> string list" where
  "split_on c [] = [[]]"
| "split_on c (x # s) =
     (if x = c then [] # split_on c s
      else case split_on c s of p # ps \<Rightarrow> (x # p) # ps | [] \<Rightarrow> [[x]])"

text \<open>
  \<^verbatim>\<open>inet_aton\<close>: one to four numbers separated by dots, each decimal, octal (leading 0) or hexadecimal
  (leading 0x); the last one fills the remaining bytes. The address is in network byte order, that is,
  its first byte in memory is the most significant one.
\<close>

definition hex_value :: "char \<Rightarrow> int option" where
  "hex_value c =
     (let n = of_char c :: int in
      if 48 \<le> n \<and> n \<le> 57 then Some (n - 48)
      else if 97 \<le> n \<and> n \<le> 102 then Some (n - 87)
      else if 65 \<le> n \<and> n \<le> 70 then Some (n - 55)
      else None)"

fun digits_in_base :: "int \<Rightarrow> string \<Rightarrow> int \<Rightarrow> int option" where
  "digits_in_base b [] n = Some n"
| "digits_in_base b (c # s) n =
     (case hex_value c of
        None \<Rightarrow> None
      | Some d \<Rightarrow> if d < b then digits_in_base b s (b * n + d) else None)"

definition aton_part :: "string \<Rightarrow> int option" where
  "aton_part s =
     (if s = [] then None
      else if take 2 s = ''0x'' \<or> take 2 s = ''0X'' then digits_in_base 16 (drop 2 s) 0
      else if hd s = CHR ''0'' then digits_in_base 8 s 0
      else digits_in_base 10 s 0)"

definition host_to_net :: "int \<Rightarrow> 32 word" where
  "host_to_net n =
     word_of_int (n div 16777216 mod 256 + 256 * (n div 65536 mod 256) + 65536 * (n div 256 mod 256)
       + 16777216 * (n mod 256))"

definition inet_aton :: "string \<Rightarrow> 32 word option" where
  "inet_aton s =
     (let parts = map aton_part (split_on CHR ''.'' (takeWhile (\<lambda>c. \<not> isspace c) s)) in
      if None \<in> set parts then None
      else
        case map the parts of
          [a] \<Rightarrow> if a < 4294967296 then Some (host_to_net a) else None
        | [a, b] \<Rightarrow> if a < 256 \<and> b < 16777216 then Some (host_to_net (a * 16777216 + b)) else None
        | [a, b, c] \<Rightarrow> if a < 256 \<and> b < 256 \<and> c < 65536 then Some (host_to_net (a * 16777216 + b * 65536 + c)) else None
        | [a, b, c, d] \<Rightarrow>
            if a < 256 \<and> b < 256 \<and> c < 256 \<and> d < 256
            then Some (host_to_net (a * 16777216 + b * 65536 + c * 256 + d)) else None
        | _ \<Rightarrow> None)"

section \<open>Bounded copies\<close>

text \<open>
  A buffer is the list of its bytes; \<open>cstr\<close> is the string it holds, up to the first null byte.
\<close>

definition cstr :: "char list \<Rightarrow> string" where
  "cstr buf = takeWhile (\<lambda>c. c \<noteq> CHR 0x00) buf"

definition write_at :: "nat \<Rightarrow> char list \<Rightarrow> char list \<Rightarrow> char list" where
  "write_at i bs buf = take i buf @ bs @ drop (i + length bs) buf"

definition strlcpy :: "char list \<Rightarrow> string \<Rightarrow> nat \<Rightarrow> nat \<times> char list" where
  "strlcpy dest src sz =
     (let ret = length src in
      (ret,
       if sz \<noteq> 0 then
         let len = (if ret \<ge> sz then sz - 1 else ret)
         in write_at 0 (take len src @ [CHR 0x00]) dest
       else dest))"

definition strlcat :: "char list \<Rightarrow> string \<Rightarrow> nat \<Rightarrow> (nat \<times> char list) outcome" where
  "strlcat dest src count =
     (let dsize = length (cstr dest);
          len = length src;
          res = dsize + len
      in if dsize \<ge> count then Barf ''BUG''
         else
           let count = count - dsize;
               len = (if len \<ge> count then count - 1 else len)
           in Ok (res, write_at dsize (take len src @ [CHR 0x00]) dest))"

lemma length_write_at [simp]: "i + length bs \<le> length buf \<Longrightarrow> length (write_at i bs buf) = length buf"
  by (simp add: write_at_def)

lemma drop_write_at: "i + length bs \<le> n \<Longrightarrow> i \<le> length buf \<Longrightarrow> drop n (write_at i bs buf) = drop n buf"
  by (simp add: write_at_def min_def)

lemma cstr_append_null: "CHR 0x00 \<notin> set s \<Longrightarrow> cstr (s @ CHR 0x00 # r) = s"
  by (induction s) (auto simp: cstr_def)

lemma cstr_no_null: "CHR 0x00 \<notin> set (cstr buf)"
  by (auto simp: cstr_def dest: set_takeWhileD)

lemma take_cstr: "take (length (cstr buf)) buf = cstr buf"
  by (simp add: cstr_def flip: takeWhile_eq_take)

text \<open>\<open>strlcpy\<close> and \<open>strlcat\<close> leave a terminated string in a destination of the given size: the longest prefix
  of the source, or of the concatenation, that fits with its terminator; they return the length of the
  full result, so that a return value not below the size tells truncation; and they write nothing beyond
  the size.\<close>

theorem strlcpy_strlcat_truncate:
  assumes "CHR 0x00 \<notin> set src" "0 < sz" "sz \<le> length dest"
  shows "fst (strlcpy dest src sz) = length src \<and>
         cstr (snd (strlcpy dest src sz)) = take (sz - 1) src \<and>
         drop sz (snd (strlcpy dest src sz)) = drop sz dest \<and>
         (length (cstr dest) < sz \<longrightarrow>
            (\<exists>d. strlcat dest src sz = Ok (length (cstr dest @ src), d) \<and>
                 cstr d = take (sz - 1) (cstr dest @ src) \<and> drop sz d = drop sz dest))"
proof -
  have n: "CHR 0x00 \<notin> set (take k src)" for k using assms(1) by (meson in_set_takeD)
  have t: "take (if length src \<ge> k then k - 1 else length src) src = take (k - 1) src" if "0 < k" for k
    using that by (auto simp: take_all)
  have cpy: "strlcpy dest src sz = (length src, write_at 0 (take (sz - 1) src @ [CHR 0x00]) dest)"
    using assms(2) t by (simp add: strlcpy_def Let_def)
  have "cstr (snd (strlcpy dest src sz)) = take (sz - 1) src"
    unfolding cpy by (simp add: write_at_def cstr_append_null n)
  moreover have "drop sz (snd (strlcpy dest src sz)) = drop sz dest"
    unfolding cpy snd_conv using assms by (intro drop_write_at) auto
  moreover have "\<exists>d. strlcat dest src sz = Ok (length (cstr dest @ src), d) \<and>
                 cstr d = take (sz - 1) (cstr dest @ src) \<and> drop sz d = drop sz dest"
    if l: "length (cstr dest) < sz"
  proof -
    let ?k = "sz - length (cstr dest)"
    let ?d = "write_at (length (cstr dest)) (take (?k - 1) src @ [CHR 0x00]) dest"
    have "strlcat dest src sz = Ok (length (cstr dest @ src), ?d)"
      using l t [of ?k] by (simp add: strlcat_def Let_def)
    moreover have "cstr ?d = cstr dest @ take (?k - 1) src"
      using cstr_append_null [of "cstr dest @ take (?k - 1) src"] cstr_no_null [of dest] n
      by (simp add: write_at_def take_cstr)
    moreover have "drop sz ?d = drop sz dest"
      using l assms(3) by (intro drop_write_at) auto
    ultimately show ?thesis using l by (auto simp: take_append)
  qed
  ultimately show ?thesis by (simp add: cpy)
qed

theorem strlcpy_strlcat_truncate_witness:
  "cstr (snd (strlcpy (replicate 6 CHR ''x'') ''abcdef'' 4)) = ''abc'' \<and>
   fst (strlcpy (replicate 6 CHR ''x'') ''abcdef'' 4) = 6"
  using strlcpy_strlcat_truncate [of "''abcdef''" 4 "replicate 6 CHR ''x''"] by simp

end
