(* ===== verification/Expect.thy ===== *)
theory Expect
  imports Cstring
begin

text \<open>
  The expectations of core/expect.c: the loose pattern match with its skipping of hopeless positions, the
  hook on log lines, and the commands around which expectations are checked. The match is shown to be
  the declarative relation \<open>loosely\<close>, and the verdict on a command to be what the expectations say about the
  lines logged during it.
\<close>

section \<open>Matching\<close>

definition ws :: "char \<Rightarrow> bool" where
  "ws c \<longleftrightarrow> c = CHR 0x09 \<or> c = CHR '' ''"

text \<open>\<open>next\<close> is the pattern behind the star; at its end \<^verbatim>\<open>next_char\<close> is the terminator, which no position before
  the end of the line has.\<close>

definition maybe_skip :: "string \<Rightarrow> string \<Rightarrow> nat" where
  "maybe_skip next line =
     (if next \<noteq> [] \<and> hd next = CHR ''*'' then 1
      else if line = [] then 1
      else if next \<noteq> [] \<and> ws (hd next) then length (takeWhile (\<lambda>c. \<not> ws c) (tl line)) + 1
      else if next = [] then length (tl line) + 1
      else length (takeWhile (\<lambda>c. c \<noteq> hd next) (tl line)) + 1)"

lemma maybe_skip_pos: "0 < maybe_skip next line"
  by (simp add: maybe_skip_def)

text \<open>The positions that the loop for a star tries, from position \<open>i\<close> on.\<close>

function star_positions :: "string \<Rightarrow> string \<Rightarrow> nat \<Rightarrow> nat list" where
  "star_positions next line i =
     (if i \<le> length line then i # star_positions next line (i + maybe_skip next (drop i line)) else [])"
  by pat_completeness auto
termination
  by (relation "measure (\<lambda>(next, line, i). Suc (length line) - i)") (auto simp: maybe_skip_pos intro!: diff_less_mono2)

declare star_positions.simps [simp del]

function loose_match :: "string \<Rightarrow> string \<Rightarrow> bool" where
  "loose_match [] line = (line = [])"
| "loose_match (c # p) line =
     (if ws c then
        \<exists>i \<in> set [1..<Suc (length (takeWhile ws (c # p)))].
          \<exists>j \<in> set [1..<Suc (length (takeWhile ws line))]. loose_match (drop i (c # p)) (drop j line)
      else if c = CHR ''*'' then
        \<exists>i \<in> set (star_positions p line 0). loose_match p (drop i line)
      else
        (case line of [] \<Rightarrow> False | d # l \<Rightarrow> c = d \<and> loose_match p l))"
  by pat_completeness auto
termination
  by (relation "measure (\<lambda>(p, line). length p)") auto

fun trim_end :: "string \<Rightarrow> string" where
  "trim_end s = (if s \<noteq> [] \<and> ws (last s) \<and> length s \<noteq> 1 then trim_end (butlast s) else s)"

declare trim_end.simps [simp del]

definition matches :: "string \<Rightarrow> string \<Rightarrow> bool" where
  "matches pattern line =
     (let line = dropWhile ws line in
      if line \<noteq> [] \<and> ws (last line) then loose_match pattern (trim_end line) else loose_match pattern line)"

section \<open>Expectations\<close>

record expect =
  invert :: bool
  matched :: bool
  command :: string
  pattern :: string

text \<open>
  The state of logging: the expectations and the stack of running commands of core/expect.c (innermost first),
  the mask of printed types of core/log.c and the lines printed so far, the last one first.
\<close>

record log_state =
  expects :: "expect list"
  cmdstack :: "string list"
  typemask :: u32
  logged :: "string list"

definition LOG_ALWAYS :: u32 where "LOG_ALWAYS = 0x00"
definition LOG_KERNEL :: u32 where "LOG_KERNEL = 0x01"
definition LOG_UI :: u32 where "LOG_UI = 0x02"
definition LOG_ROUTE :: u32 where "LOG_ROUTE = 0x04"
definition LOG_PROTOCOL :: u32 where "LOG_PROTOCOL = 0x08"
definition LOG_PACKET :: u32 where "LOG_PACKET = 0x10"
definition LOG_USERSPACE :: u32 where "LOG_USERSPACE = 0x20"
definition LOG_HOOK :: u32 where "LOG_HOOK = 0x40"

definition hit :: "string \<Rightarrow> string \<Rightarrow> expect \<Rightarrow> bool" where
  "hit cur line e \<longleftrightarrow> \<not> matched e \<and> cur = command e \<and> matches (pattern e) line"

definition expect_log_hook :: "string \<Rightarrow> 'z log_state_scheme \<Rightarrow> bool \<times> 'z log_state_scheme" where
  "expect_log_hook line s =
     (case cmdstack s of
        [] \<Rightarrow> (False, s)
      | cur # _ \<Rightarrow>
          (list_ex (hit cur line) (expects s),
           s\<lparr>expects := map (\<lambda>e. if hit cur line e then e\<lparr>matched := True\<rparr> else e) (expects s)\<rparr>))"

definition nfsim_log :: "u32 \<Rightarrow> string \<Rightarrow> 'z log_state_scheme \<Rightarrow> bool \<times> 'z log_state_scheme" where
  "nfsim_log ty line s =
     expect_log_hook line
       (if ty = 0 \<or> ty AND typemask s \<noteq> 0 then s\<lparr>logged := line # logged s\<rparr> else s)"

definition expects_remaining :: "'z log_state_scheme \<Rightarrow> bool" where
  "expects_remaining s \<longleftrightarrow> expects s \<noteq> []"

definition expect_pre_command :: "string \<Rightarrow> 'z log_state_scheme \<Rightarrow> 'z log_state_scheme" where
  "expect_pre_command cmd s = s\<lparr>cmdstack := cmd # cmdstack s\<rparr>"

definition failed :: "expect \<Rightarrow> bool" where
  "failed e \<longleftrightarrow> invert e = matched e"

definition verdict_line :: "expect \<Rightarrow> string" where
  "verdict_line e = ''Pattern '' @ CHR 0x27 # pattern e @ CHR 0x27 # (if invert e then '' matched'' else '' did not match'')"

definition remove_nth :: "nat \<Rightarrow> 'a list \<Rightarrow> 'a list" where
  "remove_nth i xs = take i xs @ drop (Suc i) xs"

lemma length_remove_nth: "i < length xs \<Longrightarrow> length (remove_nth i xs) = length xs - 1"
  by (simp add: remove_nth_def)

lemma expect_log_hook_frame:
  "length (expects (snd (expect_log_hook line s))) = length (expects s)"
  "cmdstack (snd (expect_log_hook line s)) = cmdstack s"
  by (simp_all add: expect_log_hook_def split: list.split)

lemma nfsim_log_frame:
  "length (expects (snd (nfsim_log ty line s))) = length (expects s)"
  "cmdstack (snd (nfsim_log ty line s)) = cmdstack s"
  by (simp_all add: nfsim_log_def expect_log_hook_frame)

text \<open>
  The loop of \<open>expect_post_command\<close>; \<open>i\<close> is the position of \<^verbatim>\<open>*e\<close> in the list. The line that reports a failure is
  logged while the command is still the current one, so it may mark other expectations. With
  \<^verbatim>\<open>tui_abort_on_fail\<close> the first failure ends the script.
\<close>

function post_loop :: "bool \<Rightarrow> nat \<Rightarrow> 'z log_state_scheme \<Rightarrow> (bool \<times> 'z log_state_scheme) outcome" where
  "post_loop abort i s =
     (if i \<ge> length (expects s) then Ok (True, s)
      else
        let e = expects s ! i in
        if hd (cmdstack s) \<noteq> command e then post_loop abort (Suc i) s
        else if failed e then
          if abort then Barf (verdict_line e)
          else
            let s' = snd (nfsim_log LOG_UI (verdict_line e) s)
            in bind_outcome (post_loop abort i (s'\<lparr>expects := remove_nth i (expects s')\<rparr>)) (\<lambda>(ret, t). Ok (False, t))
        else post_loop abort i (s\<lparr>expects := remove_nth i (expects s)\<rparr>))"
  by pat_completeness auto
termination
  by (relation "measure (\<lambda>(abort, i, s). length (expects s) - i)")
    (auto simp: length_remove_nth nfsim_log_frame)

declare post_loop.simps [simp del]

definition expect_post_command :: "bool \<Rightarrow> 'z log_state_scheme \<Rightarrow> (bool \<times> 'z log_state_scheme) outcome" where
  "expect_post_command abort s =
     (if cmdstack s = [] then Barf ''null command stack''
      else bind_outcome (post_loop abort 0 s) (\<lambda>(ret, t). Ok (ret, t\<lparr>cmdstack := tl (cmdstack t)\<rparr>)))"

text \<open>\<open>is_command\<close> is \<^verbatim>\<open>tui_is_command\<close>; the pattern is the remaining words joined by blanks.\<close>

fun join_words :: "string list \<Rightarrow> string" where
  "join_words [] = []"
| "join_words [w] = w"
| "join_words (w # v # r) = w @ CHR '' '' # join_words (v # r)"

definition show_expect :: "expect \<Rightarrow> string" where
  "show_expect e = command e @ '': '' @ (if invert e then ''! '' else []) @ CHR 0x22 # pattern e @ [CHR 0x22]"

definition expect_cmd :: "(string \<Rightarrow> bool) \<Rightarrow> string list \<Rightarrow> 'z log_state_scheme \<Rightarrow> bool \<times> 'z log_state_scheme" where
  "expect_cmd is_command argv s =
     (if length argv = 1 then (True, fold (\<lambda>e t. snd (nfsim_log LOG_ALWAYS (show_expect e) t)) (expects s) s)
      else
        let inv = (length argv > 1 \<and> argv ! 1 = ''!'');
            argv = (if inv then tl argv else argv)
        in if length argv < 3 then (False, s)
           else if \<not> is_command (argv ! 1) then
             (False, snd (nfsim_log LOG_ALWAYS (''expect: '' @ argv ! 1 @ '' is not a command'' @ [CHR 0x0A]) s))
           else (True, s\<lparr>expects := \<lparr>invert = inv, matched = False, command = argv ! 1,
                           pattern = join_words (drop 2 argv)\<rparr> # expects s\<rparr>))"

section \<open>The match is the declarative one\<close>

text \<open>
  A star matches anything, a run of blanks in the pattern any run of blanks in the line, every other character
  itself.
\<close>

inductive loosely :: "string \<Rightarrow> string \<Rightarrow> bool" where
  finish: "loosely [] []"
| blanks: "u \<noteq> [] \<Longrightarrow> v \<noteq> [] \<Longrightarrow> list_all ws u \<Longrightarrow> list_all ws v \<Longrightarrow> loosely p l \<Longrightarrow> loosely (u @ p) (v @ l)"
| star: "loosely p l \<Longrightarrow> loosely (CHR ''*'' # p) (any @ l)"
| char: "\<not> ws c \<Longrightarrow> c \<noteq> CHR ''*'' \<Longrightarrow> loosely p l \<Longrightarrow> loosely (c # p) (c # l)"

inductive_cases loosely_NilE: "loosely [] l"
inductive_cases loosely_ConsE: "loosely (c # p) l"

lemma loosely_Nil: "loosely [] l \<longleftrightarrow> l = []"
  by (auto elim: loosely_NilE intro: loosely.finish)

lemma ws_star: "\<not> ws CHR ''*''"
  by (simp add: ws_def)

lemma loosely_char: "\<not> ws c \<Longrightarrow> c \<noteq> CHR ''*'' \<Longrightarrow> loosely (c # p) l \<longleftrightarrow> (\<exists>l'. l = c # l' \<and> loosely p l')"
  by (auto elim!: loosely_ConsE intro: loosely.char simp: append_eq_Cons_conv Cons_eq_append_conv)

lemma loosely_star: "loosely (CHR ''*'' # p) l \<longleftrightarrow> (\<exists>i \<le> length l. loosely p (drop i l))"
proof
  assume "loosely (CHR ''*'' # p) l"
  then obtain any l' where "l = any @ l'" "loosely p l'"
    by (auto elim!: loosely_ConsE simp: Cons_eq_append_conv ws_star)
  then show "\<exists>i \<le> length l. loosely p (drop i l)" by (intro exI [of _ "length any"]) simp
next
  assume "\<exists>i \<le> length l. loosely p (drop i l)"
  then obtain i where "loosely p (drop i l)" by blast
  from loosely.star [OF this, of "take i l"] show "loosely (CHR ''*'' # p) l" by simp
qed

lemma list_all_takeWhile: "list_all P xs \<Longrightarrow> length xs \<le> length (takeWhile P (xs @ ys)) \<and> take (length xs) (xs @ ys) = xs"
  by (induction xs) auto

lemma loosely_blanks:
  assumes "ws c"
  shows "loosely (c # p) l \<longleftrightarrow>
    (\<exists>i \<in> set [1..<Suc (length (takeWhile ws (c # p)))]. \<exists>j \<in> set [1..<Suc (length (takeWhile ws l))].
       loosely (drop i (c # p)) (drop j l))"
proof
  assume "loosely (c # p) l"
  then obtain u v q k where uv: "u \<noteq> []" "v \<noteq> []" "list_all ws u" "list_all ws v" "loosely q k" "c # p = u @ q" "l = v @ k"
    using assms by (auto elim!: loosely_ConsE simp: ws_star)
  then have "loosely (drop (length u) (c # p)) (drop (length v) l)" by simp
  moreover have "length u \<le> length (takeWhile ws (c # p))" "length v \<le> length (takeWhile ws l)"
    using uv list_all_takeWhile by metis+
  moreover have "1 \<le> length u" "1 \<le> length v" using uv by (simp_all add: Suc_le_eq)
  ultimately show "\<exists>i \<in> set [1..<Suc (length (takeWhile ws (c # p)))]. \<exists>j \<in> set [1..<Suc (length (takeWhile ws l))].
       loosely (drop i (c # p)) (drop j l)"
    unfolding set_upt by (intro bexI [of _ "length u"] bexI [of _ "length v"]) auto
next
  assume "\<exists>i \<in> set [1..<Suc (length (takeWhile ws (c # p)))]. \<exists>j \<in> set [1..<Suc (length (takeWhile ws l))].
       loosely (drop i (c # p)) (drop j l)"
  then obtain i j where ij: "1 \<le> i" "i \<le> length (takeWhile ws (c # p))" "1 \<le> j" "j \<le> length (takeWhile ws l)"
    "loosely (drop i (c # p)) (drop j l)" unfolding set_upt by (auto simp: less_Suc_eq_le)
  have pre: "list_all ws (take k xs)" if "k \<le> length (takeWhile ws xs)" for k xs
    using that by (metis list_all_iff set_takeWhileD in_set_takeD takeWhile_eq_take take_take min.absorb1)
  have "take i (c # p) \<noteq> []" "take j l \<noteq> []" using ij by auto
  from loosely.blanks [OF this pre [OF ij(2)] pre [OF ij(4)] ij(5)] show "loosely (c # p) l" by simp
qed

lemma loosely_first:
  assumes "loosely (c # p) l" "c \<noteq> CHR ''*''"
  shows "l \<noteq> [] \<and> (if ws c then ws (hd l) else hd l = c)"
proof (cases "ws c")
  case True
  then obtain u v q k where "v \<noteq> []" "list_all ws v" "l = v @ k"
    using assms by (auto elim!: loosely_ConsE)
  then show ?thesis using True by (cases v) auto
next
  case False
  then show ?thesis using assms by (auto simp: loosely_char)
qed

lemma takeWhile_nth_holds: "k < length (takeWhile P xs) \<Longrightarrow> P (xs ! k)"
  by (metis nth_mem set_takeWhileD takeWhile_nth)

text \<open>The positions that the loop jumps over cannot begin a match of the pattern behind the star.\<close>

lemma maybe_skip_hopeless:
  assumes "loosely p (drop j l)" "i < j" "j \<le> length l"
  shows "i + maybe_skip p (drop i l) \<le> j"
proof -
  have tl: "tl (drop i l) = drop (Suc i) l" by (simp add: tl_drop drop_Suc)
  have at: "Suc (i + length (takeWhile P (drop (Suc i) l))) \<le> j" if "\<not> P (l ! j)" for P
  proof -
    have "\<not> j - Suc i < length (takeWhile P (drop (Suc i) l))"
      using takeWhile_nth_holds [of "j - Suc i" P "drop (Suc i) l"] that assms(2,3) by auto
    then show ?thesis using assms(2) by linarith
  qed
  show ?thesis
  proof (cases p)
    case Nil
    then have "length l \<le> j" using assms(1) by (simp add: loosely_Nil)
    then show ?thesis using assms Nil by (simp add: maybe_skip_def)
  next
    case (Cons c q)
    show ?thesis
    proof (cases "c = CHR ''*''")
      case True
      then show ?thesis using Cons assms(2) by (simp add: maybe_skip_def)
    next
      case False
      then have "drop j l \<noteq> [] \<and> (if ws c then ws (hd (drop j l)) else hd (drop j l) = c)"
        using loosely_first assms(1) unfolding Cons by blast
      then have *: "j < length l" "if ws c then ws (l ! j) else l ! j = c"
        using assms(3) by (auto simp: hd_drop_conv_nth)
      show ?thesis
        using * at [of "\<lambda>d. \<not> ws d"] at [of "\<lambda>d. d \<noteq> c"] False assms(2)
        by (simp add: maybe_skip_def Cons tl split: if_splits)
    qed
  qed
qed

lemma star_positions_le: "k \<in> set (star_positions p l i) \<Longrightarrow> k \<le> length l"
proof (induction p l i rule: star_positions.induct)
  case (1 p l i)
  show ?case
  proof (cases "i \<le> length l")
    case True
    then have "star_positions p l i = i # star_positions p l (i + maybe_skip p (drop i l))"
      by (simp add: star_positions.simps [of p l i])
    then show ?thesis using 1 True by auto
  next
    case False
    then show ?thesis using 1(2) by (simp add: star_positions.simps [of p l i])
  qed
qed

lemma star_positions_complete:
  "i \<le> j \<Longrightarrow> j \<le> length l \<Longrightarrow> loosely p (drop j l) \<Longrightarrow> j \<in> set (star_positions p l i)"
proof (induction p l i rule: star_positions.induct)
  case (1 p l i)
  have "star_positions p l i = i # star_positions p l (i + maybe_skip p (drop i l))"
    using 1(2,3) by (simp add: star_positions.simps [of p l i])
  moreover have "j = i \<or> j \<in> set (star_positions p l (i + maybe_skip p (drop i l)))"
    using 1 maybe_skip_hopeless [of p j l i] by (cases "j = i") simp_all
  ultimately show ?case by auto
qed

lemma loose_match_loosely: "loose_match p l = loosely p l"
proof (induction p l rule: loose_match.induct)
  case (1 line)
  show ?case by (simp add: loosely_Nil)
next
  case step: (2 c p line)
  consider (blank) "ws c" | (star) "\<not> ws c" "c = CHR ''*''" | (char) "\<not> ws c" "c \<noteq> CHR ''*''" by blast
  then show ?case
  proof cases
    case blank
    have "loose_match (c # p) line \<longleftrightarrow>
      (\<exists>i \<in> set [1..<Suc (length (takeWhile ws (c # p)))]. \<exists>j \<in> set [1..<Suc (length (takeWhile ws line))].
         loose_match (drop i (c # p)) (drop j line))"
      using blank by (subst loose_match.simps) (rule if_P)
    also have "\<dots> \<longleftrightarrow> loosely (c # p) line"
      unfolding loosely_blanks [OF blank] using step(1) [OF blank] by (meson bex_cong)
    finally show ?thesis .
  next
    case star
    have "loose_match (c # p) line \<longleftrightarrow> (\<exists>i \<in> set (star_positions p line 0). loose_match p (drop i line))"
      using star by simp
    also have "\<dots> \<longleftrightarrow> (\<exists>i \<in> set (star_positions p line 0). loosely p (drop i line))"
      using step(2) [OF star] by (meson bex_cong)
    also have "\<dots> \<longleftrightarrow> loosely (c # p) line"
      unfolding star(2) loosely_star using star_positions_le star_positions_complete [of 0] by blast
    finally show ?thesis .
  next
    case char
    have "loose_match (c # p) line = (case line of [] \<Rightarrow> False | d # l \<Rightarrow> c = d \<and> loose_match p l)"
      using char by simp
    then show ?thesis using step(3) [OF char] by (cases line) (auto simp: loosely_char [OF char])
  qed
qed

section \<open>Stripping\<close>

definition strip :: "string \<Rightarrow> string" where
  "strip line = rev (dropWhile ws (rev (dropWhile ws line)))"

lemma trim_end_rev: "s \<noteq> [] \<Longrightarrow> \<not> ws (hd s) \<Longrightarrow> trim_end s = rev (dropWhile ws (rev s))"
proof (induction s rule: trim_end.induct)
  case (1 s)
  show ?case
  proof (cases "ws (last s)")
    case True
    then obtain b c t where s: "s = b # t @ [c]"
      using 1(2,3) by (cases s rule: rev_cases) (metis append_Nil hd_append2 last_snoc list.exhaust_sel list.sel(1) append_Cons)+
    then have "trim_end s = trim_end (b # t)"
      using True by (subst trim_end.simps) simp
    then show ?thesis using 1 True s by simp
  next
    case False
    then have "trim_end s = s" by (simp add: trim_end.simps [of s])
    then show ?thesis using False 1(2) by (cases s rule: rev_cases) simp_all
  qed
qed

lemma dropWhile_hd: "dropWhile P xs \<noteq> [] \<Longrightarrow> \<not> P (hd (dropWhile P xs))"
  by (rule hd_dropWhile)

lemma matches_iff: "matches p line \<longleftrightarrow> loosely p (strip line)"
proof (cases "dropWhile ws line = [] \<or> \<not> ws (last (dropWhile ws line))")
  case True
  then have "strip line = dropWhile ws line"
    unfolding strip_def by (cases "dropWhile ws line" rule: rev_cases) (simp_all del: dropWhile_eq_Nil_conv)
  then show ?thesis using True by (auto simp: matches_def loose_match_loosely Let_def)
next
  case False
  then show ?thesis
    by (simp add: matches_def loose_match_loosely strip_def trim_end_rev dropWhile_hd)
qed

section \<open>Verdicts\<close>

definition mark :: "string \<Rightarrow> string list \<Rightarrow> expect \<Rightarrow> expect" where
  "mark cur ls e = e\<lparr>matched := matched e \<or> (cur = command e \<and> (\<exists>l \<in> set ls. matches (pattern e) l))\<rparr>"

lemma mark_simps [simp]:
  "command (mark cur ls e) = command e" "invert (mark cur ls e) = invert e" "pattern (mark cur ls e) = pattern e"
  "cur \<noteq> command e \<Longrightarrow> mark cur ls e = e"
  by (simp_all add: mark_def)

lemma mark_mark: "mark cur ls (mark cur ks e) = mark cur (ks @ ls) e"
  by (simp add: mark_def bex_Un conj_disj_distribL disj_assoc)

lemma nfsim_log_marks:
  "cmdstack s = cur # st \<Longrightarrow> expects (snd (nfsim_log ty line s)) = map (mark cur [line]) (expects s)"
  by (auto simp: nfsim_log_def expect_log_hook_def mark_def hit_def)

lemma nfsim_log_result:
  "cmdstack s = cur # st \<Longrightarrow> fst (nfsim_log ty line s) \<longleftrightarrow> (\<exists>e \<in> set (expects s). hit cur line e)"
  by (auto simp: nfsim_log_def expect_log_hook_def list_ex_iff)

definition log_lines :: "(u32 \<times> string) list \<Rightarrow> 'z log_state_scheme \<Rightarrow> 'z log_state_scheme" where
  "log_lines ls s = fold (\<lambda>(ty, line) t. snd (nfsim_log ty line t)) ls s"

lemma log_lines_marks:
  "cmdstack s = cur # st \<Longrightarrow>
   expects (log_lines ls s) = map (mark cur (map snd ls)) (expects s) \<and> cmdstack (log_lines ls s) = cur # st"
proof (induction ls arbitrary: s)
  case Nil
  then show ?case by (simp add: log_lines_def mark_def)
next
  case (Cons tl ls)
  obtain ty line where tl: "tl = (ty, line)" by fastforce
  have "log_lines (tl # ls) s = log_lines ls (snd (nfsim_log ty line s))"
    by (simp add: log_lines_def tl)
  then show ?case
    using Cons(1) [of "snd (nfsim_log ty line s)"] Cons(2)
    by (simp add: nfsim_log_frame nfsim_log_marks [OF Cons(2)] mark_mark comp_def tl)
qed

abbreviation pending :: "string \<Rightarrow> expect list \<Rightarrow> bool" where
  "pending cur es \<equiv> \<exists>e \<in> set es. command e = cur \<and> failed e"

lemma remove_nth_drop: "i < length xs \<Longrightarrow> drop i (remove_nth i xs) = drop (Suc i) xs"
  by (simp add: remove_nth_def)

lemma remove_nth_take: "i < length xs \<Longrightarrow> take i (remove_nth i xs) = take i xs"
  by (simp add: remove_nth_def)

lemma filter_marked: "filter (\<lambda>e. command e \<noteq> cur) (map (mark cur ls) es) = filter (\<lambda>e. command e \<noteq> cur) es"
  by (induction es) auto

lemma marked_others: "\<forall>e \<in> set es. command e \<noteq> cur \<Longrightarrow> map (mark cur ls) es = es"
  by (induction es) auto

text \<open>
  The loop judges the expectations as they were when it started, although the lines it logs may mark some of
  them: nothing is logged before the first failure, and after it the verdict is settled.
\<close>

lemma post_loop_spec:
  assumes "cmdstack s = cur # st" "\<forall>e \<in> set (take i (expects s)). command e \<noteq> cur"
  shows "\<exists>t. post_loop False i s = Ok (\<not> pending cur (drop i (expects s)), t) \<and>
             expects t = filter (\<lambda>e. command e \<noteq> cur) (expects s) \<and> cmdstack t = cmdstack s"
  using assms
proof (induction "False" i s rule: post_loop.induct)
  case (1 i s)
  show ?case
  proof (cases "i < length (expects s)")
    case False
    then have "post_loop False i s = Ok (True, s)" by (simp add: post_loop.simps [of _ i s])
    then show ?thesis using False 1(5) by (auto simp: filter_id_conv)
  next
    case True
    define e where "e = expects s ! i"
    have drop: "drop i (expects s) = e # drop (Suc i) (expects s)"
      using True by (simp add: e_def Cons_nth_drop_Suc)
    have split: "expects s = take i (expects s) @ e # drop (Suc i) (expects s)"
      using True by (simp add: e_def id_take_nth_drop [symmetric])
    have rest: "filter (\<lambda>e. command e \<noteq> cur) (expects s) =
        filter (\<lambda>e. command e \<noteq> cur) (take i (expects s)) @ filter (\<lambda>e. command e \<noteq> cur) (drop (Suc i) (expects s))"
      if "command e = cur"
      using arg_cong [OF split, of "filter (\<lambda>e. command e \<noteq> cur)"] that by simp
    consider (other) "command e \<noteq> cur" | (bad) "command e = cur" "failed e" | (good) "command e = cur" "\<not> failed e"
      by blast
    then show ?thesis
    proof cases
      case other
      have "post_loop False i s = post_loop False (Suc i) s"
        using other True 1(4) by (simp add: post_loop.simps [of _ i s] e_def)
      moreover have "\<forall>e \<in> set (take (Suc i) (expects s)). command e \<noteq> cur"
        using other 1(5) True by (auto simp: take_Suc_conv_app_nth e_def)
      ultimately show ?thesis
        using 1(1) True other 1(4) by (auto simp: drop e_def not_le)
    next
      case good
      let ?s = "s\<lparr>expects := remove_nth i (expects s)\<rparr>"
      have "post_loop False i s = post_loop False i ?s"
        using good True 1(4) by (simp add: post_loop.simps [of _ i s] e_def)
      moreover have "filter (\<lambda>e. command e \<noteq> cur) (expects ?s) = filter (\<lambda>e. command e \<noteq> cur) (expects s)"
        using rest [OF good(1)] by (simp add: remove_nth_def)
      ultimately show ?thesis
        using 1(3) True good 1(4,5) by (auto simp: drop e_def not_le remove_nth_drop remove_nth_take)
    next
      case bad
      let ?s = "snd (nfsim_log LOG_UI (verdict_line e) s)"
      let ?t = "?s\<lparr>expects := remove_nth i (expects ?s)\<rparr>"
      have marks: "expects ?s = map (mark cur [verdict_line e]) (expects s)"
        using 1(4) by (rule nfsim_log_marks)
      have "post_loop False i s = bind_outcome (post_loop False i ?t) (\<lambda>(ret, t). Ok (False, t))"
        using bad True 1(4) by (simp add: post_loop.simps [of _ i s] e_def Let_def)
      moreover have "\<forall>e \<in> set (take i (expects ?t)). command e \<noteq> cur"
        using 1(5) True by (simp add: marks remove_nth_take take_map)
      then have "\<exists>t. post_loop False i ?t = Ok (\<not> pending cur (drop i (expects ?t)), t) \<and>
             expects t = filter (\<lambda>e. command e \<noteq> cur) (expects ?t) \<and> cmdstack t = cmdstack ?t"
        using 1(2) [of e ?s] True bad 1(4) by (simp add: e_def not_le nfsim_log_frame)
      moreover have "filter (\<lambda>e. command e \<noteq> cur) (expects ?t) = filter (\<lambda>e. command e \<noteq> cur) (expects s)"
        using rest [OF bad(1)] by (simp add: remove_nth_def marks take_map drop_map filter_marked)
      ultimately show ?thesis using bad by (auto simp: drop nfsim_log_frame)
    qed
  qed
qed

lemma post_loop_abort:
  assumes "cmdstack s = cur # st"
  shows "post_loop True i s =
    (case find (\<lambda>e. command e = cur \<and> failed e) (drop i (expects s)) of
       Some e \<Rightarrow> Barf (verdict_line e) | None \<Rightarrow> post_loop False i s)"
  using assms
proof (induction "False" i s rule: post_loop.induct)
  case (1 i s)
  show ?case
  proof (cases "i < length (expects s)")
    case False
    then show ?thesis by (simp add: post_loop.simps [of _ i s])
  next
    case True
    then have drop: "drop i (expects s) = expects s ! i # drop (Suc i) (expects s)"
      by (simp add: Cons_nth_drop_Suc)
    show ?thesis
    proof (cases "command (expects s ! i) = cur")
      case False
      then have "post_loop b i s = post_loop b (Suc i) s" for b
        using True 1(4) by (simp add: post_loop.simps [of _ i s])
      then show ?thesis using 1(1) True False 1(4) by (simp add: drop not_le split: option.split)
    next
      case cur: True
      show ?thesis
      proof (cases "failed (expects s ! i)")
        case bad: True
        then show ?thesis using True cur 1(4) by (simp add: drop post_loop.simps [of True i s])
      next
        case False
        then have "post_loop b i s = post_loop b i (s\<lparr>expects := remove_nth i (expects s)\<rparr>)" for b
          using True cur 1(4) by (simp add: post_loop.simps [of _ i s])
        then show ?thesis using 1(3) True False cur 1(4) by (simp add: drop not_le remove_nth_drop split: option.split)
      qed
    qed
  qed
qed

text \<open>An expectation holds for the lines of a command if one of them matches, or none does when it is inverted.\<close>

definition satisfied :: "string list \<Rightarrow> expect \<Rightarrow> bool" where
  "satisfied ls e \<longleftrightarrow> invert e = (\<not> (\<exists>l \<in> set ls. loosely (pattern e) (strip l)))"

lemma failed_mark: "\<not> matched e \<Longrightarrow> command e = cur \<Longrightarrow> failed (mark cur ls e) \<longleftrightarrow> \<not> satisfied ls e"
  by (auto simp: failed_def mark_def satisfied_def matches_iff)

text \<open>The round of a command: it is pushed, lines are logged, and its expectations are judged.\<close>

lemma expect_post_spec:
  assumes "cmdstack s = cmd # st" "expects s = map (mark cmd ls) es"
    "\<forall>e \<in> set es. command e = cmd \<longrightarrow> \<not> matched e"
  shows "\<exists>t. expect_post_command False s = Ok (\<forall>e \<in> set es. command e = cmd \<longrightarrow> satisfied ls e, t) \<and>
             expects t = filter (\<lambda>e. command e \<noteq> cmd) es \<and> cmdstack t = st"
proof -
  have "(\<not> pending cmd (expects s)) = (\<forall>e \<in> set es. command e = cmd \<longrightarrow> satisfied ls e)"
    using assms(2,3) failed_mark by auto
  then show ?thesis
    using post_loop_spec [of s cmd st 0] assms(1,2) filter_marked [of cmd ls es]
    by (auto simp: expect_post_command_def)
qed

lemma expect_post_abort:
  assumes "cmdstack s = cmd # st" "expects s = map (mark cmd ls) es"
    "\<forall>e \<in> set es. command e = cmd \<longrightarrow> \<not> matched e"
  shows "if \<forall>e \<in> set es. command e = cmd \<longrightarrow> satisfied ls e
         then expect_post_command True s = expect_post_command False s
         else \<exists>e \<in> set es. command e = cmd \<and> \<not> satisfied ls e \<and> expect_post_command True s = Barf (verdict_line e)"
proof (cases "find (\<lambda>e. command e = cmd \<and> failed e) (expects s)")
  case None
  then have "\<forall>e \<in> set es. command e = cmd \<longrightarrow> satisfied ls e"
    using assms(2,3) failed_mark by (auto simp: find_None_iff)
  then show ?thesis
    using None post_loop_abort [OF assms(1), of 0] assms(1) by (simp add: expect_post_command_def)
next
  case (Some f)
  then have f: "f \<in> set (expects s)" "command f = cmd" "failed f"
    by (auto simp: find_Some_iff in_set_conv_nth)
  then obtain e where e: "e \<in> set es" "f = mark cmd ls e" using assms(2) by auto
  then have "command e = cmd" "\<not> satisfied ls e" using f assms(3) failed_mark by auto
  moreover have "verdict_line f = verdict_line e" using e by (simp add: verdict_line_def)
  ultimately show ?thesis
    using e(1) Some post_loop_abort [OF assms(1), of 0] assms(1) by (auto simp: expect_post_command_def)
qed

text \<open>C23. The pattern match of expect.c, with its skipping of positions at which the rest of the pattern cannot start,
  accepts exactly the lines that the pattern describes: a star stands for any string, a run of blanks for any
  run of blanks, any other character for itself; leading and trailing blanks of the line are ignored.\<close>

theorem loose_match_correct:
  "(loose_match p line \<longleftrightarrow> loosely p line) \<and> (matches p line \<longleftrightarrow> loosely p (strip line))"
  by (simp add: loose_match_loosely matches_iff)

end
