(* ===== verification/Log.thy ===== *)
theory Log
  imports Expect
begin

text \<open>
  Logging, core/log.c: messages that are built up in pieces and printed line by line, and the \<^verbatim>\<open>log\<close> command that
  chooses the types of messages to print. (\<open>nfsim_log\<close> itself is in the theory of the expectations, which it
  feeds.) The pieces are shown to give the lines of their concatenation, and the mask of types to be a set
  on which the command adds, removes and assigns.
\<close>

section \<open>Messages in pieces\<close>

text \<open>The loop over the buffer: every part that ends in a newline is logged, the rest is kept.\<close>

function print_lines :: "u32 \<Rightarrow> string \<Rightarrow> 'z log_state_scheme \<Rightarrow> string \<times> 'z log_state_scheme" where
  "print_lines ty ptr s =
     (let len = length (takeWhile (\<lambda>c. c \<noteq> CHR 0x0A) ptr) in
      if len < length ptr
      then print_lines ty (drop (Suc len) ptr) (snd (nfsim_log ty (take len ptr) s))
      else (ptr, s))"
  by pat_completeness auto
termination
  by (relation "measure (\<lambda>(ty, ptr, s). length ptr)") auto

declare print_lines.simps [simp del]

text \<open>
  \<^verbatim>\<open>vsnprintf(buf + len, n, ...)\<close> stores at most \<open>n - 1\<close> characters and their terminator, and returns the length of
  the whole text. \<open>text\<close> is the formatted message.
\<close>

definition nfsim_log_partial_v ::
    "u32 \<Rightarrow> string \<Rightarrow> nat \<Rightarrow> string \<Rightarrow> 'z log_state_scheme \<Rightarrow> string \<times> 'z log_state_scheme" where
  "nfsim_log_partial_v ty buf bufsize text s =
     (let n = bufsize - length buf - 1;
          s = (if length text > n then snd (nfsim_log LOG_ALWAYS ''nfsim_log_partial buffer is full!'' s) else s)
      in print_lines ty (buf @ take (n - 1) text) s)"

definition PRINTK_BUFSIZ :: nat where
  "PRINTK_BUFSIZ = 4096"

text \<open>The kernel's log buffer and the flag of core/log.c join the state.\<close>

record log_full = log_state +
  printk_buf :: string
  describe_packets :: bool

definition printk :: "string \<Rightarrow> 'z log_full_scheme \<Rightarrow> 'z log_full_scheme" where
  "printk text s =
     (let (buf, s) = nfsim_log_partial_v LOG_KERNEL (printk_buf s) PRINTK_BUFSIZ text s
      in s\<lparr>printk_buf := buf\<rparr>)"

definition log_describe_packets :: "'z log_full_scheme \<Rightarrow> bool" where
  "log_describe_packets s = describe_packets s"

definition log_init :: "bool \<Rightarrow> 'z log_full_scheme \<Rightarrow> 'z log_full_scheme" where
  "log_init tui_quiet s =
     s\<lparr>typemask := (if tui_quiet then typemask s else - 1), describe_packets := True, printk_buf := []\<rparr>"

section \<open>The log command\<close>

definition log_names :: "(u32 \<times> string) list" where
  "log_names = [(LOG_KERNEL, ''kernel''), (LOG_UI, ''ui''), (LOG_ROUTE, ''route''), (LOG_PROTOCOL, ''protocol''),
     (LOG_USERSPACE, ''userspace''), (LOG_PACKET, ''packet''), (LOG_HOOK, ''hook'')]"

definition parsetype :: "string \<Rightarrow> u32" where
  "parsetype ty = (case find (\<lambda>(t, n). n = ty) log_names of Some (t, n) \<Rightarrow> t | None \<Rightarrow> 0)"

definition tolower :: "char \<Rightarrow> char" where
  "tolower c = (let n = of_char c :: int in if 65 \<le> n \<and> n \<le> 90 then char_of (n + 32) else c)"

definition strcaseeq :: "string \<Rightarrow> string \<Rightarrow> bool" where
  "strcaseeq a b \<longleftrightarrow> map tolower a = map tolower b"

text \<open>The loop over the type arguments: the collected mask, or the first word that is no type.\<close>

fun collect_types :: "string list \<Rightarrow> u32 \<Rightarrow> string + u32" where
  "collect_types [] newtypemask = Inr newtypemask"
| "collect_types (a # as) newtypemask =
     (if parsetype a = 0 then Inl a else collect_types as (newtypemask OR parsetype a))"

definition log_types :: "char \<Rightarrow> u32 \<Rightarrow> 'z log_full_scheme \<Rightarrow> bool \<times> 'z log_full_scheme" where
  "log_types modifier newtypemask s =
     (if modifier = CHR ''t'' \<or> modifier = CHR ''='' then (True, s\<lparr>typemask := newtypemask\<rparr>)
      else if modifier = CHR ''-'' then (True, s\<lparr>typemask := typemask s AND NOT newtypemask\<rparr>)
      else if modifier = CHR ''+'' then (True, s\<lparr>typemask := typemask s OR newtypemask\<rparr>)
      else (False, snd (nfsim_log LOG_ALWAYS (''unknown modifer: '' @ [modifier]) s)))"

text \<open>An empty first argument is looked at behind its terminator, \<open>Barf\<close> here.\<close>

definition log_admin :: "string list \<Rightarrow> 'z log_full_scheme \<Rightarrow> (bool \<times> 'z log_full_scheme) outcome" where
  "log_admin argv s =
     (let argc = length argv in
      if argc = 1 then
        Ok (True,
            fold (\<lambda>(t, n) s. if typemask s AND t \<noteq> 0 then snd (nfsim_log LOG_ALWAYS (CHR 0x09 # n) s) else s) log_names
              (snd (nfsim_log LOG_ALWAYS ''current log types:'' s)))
      else if (argc = 2 \<or> argc = 3) \<and> strcaseeq (argv ! 1) ''describe_packets'' then
        let s = (if argc = 3
                 then s\<lparr>describe_packets := strcaseeq (argv ! 2) ''on'' \<or> strcaseeq (argv ! 2) ''true''\<rparr> else s)
        in Ok (False, snd (nfsim_log (if argc = 2 then LOG_ALWAYS else LOG_UI)
                 (''packet descriptions are '' @ (if describe_packets s then ''on'' else ''off'')) s))
      else if argc > 1 \<and> argv ! 1 = [] then Barf ''read past the end of the string''
      else if argc > 1 \<and> (if hd (argv ! 1) = CHR ''t'' then argv ! 1 else tl (argv ! 1)) = ''types'' then
        (case collect_types (drop 2 argv) 0 of
           Inl a \<Rightarrow> Ok (False, snd (nfsim_log LOG_ALWAYS (''no such type '' @ a) s))
         | Inr newtypemask \<Rightarrow> Ok (log_types (hd (argv ! 1)) newtypemask s))
      else Ok (True, snd (nfsim_log LOG_ALWAYS ''meep'' s)))"

section \<open>Pieces give the lines of their concatenation\<close>

text \<open>The complete lines of a text, and what follows the last newline.\<close>

fun split_lines :: "string \<Rightarrow> string list \<times> string" where
  "split_lines [] = ([], [])"
| "split_lines (c # s) =
     (let (ls, r) = split_lines s in
      if c = CHR 0x0A then ([] # ls, r)
      else case ls of [] \<Rightarrow> ([], c # r) | l # ls' \<Rightarrow> ((c # l) # ls', r))"

lemma split_lines_prefix:
  "CHR 0x0A \<notin> set l \<Longrightarrow> split_lines (l @ CHR 0x0A # s) = (let (ls, r) = split_lines s in (l # ls, r))"
  by (induction l) (auto split: prod.splits)

lemma split_lines_none: "CHR 0x0A \<notin> set l \<Longrightarrow> split_lines l = ([], l)"
  by (induction l) auto

lemma split_lines_append:
  "split_lines (s @ t) = (case split_lines s of (ls, r) \<Rightarrow> case split_lines (r @ t) of (ks, q) \<Rightarrow> (ls @ ks, q))"
  by (induction s) (auto split: prod.splits list.splits if_splits)

lemma split_lines_rest: "CHR 0x0A \<notin> set (snd (split_lines s))"
  by (induction s) (auto split: prod.splits list.splits)

lemma print_lines_split:
  "print_lines ty ptr s = (snd (split_lines ptr), log_lines (map (Pair ty) (fst (split_lines ptr))) s)"
proof (induction ty ptr s rule: print_lines.induct)
  case (1 ty ptr s)
  let ?len = "length (takeWhile (\<lambda>c. c \<noteq> CHR 0x0A) ptr)"
  have tw: "CHR 0x0A \<notin> set (take ?len ptr)"
    by (metis (mono_tags, lifting) set_takeWhileD takeWhile_eq_take)
  show ?case
  proof (cases "?len < length ptr")
    case True
    then have "ptr ! ?len = CHR 0x0A" using nth_length_takeWhile by fastforce
    then have ptr: "ptr = take ?len ptr @ CHR 0x0A # drop (Suc ?len) ptr"
      using True by (metis id_take_nth_drop)
    have "print_lines ty ptr s = print_lines ty (drop (Suc ?len) ptr) (snd (nfsim_log ty (take ?len ptr) s))"
      using True by (simp add: print_lines.simps [of ty ptr s] Let_def)
    moreover have "split_lines ptr = (let (ls, r) = split_lines (drop (Suc ?len) ptr) in (take ?len ptr # ls, r))"
      using split_lines_prefix [OF tw, of "drop (Suc ?len) ptr"] ptr by simp
    ultimately show ?thesis using 1 True by (simp add: log_lines_def case_prod_beta Let_def)
  next
    case False
    then have "take ?len ptr = ptr" by simp
    then have "split_lines ptr = ([], ptr)" using split_lines_none tw by metis
    then show ?thesis using False by (simp add: print_lines.simps [of ty ptr s] log_lines_def)
  qed
qed

lemma partial_fits:
  assumes "length buf + length text + 2 \<le> bufsize"
  shows "nfsim_log_partial_v ty buf bufsize text s =
    (snd (split_lines (buf @ text)), log_lines (map (Pair ty) (fst (split_lines (buf @ text)))) s)"
  using assms by (simp add: nfsim_log_partial_v_def print_lines_split Let_def)

text \<open>One complete line through \<open>printk\<close>, and a line that is too long for its buffer: it is cut, nothing is printed of it, and from then on the
  buffer has no room for any message.\<close>

lemma printk_line:
  assumes "printk_buf s = []" "CHR 0x0A \<notin> set l" "length l + 3 \<le> PRINTK_BUFSIZ"
  shows "printk (l @ [CHR 0x0A]) s = (log_lines [(LOG_KERNEL, l)] s)\<lparr>printk_buf := []\<rparr>"
  using assms partial_fits [of "[]" "l @ [CHR 0x0A]" PRINTK_BUFSIZ LOG_KERNEL s] split_lines_prefix [OF assms(2), of "[]"]
  by (simp add: printk_def)

lemma printk_too_long:
  assumes "printk_buf s = []" "CHR 0x0A \<notin> set (take 4094 text)" "length text > 4095"
  shows "printk text s = (snd (nfsim_log LOG_ALWAYS ''nfsim_log_partial buffer is full!'' s))\<lparr>printk_buf := take 4094 text\<rparr>"
  using assms split_lines_none [OF assms(2)]
  by (simp add: printk_def nfsim_log_partial_v_def PRINTK_BUFSIZ_def print_lines_split log_lines_def Let_def)

lemma printk_stuck:
  assumes "length (printk_buf s) = 4094" "CHR 0x0A \<notin> set (printk_buf s)"
  shows "printk_buf (printk text s) = printk_buf s"
  using assms split_lines_none [OF assms(2)]
  by (simp add: printk_def nfsim_log_partial_v_def PRINTK_BUFSIZ_def print_lines_split Let_def)

definition pieces :: "u32 \<Rightarrow> nat \<Rightarrow> string list \<Rightarrow> string \<times> 'z log_state_scheme \<Rightarrow> string \<times> 'z log_state_scheme" where
  "pieces ty bufsize texts st = fold (\<lambda>text (buf, s). nfsim_log_partial_v ty buf bufsize text s) texts st"

lemma log_lines_append: "log_lines (xs @ ys) s = log_lines ys (log_lines xs s)"
  by (simp add: log_lines_def)

lemma pieces_spec:
  assumes "CHR 0x0A \<notin> set buf" "length buf + length (concat texts) + 2 \<le> bufsize"
  shows "pieces ty bufsize texts (buf, s) =
    (let (ls, rest) = split_lines (buf @ concat texts) in (rest, log_lines (map (Pair ty) ls) s))"
  using assms
proof (induction texts arbitrary: buf s)
  case Nil
  then show ?case by (simp add: pieces_def split_lines_none log_lines_def)
next
  case (Cons t ts)
  obtain ls r where lr: "split_lines (buf @ t) = (ls, r)" by fastforce
  have len: "length (snd (split_lines x)) \<le> length x" for x
    by (induction x) (auto split: prod.splits list.splits)
  have "pieces ty bufsize (t # ts) (buf, s) = pieces ty bufsize ts (r, log_lines (map (Pair ty) ls) s)"
    using partial_fits [of buf t bufsize ty s] Cons(3) lr by (simp add: pieces_def)
  also have "\<dots> = (let (ks, rest) = split_lines (r @ concat ts) in
      (rest, log_lines (map (Pair ty) ks) (log_lines (map (Pair ty) ls) s)))"
    using split_lines_rest [of "buf @ t"] len [of "buf @ t"] Cons(3) lr by (intro Cons(1)) auto
  finally show ?case
    using split_lines_append [of "buf @ t" "concat ts"] lr
    by (simp add: log_lines_append Let_def split: prod.splits)
qed

text \<open>A message that reaches \<open>nfsim_log_partial\<close> in pieces is logged as the complete lines of the concatenation,
  whatever the pieces are, and the unfinished last line stays in the buffer for the next piece, as long as
  the text fits in the buffer.\<close>

theorem log_partial_concat:
  assumes "CHR 0x0A \<notin> set buf" "length buf + length (concat texts) + 2 \<le> bufsize"
  shows "pieces ty bufsize texts (buf, s) =
    (let (ls, rest) = split_lines (buf @ concat texts) in (rest, log_lines (map (Pair ty) ls) s))"
  using assms by (rule pieces_spec)

theorem log_partial_concat_witness:
  "fst (pieces LOG_UI 30 [''ab'', ''c'' @ [CHR 0x0A], ''d'']
      ('''', \<lparr>expects = [], cmdstack = [], typemask = - 1, logged = []\<rparr>)) = ''d''"
  using log_partial_concat [of "''''" "[''ab'', ''c'' @ [CHR 0x0A], ''d'']" 30 LOG_UI
      "\<lparr>expects = [], cmdstack = [], typemask = - 1, logged = []\<rparr>"] by simp

section \<open>The mask is a set of types\<close>

definition shown :: "u32 \<Rightarrow> string set" where
  "shown m = {n. parsetype n AND m \<noteq> 0}"

lemmas log_type_defs = LOG_KERNEL_def LOG_UI_def LOG_ROUTE_def LOG_PROTOCOL_def LOG_PACKET_def LOG_USERSPACE_def
  LOG_HOOK_def

lemma parsetype_unfold:
  "parsetype n =
     (if n = ''kernel'' then 1 else if n = ''ui'' then 2 else if n = ''route'' then 4 else if n = ''protocol'' then 8
      else if n = ''userspace'' then 32 else if n = ''packet'' then 16 else if n = ''hook'' then 64 else 0)"
  by (auto simp: parsetype_def log_names_def log_type_defs)

lemma parsetype_single: "parsetype n \<noteq> 0 \<Longrightarrow> \<exists>k. parsetype n = 2 ^ k \<and> k < 32"
proof -
  have "\<exists>k. (x :: u32) = 2 ^ k \<and> k < 32" if "x = 2 ^ j" "j < 7" for x j using that by auto
  from this [of _ 0] this [of _ 1] this [of _ 2] this [of _ 3] this [of _ 4] this [of _ 5] this [of _ 6]
  show "parsetype n \<noteq> 0 \<Longrightarrow> ?thesis" by (simp add: parsetype_unfold split: if_splits)
qed

lemma parsetype_disjoint: "parsetype a \<noteq> 0 \<Longrightarrow> parsetype n AND parsetype a \<noteq> 0 \<longleftrightarrow> a = n"
  by (simp add: parsetype_unfold split: if_splits)

lemma shown_bit: "parsetype n = 2 ^ k \<Longrightarrow> k < 32 \<Longrightarrow> n \<in> shown m \<longleftrightarrow> bit m k"
  by (simp add: shown_def and_exp_eq_0_iff_not_bit and.commute)

lemma shown_valid: "n \<in> shown m \<Longrightarrow> parsetype n \<noteq> 0"
  by (auto simp: shown_def)

lemma shown_ops:
  "shown 0 = {}" "shown (a OR b) = shown a \<union> shown b" "shown (a AND NOT b) = shown a - shown b"
proof -
  show "shown 0 = {}" by (simp add: shown_def)
  have *: "n \<in> shown c \<longleftrightarrow> f (n \<in> shown a) (n \<in> shown b)"
    if "\<not> f False False" "\<And>k. k < 32 \<Longrightarrow> bit c k = f (bit a k) (bit b k)" for n c f
  proof (cases "parsetype n = 0")
    case True
    then show ?thesis using that(1) by (auto simp: shown_def)
  next
    case False
    then obtain k where k: "parsetype n = 2 ^ k" "k < 32" using parsetype_single by blast
    show ?thesis unfolding shown_bit [OF k] using k(2) by (rule that(2))
  qed
  show "shown (a OR b) = shown a \<union> shown b"
    by (rule set_eqI) (simp only: Un_iff, rule *, simp_all add: bit_or_iff)
  show "shown (a AND NOT b) = shown a - shown b"
    by (rule set_eqI) (simp only: Diff_iff, rule *, simp_all add: bit_and_iff bit_not_iff)
qed

lemma shown_parsetype: "parsetype a \<noteq> 0 \<Longrightarrow> shown (parsetype a) = {a}"
  using parsetype_disjoint by (auto simp: shown_def)

lemma collect_types_shown:
  "\<forall>a \<in> set as. parsetype a \<noteq> 0 \<Longrightarrow> \<exists>m'. collect_types as m = Inr m' \<and> shown m' = shown m \<union> set as"
proof (induction as arbitrary: m)
  case (Cons a as)
  then obtain m' where "collect_types as (m OR parsetype a) = Inr m'" "shown m' = shown (m OR parsetype a) \<union> set as"
    by fastforce
  then show ?case using Cons(2) by (auto simp: shown_ops(2) shown_parsetype)
qed simp

lemma collect_types_bad:
  "\<exists>a \<in> set as. parsetype a = 0 \<Longrightarrow> \<exists>a \<in> set as. parsetype a = 0 \<and> collect_types as m = Inl a"
  by (induction as arbitrary: m) auto

text \<open>The commands \<^verbatim>\<open>log types\<close>, \<^verbatim>\<open>log =types\<close>, \<^verbatim>\<open>log +types\<close> and \<^verbatim>\<open>log -types\<close> on the set of shown types.\<close>

definition log_op :: "char \<Rightarrow> string set \<Rightarrow> string set \<Rightarrow> string set" where
  "log_op modifier old new = (if modifier = CHR ''+'' then old \<union> new else if modifier = CHR ''-'' then old - new else new)"

text \<open>The mask of log types is a set of type names: \<^verbatim>\<open>log types\<close> and \<^verbatim>\<open>log =types\<close> assign it, \<^verbatim>\<open>log +types\<close> adds to it
  and \<^verbatim>\<open>log -types\<close> removes from it; a name that is no type leaves it as it was, and the command fails.\<close>

theorem log_admin_refines_set:
  assumes "modifier \<in> set ''=+-''"
  shows "if \<forall>a \<in> set names. parsetype a \<noteq> 0
         then \<exists>s'. log_admin (''log'' # (modifier # ''types'') # names) s = Ok (True, s') \<and>
                   shown (typemask s') = log_op modifier (shown (typemask s)) (set names)
         else \<exists>s'. log_admin (''log'' # (modifier # ''types'') # names) s = Ok (False, s') \<and>
                   shown (typemask s') = shown (typemask s)"
proof -
  have m: "modifier \<noteq> CHR ''t''" and low: "\<not> strcaseeq (modifier # ''types'') ''describe_packets''"
    using assms by (auto simp: strcaseeq_def)
  have admin: "log_admin (''log'' # (modifier # ''types'') # names) s =
      (case collect_types names 0 of
         Inl a \<Rightarrow> Ok (False, snd (nfsim_log LOG_ALWAYS (''no such type '' @ a) s))
       | Inr newtypemask \<Rightarrow> Ok (log_types modifier newtypemask s))"
    using m low by (simp add: log_admin_def Let_def split: sum.split)
  show ?thesis
  proof (cases "\<forall>a \<in> set names. parsetype a \<noteq> 0")
    case True
    then obtain m' where "collect_types names 0 = Inr m'" "shown m' = set names"
      using collect_types_shown [of names 0] by (auto simp: shown_ops)
    then show ?thesis
      using True admin assms by (auto simp: log_types_def log_op_def shown_ops)
  next
    case False
    then obtain a where "collect_types names 0 = Inl a" using collect_types_bad [of names 0] by blast
    then show ?thesis
      using False admin by (simp add: nfsim_log_def expect_log_hook_def split: list.split)
  qed
qed

theorem log_admin_refines_set_witness:
  "\<exists>s'. log_admin [''log'', ''+types'', ''route''] \<lparr>expects = [], cmdstack = [], typemask = 1, logged = [],
          printk_buf = [], describe_packets = True\<rparr> = Ok (True, s') \<and> ''route'' \<in> shown (typemask s')"
  using log_admin_refines_set [of "CHR ''+''" "[''route'']" "\<lparr>expects = [], cmdstack = [], typemask = 1, logged = [],
          printk_buf = [], describe_packets = True\<rparr>"]
  by (auto simp: parsetype_unfold log_op_def)

end
