(* ===== verification/Tui.thy ===== *)
theory Tui
  imports Log
begin

text \<open>
  The text user interface, core/tui.c: the table of commands and the hooks around them, running a command, splitting
  a line into arguments with its backquotes, and running a script. Commands, hooks and the shell behind backquotes
  are arguments of the definitions.
\<close>

section \<open>Commands and hooks\<close>

record tui_state = log_full +
  tui_linenum :: int
  stop :: bool

record 's command_entry =
  cmd_name :: string
  cmd_handler :: "string list \<Rightarrow> 's \<Rightarrow> (bool \<times> 's) outcome"
  cmd_helpfn :: "(string list \<Rightarrow> 's \<Rightarrow> 's) option"

record 's pre_post_hook =
  pre :: "(string \<Rightarrow> 's \<Rightarrow> 's) option"
  post :: "(string \<Rightarrow> 's \<Rightarrow> (bool \<times> 's) outcome) option"

definition TUI_MAX_CMD_LEN :: nat where
  "TUI_MAX_CMD_LEN = 1024"

definition TUI_MAX_ARGS :: nat where
  "TUI_MAX_ARGS = 128"

text \<open>\<^verbatim>\<open>list_add\<close> puts a new entry in front of the others.\<close>

definition tui_register_command ::
    "string \<Rightarrow> (string list \<Rightarrow> 's \<Rightarrow> (bool \<times> 's) outcome) \<Rightarrow> (string list \<Rightarrow> 's \<Rightarrow> 's) option \<Rightarrow>
     's command_entry list \<Rightarrow> 's command_entry list outcome" where
  "tui_register_command cmd handler helpfn commands =
     (if length cmd < TUI_MAX_CMD_LEN
      then Ok (\<lparr>cmd_name = cmd, cmd_handler = handler, cmd_helpfn = helpfn\<rparr> # commands)
      else Barf ''assert: strlen(command) < TUI_MAX_CMD_LEN'')"

definition tui_register_pre_post_hook ::
    "(string \<Rightarrow> 's \<Rightarrow> 's) option \<Rightarrow> (string \<Rightarrow> 's \<Rightarrow> (bool \<times> 's) outcome) option \<Rightarrow>
     's pre_post_hook list \<Rightarrow> 's pre_post_hook list" where
  "tui_register_pre_post_hook p q hooks = \<lparr>pre = p, post = q\<rparr> # hooks"

fun find_command :: "string \<Rightarrow> 's command_entry list \<Rightarrow> 's command_entry option" where
  "find_command n [] = None"
| "find_command n (cmd # cmds) = (if n = cmd_name cmd then Some cmd else find_command n cmds)"

interpretation cmds: registry cmd_name find_command
  by unfold_locales simp_all

definition tui_is_command :: "'s command_entry list \<Rightarrow> string \<Rightarrow> bool" where
  "tui_is_command commands n \<longleftrightarrow> find_command n commands \<noteq> None"

fun do_pre_commands :: "'s pre_post_hook list \<Rightarrow> string \<Rightarrow> 's \<Rightarrow> 's" where
  "do_pre_commands [] cmd s = s"
| "do_pre_commands (h # hs) cmd s =
     do_pre_commands hs cmd (case pre h of Some p \<Rightarrow> p cmd s | None \<Rightarrow> s)"

fun do_post_commands :: "'s pre_post_hook list \<Rightarrow> string \<Rightarrow> 's \<Rightarrow> (bool \<times> 's) outcome" where
  "do_post_commands [] cmd s = Ok (True, s)"
| "do_post_commands (h # hs) cmd s =
     bind_outcome (case post h of Some p \<Rightarrow> p cmd s | None \<Rightarrow> Ok (True, s))
       (\<lambda>(ok, s). bind_outcome (do_post_commands hs cmd s) (\<lambda>(ret, s). Ok (ok \<and> ret, s)))"

text \<open>\<^verbatim>\<open>script_fail\<close> reports the line, unloads the modules and ends the process; \<open>Barf\<close> carries its message.\<close>

definition tui_do_command ::
    "'z tui_state_scheme command_entry list \<Rightarrow> 'z tui_state_scheme pre_post_hook list \<Rightarrow> string list \<Rightarrow> bool \<Rightarrow>
     'z tui_state_scheme \<Rightarrow> (bool \<times> 'z tui_state_scheme) outcome" where
  "tui_do_command commands hooks argv abort s =
     (case find_command (argv ! 0) commands of
        Some cmd \<Rightarrow>
          bind_outcome (cmd_handler cmd argv (do_pre_commands hooks (cmd_name cmd) s))
            (\<lambda>(ok, s).
               bind_outcome
                 (if ok then Ok (True, s)
                  else
                    let (expected, s) = nfsim_log LOG_UI (argv ! 0 @ '': command failed'') s
                    in if \<not> expected \<and> abort then Barf (argv ! 0 @ '' failed'') else Ok (False, s))
                 (\<lambda>(ret, s).
                    bind_outcome (do_post_commands hooks (cmd_name cmd) s)
                      (\<lambda>(p, s). Ok (ret \<and> p, s))))
      | None \<Rightarrow>
          if abort then Barf (argv ! 0 @ '' not found'')
          else Ok (False, snd (nfsim_log LOG_UI (argv ! 0 @ '': command not found'') s)))"

section \<open>Built-in commands\<close>

definition tui_exit :: "string list \<Rightarrow> 'z tui_state_scheme \<Rightarrow> (bool \<times> 'z tui_state_scheme) outcome" where
  "tui_exit argv s = Ok (True, s\<lparr>stop := True\<rparr>)"

text \<open>\<open>show_nat\<close> is the decimal representation that \<^verbatim>\<open>%d\<close> prints.\<close>

fun show_nat :: "nat \<Rightarrow> string" where
  "show_nat n = (if n < 10 then [char_of (48 + n)] else show_nat (n div 10) @ [char_of (48 + n mod 10)])"

declare show_nat.simps [simp del]

definition show_int :: "int \<Rightarrow> string" where
  "show_int n = (if n < 0 then CHR ''-'' # show_nat (nat (- n)) else show_nat (nat n))"

definition tui_argtest :: "string list \<Rightarrow> 'z tui_state_scheme \<Rightarrow> (bool \<times> 'z tui_state_scheme) outcome" where
  "tui_argtest argv s =
     Ok (True,
         fold (\<lambda>(i, a) s. snd (nfsim_log LOG_ALWAYS (''argv['' @ show_nat i @ '']: '' @ CHR 0x22 # a @ [CHR 0x22]) s))
           (enumerate 0 argv) s)"

definition tui_help ::
    "'z tui_state_scheme command_entry list \<Rightarrow> string list \<Rightarrow> 'z tui_state_scheme \<Rightarrow> (bool \<times> 'z tui_state_scheme) outcome" where
  "tui_help commands argv s =
     (if length argv = 1 then
        Ok (True,
            fold (\<lambda>cmd s. if cmd_helpfn cmd \<noteq> None then snd (nfsim_log LOG_ALWAYS (CHR 0x09 # cmd_name cmd) s) else s)
              commands
              (snd (nfsim_log LOG_ALWAYS
                 (''Netfilter Simulator'' @ CHR 0x0A # ''help is available on the folowing commands:'') s)))
      else
        case find_command (argv ! 1) commands of
          None \<Rightarrow> Ok (False, snd (nfsim_log LOG_ALWAYS (''No such command '' @ CHR 0x27 # argv ! 1 @ [CHR 0x27]) s))
        | Some cmd \<Rightarrow>
            case cmd_helpfn cmd of
              None \<Rightarrow> Ok (False, snd (nfsim_log LOG_ALWAYS
                        (''No help for the '' @ CHR 0x27 # argv ! 1 @ CHR 0x27 # '' function'') s))
            | Some helpfn \<Rightarrow> Ok (True, helpfn (tl argv) s))"

section \<open>Escaping\<close>

definition hexbuf :: "char list" where
  "hexbuf = ''0123456789abcdef''"

definition escape_char :: "char \<Rightarrow> string" where
  "escape_char c =
     (let n = of_char c :: u8 in
      if c = CHR 0x0A then [CHR 0x5C, CHR ''n'']
      else if c = CHR 0x0D then [CHR 0x5C, CHR ''r'']
      else if c = CHR 0x00 then [CHR 0x5C, CHR ''0'']
      else if c = CHR 0x09 then [CHR 0x5C, CHR ''t'']
      else if c = CHR 0x5C then [CHR 0x5C, CHR 0x5C]
      else if n AND 0x80 \<noteq> 0 \<or> n AND 0xe0 = 0
      then [CHR 0x5C, CHR ''x'', hexbuf ! unat (drop_bit 4 n AND 0xf), hexbuf ! unat (n AND 0xf)]
      else [c])"

definition escape :: "string \<Rightarrow> string" where
  "escape src = concat (map escape_char src)"

section \<open>Splitting a line\<close>

text \<open>
  \<open>popen\<close> is the shell: what a command prints and whether it exits with status 0, \<open>None\<close> if it cannot be started.
  The buffer for the output starts with 1024 bytes and doubles whenever it is full.
\<close>

function read_output :: "string \<Rightarrow> nat \<Rightarrow> bool" where
  "read_output out k =
     (let len = 1024 * 2 ^ k :: int in
      if int (length out) < len then True
      else if len > 1024 * 1024 then False
      else read_output out (Suc k))"
  by pat_completeness auto
termination
proof (relation "measure (\<lambda>(out, k). 11 - k)")
  fix out :: string and k :: nat and len :: int
  assume "len = 1024 * 2 ^ k" "\<not> 1024 * 1024 < len"
  then have "(2 :: int) ^ k \<le> 2 ^ 10" by simp
  then have "k \<le> 10" by (rule power_le_imp_le_exp [rotated]) simp
  then show "((out, Suc k), (out, k)) \<in> measure (\<lambda>(out, k). 11 - k)" by simp
qed simp

declare read_output.simps [simp del]

text \<open>\<open>rest\<close> is the line behind the first backquote, \<open>after_backquote\<close> what follows the second one.\<close>

definition backquote :: "(string \<Rightarrow> (string \<times> bool) option) \<Rightarrow> string \<Rightarrow> string \<Rightarrow> string outcome" where
  "backquote popen extension_path rest =
     (let cmd = takeWhile (\<lambda>c. c \<noteq> CHR 0x60) rest;
          cmdstr = ''PATH='' @ extension_path @ ''; '' @ cmd
      in if length cmd = length rest then Barf ''no matching backquote found''
         else
           case popen cmdstr of
             None \<Rightarrow> Barf (''failed to popen '' @ cmdstr)
           | Some (out, ok) \<Rightarrow>
               if \<not> read_output out 0 then Barf (''command '' @ cmdstr @ '' output too long'')
               else if \<not> ok then Barf (''command '' @ cmdstr @ '' failed'')
               else Ok (escape out))"

definition after_backquote :: "string \<Rightarrow> string" where
  "after_backquote rest = drop (Suc (length (takeWhile (\<lambda>c. c \<noteq> CHR 0x60) rest))) rest"

definition append_string :: "string option \<Rightarrow> string \<Rightarrow> string option" where
  "append_string arg str = Some (case arg of None \<Rightarrow> str | Some a \<Rightarrow> a @ str)"

definition append_char :: "string option \<Rightarrow> char \<Rightarrow> string option" where
  "append_char arg c = append_string arg [c]"

text \<open>
  The loop of \<open>process_line\<close>: \<open>args\<close> are the finished arguments, \<open>arg\<close> is \<^verbatim>\<open>argv[argc]\<close>; \<open>None\<close> as a result is a comment.
  The array has \<^verbatim>\<open>TUI_MAX_ARGS + 1\<close> entries, and nothing checks the index: an access beyond them is the
  explicit failure \<open>Barf ''argv overflow''\<close>.
\<close>

function split_line ::
    "(string \<Rightarrow> string outcome) \<Rightarrow> string \<Rightarrow> string list \<Rightarrow> string option \<Rightarrow>
     (string list \<times> string option) option outcome" where
  "split_line bq [] args arg = Ok (Some (args, arg))"
| "split_line bq (c # line) args arg =
     (let overflow = length args > TUI_MAX_ARGS in
      if isspace c then
        if overflow then Barf ''argv overflow''
        else (case arg of Some a \<Rightarrow> split_line bq line (args @ [a]) None | None \<Rightarrow> split_line bq line args None)
      else if c = CHR 0x60 then
        (case bq line of
           Ok inside \<Rightarrow>
             if overflow then Barf ''argv overflow''
             else split_line bq (after_backquote line) args (append_string arg inside)
         | Barf m \<Rightarrow> Barf m)
      else if args = [] \<and> arg = None \<and> c = CHR ''#'' then Ok None
      else if overflow then Barf ''argv overflow''
      else split_line bq line args (append_char arg c))"
  by pat_completeness auto
termination
  by (relation "measure (\<lambda>(bq, line, args, arg). length line)") (auto simp: after_backquote_def)

definition process_line ::
    "(string \<Rightarrow> string outcome) \<Rightarrow> (string list \<Rightarrow> 'z tui_state_scheme \<Rightarrow> (bool \<times> 'z tui_state_scheme) outcome) \<Rightarrow>
     string \<Rightarrow> 'z tui_state_scheme \<Rightarrow> 'z tui_state_scheme outcome" where
  "process_line bq run line s =
     bind_outcome (split_line bq line [] None)
       (\<lambda>r. bind_outcome
          (case r of
             None \<Rightarrow> Ok s
           | Some (args, None) \<Rightarrow>
               if args = [] then Ok s
               else if length args > TUI_MAX_ARGS then Barf ''argv overflow''
               else bind_outcome (run args s) (\<lambda>(ret, s). Ok s)
           | Some (args, Some a) \<Rightarrow>
               if Suc (length args) > TUI_MAX_ARGS then Barf ''argv overflow''
               else bind_outcome (run (args @ [a]) s) (\<lambda>(ret, s). Ok s))
          (\<lambda>s. Ok (s\<lparr>tui_linenum := tui_linenum s + 1\<rparr>)))"

section \<open>Scripts\<close>

text \<open>
  \<open>grab_file\<close> reserves a byte behind the contents but does not set it: \<open>buf\<close> is the whole memory from the start of
  the file on, of which the first \<open>sz\<close> bytes are the file.
\<close>

function file_lines :: "string \<Rightarrow> nat \<Rightarrow> nat \<Rightarrow> string list" where
  "file_lines buf sz p =
     (if p < sz then
        let len = length (takeWhile (\<lambda>c. c \<noteq> CHR 0x0A \<and> c \<noteq> CHR 0x00) (drop p buf))
        in take len (drop p buf) # file_lines buf sz (p + len + 1)
      else [])"
  by pat_completeness auto
termination
  by (relation "measure (\<lambda>(buf, sz, p). sz - p)") auto

declare file_lines.simps [simp del]

fun process_lines :: "(string \<Rightarrow> 's \<Rightarrow> 's outcome) \<Rightarrow> string list \<Rightarrow> 's \<Rightarrow> 's outcome" where
  "process_lines f [] s = Ok s"
| "process_lines f (l # ls) s = bind_outcome (f l s) (process_lines f ls)"

definition run_whole_file :: "(string \<Rightarrow> 's \<Rightarrow> 's outcome) \<Rightarrow> string \<Rightarrow> nat \<Rightarrow> 's \<Rightarrow> 's outcome" where
  "run_whole_file f buf sz s = process_lines f (file_lines buf sz 0) s"

text \<open>
  The commands that \<open>tui_run\<close> registers, and the hook of core/expect.c. The help texts are generated when the program is
  built; \<open>table\<close> is the table of commands at the time \<^verbatim>\<open>help\<close> runs.
\<close>

definition tui_builtins ::
    "(string \<Rightarrow> string list \<Rightarrow> 'z tui_state_scheme \<Rightarrow> 'z tui_state_scheme) \<Rightarrow> 'z tui_state_scheme command_entry list \<Rightarrow>
     'z tui_state_scheme command_entry list \<Rightarrow> 'z tui_state_scheme command_entry list outcome" where
  "tui_builtins help_text table commands =
     bind_outcome (tui_register_command ''exit'' tui_exit (Some (help_text ''exit'')) commands)
       (\<lambda>cs. bind_outcome (tui_register_command ''quit'' tui_exit (Some (help_text ''exit'')) cs)
       (\<lambda>cs. bind_outcome (tui_register_command ''q'' tui_exit (Some (help_text ''exit'')) cs)
       (\<lambda>cs. bind_outcome (tui_register_command ''test'' tui_argtest None cs)
       (\<lambda>cs. tui_register_command ''help'' (tui_help table) (Some (help_text ''help'')) cs))))"

definition expect_hook :: "bool \<Rightarrow> 'z tui_state_scheme pre_post_hook" where
  "expect_hook abort = \<lparr>pre = Some expect_pre_command, post = Some (\<lambda>_. expect_post_command abort)\<rparr>"

section \<open>The verdict on a command\<close>

text \<open>A hook that, like the timers run after each command, logs lines and succeeds.\<close>

definition logging_hook :: "(u32 \<times> string) list \<Rightarrow> 'z tui_state_scheme pre_post_hook" where
  "logging_hook ls = \<lparr>pre = None, post = Some (\<lambda>_ s. Ok (True, log_lines ls s))\<rparr>"

lemma pre_logging: "do_pre_commands (map logging_hook others @ hs) n s = do_pre_commands hs n s"
  by (induction others) (auto simp: logging_hook_def)

lemma bind_outcome_Ok [simp]: "bind_outcome m Ok = m"
  by (cases m) auto

lemma post_logging:
  "do_post_commands (map logging_hook others @ hs) n s = do_post_commands hs n (log_lines (concat others) s)"
  by (induction others arbitrary: s) (simp_all add: logging_hook_def log_lines_append, simp add: log_lines_def)

lemma post_expect: "do_post_commands [expect_hook b] n s = expect_post_command b s"
  by (cases "expect_post_command b s") (auto simp: expect_hook_def)

definition failure_line :: "string \<Rightarrow> bool \<Rightarrow> (u32 \<times> string) list" where
  "failure_line n ok = (if ok then [] else [(LOG_UI, n @ '': command failed'')])"

definition expected_failure :: "string \<Rightarrow> string list \<Rightarrow> expect list \<Rightarrow> bool" where
  "expected_failure n ls es \<longleftrightarrow>
     (\<exists>e \<in> set es. command e = n \<and> (\<forall>l \<in> set ls. \<not> matches (pattern e) l) \<and> matches (pattern e) (n @ '': command failed''))"

lemma find_command_name: "find_command n cs = Some cmd \<Longrightarrow> cmd_name cmd = n"
  by (auto dest: cmds.lookup_key)

lemma do_command_found:
  assumes "find_command (argv ! 0) commands = Some cmd"
    and "cmd_handler cmd argv (expect_pre_command (argv ! 0) s) = Ok (ok, log_lines ls (expect_pre_command (argv ! 0) s))"
    and "\<forall>e \<in> set (expects s). command e = argv ! 0 \<longrightarrow> \<not> matched e"
  shows "tui_do_command commands (map logging_hook others @ [expect_hook b]) argv abort s =
    (if \<not> ok \<and> abort \<and> \<not> expected_failure (argv ! 0) (map snd ls) (expects s) then Barf (argv ! 0 @ '' failed'')
     else bind_outcome
       (expect_post_command b (log_lines (ls @ failure_line (argv ! 0) ok @ concat others) (expect_pre_command (argv ! 0) s)))
       (\<lambda>(p, t). Ok (ok \<and> p, t)))"
proof -
  let ?n = "argv ! 0" and ?hs = "map logging_hook others @ [expect_hook b]"
  let ?s0 = "expect_pre_command ?n s"
  let ?s1 = "log_lines ls ?s0"
  have n: "cmd_name cmd = ?n" using assms(1) by (rule find_command_name)
  have pre: "do_pre_commands ?hs ?n s = ?s0" by (simp add: pre_logging expect_hook_def)
  have st: "cmdstack ?s0 = ?n # cmdstack s" "expects ?s0 = expects s" by (simp_all add: expect_pre_command_def)
  have marks: "expects ?s1 = map (mark ?n (map snd ls)) (expects s)" "cmdstack ?s1 = ?n # cmdstack s"
    using log_lines_marks [OF st(1)] st(2) by auto
  have hits: "fst (nfsim_log LOG_UI (?n @ '': command failed'') ?s1) = expected_failure ?n (map snd ls) (expects s)"
    using assms(3) unfolding nfsim_log_result [OF marks(2)] marks(1) expected_failure_def
    by (auto simp: hit_def mark_def)
  have post: "do_post_commands ?hs ?n t = expect_post_command b (log_lines (concat others) t)" for t
    unfolding post_logging post_expect ..
  have lines: "log_lines (ls @ failure_line ?n ok @ concat others) ?s0 =
      log_lines (concat others) (if ok then ?s1 else snd (nfsim_log LOG_UI (?n @ '': command failed'') ?s1))"
    unfolding log_lines_append by (simp add: failure_line_def) (simp add: log_lines_def)
  have run: "tui_do_command commands ?hs argv abort s =
      bind_outcome
        (if ok then Ok (True, ?s1)
         else if \<not> fst (nfsim_log LOG_UI (?n @ '': command failed'') ?s1) \<and> abort then Barf (?n @ '' failed'')
         else Ok (False, snd (nfsim_log LOG_UI (?n @ '': command failed'') ?s1)))
        (\<lambda>(ret, t). bind_outcome (do_post_commands ?hs ?n t) (\<lambda>(p, t). Ok (ret \<and> p, t)))"
    unfolding tui_do_command_def assms(1) option.case n pre assms(2) bind_outcome.simps prod.case
    by (simp only: case_prod_beta Let_def)
  show ?thesis unfolding run hits post lines by (cases ok) simp_all
qed

text \<open>C22. A command succeeds exactly when its handler does and every expectation on the command holds for the lines logged by
  the handler, by the report of its failure and by the other hooks (an inverted expectation holds when no line
  matches); its expectations are consumed, all others and the stack of commands are as before. When the
  hook ends the script on a failed expectation it does so exactly for an expectation that does not hold. A
  failing handler ends the script only if asked to and no expectation was waiting for that failure.\<close>

theorem tui_do_command_verdict:
  fixes s :: "'z tui_state_scheme"
  assumes "find_command (argv ! 0) commands = Some cmd"
    and "cmd_handler cmd argv (expect_pre_command (argv ! 0) s) = Ok (ok, log_lines ls (expect_pre_command (argv ! 0) s))"
    and "\<forall>e \<in> set (expects s). command e = argv ! 0 \<longrightarrow> \<not> matched e"
  shows "let r = tui_do_command commands (map logging_hook others @ [expect_hook b]) argv abort s;
             lines = map snd (ls @ failure_line (argv ! 0) ok @ concat others);
             good = (\<forall>e \<in> set (expects s). command e = argv ! 0 \<longrightarrow> satisfied lines e)
         in if \<not> ok \<and> abort \<and> \<not> expected_failure (argv ! 0) (map snd ls) (expects s) then r = Barf (argv ! 0 @ '' failed'')
            else if b \<and> \<not> good
            then \<exists>e \<in> set (expects s). command e = argv ! 0 \<and> \<not> satisfied lines e \<and> r = Barf (verdict_line e)
            else \<exists>t. r = Ok (ok \<and> good, t) \<and> expects t = filter (\<lambda>e. command e \<noteq> argv ! 0) (expects s) \<and>
                     cmdstack t = cmdstack s"
proof -
  define lines where "lines = ls @ failure_line (argv ! 0) ok @ concat others"
  let ?s = "log_lines lines (expect_pre_command (argv ! 0) s)"
  have marks: "cmdstack ?s = argv ! 0 # cmdstack s" "expects ?s = map (mark (argv ! 0) (map snd lines)) (expects s)"
    using log_lines_marks [of "expect_pre_command (argv ! 0) s" "argv ! 0" "cmdstack s"] by (auto simp: expect_pre_command_def)
  note run = do_command_found [OF assms(1,2,3), of others b abort, folded lines_def]
  note post = expect_post_spec [OF marks assms(3)] and ab = expect_post_abort [OF marks assms(3)]
  show ?thesis
    unfolding Let_def run lines_def [symmetric]
    using post ab by (cases b) (auto simp: bind_outcome_Ok_iff split: if_splits)
qed

definition echo_entry :: "tui_state command_entry" where
  "echo_entry =
     \<lparr>cmd_name = ''echo'', cmd_handler = (\<lambda>argv s. Ok (True, log_lines [(LOG_ALWAYS, ''hello world'')] s)), cmd_helpfn = None\<rparr>"

definition echo_state :: tui_state where
  "echo_state =
     \<lparr>expects = [\<lparr>invert = False, matched = False, command = ''echo'', pattern = ''hello *''\<rparr>], cmdstack = [],
      typemask = - 1, logged = [], printk_buf = [], describe_packets = True, tui_linenum = 1, stop = False\<rparr>"

theorem tui_do_command_verdict_witness:
  "\<exists>t. tui_do_command [echo_entry] [expect_hook True] [''echo'', ''x''] True echo_state = Ok (True, t) \<and> expects t = []"
proof -
  have "loosely ''hello *'' (strip ''hello world'')"
    unfolding loose_match_loosely [symmetric] by code_simp
  then have "satisfied [''hello world''] (hd (expects echo_state))"
    by (simp add: satisfied_def echo_state_def)
  then show ?thesis
    using tui_do_command_verdict [of "[''echo'', ''x'']" "[echo_entry]" echo_entry echo_state True
        "[(LOG_ALWAYS, ''hello world'')]" "[]" True True]
    by (auto simp: echo_entry_def echo_state_def failure_line_def)
qed

section \<open>Lines and words\<close>

text \<open>Words without blanks, backquotes or a leading hash, separated by single blanks.\<close>

definition plain_word :: "string \<Rightarrow> bool" where
  "plain_word w \<longleftrightarrow> w \<noteq> [] \<and> hd w \<noteq> CHR ''#'' \<and> (\<forall>c \<in> set w. \<not> isspace c \<and> c \<noteq> CHR 0x60)"

lemma split_word:
  assumes "\<forall>c \<in> set w. \<not> isspace c \<and> c \<noteq> CHR 0x60" "args \<noteq> [] \<or> arg \<noteq> None \<or> (w \<noteq> [] \<and> hd w \<noteq> CHR ''#'')"
    "length args \<le> TUI_MAX_ARGS" "w \<noteq> []"
  shows "split_line bq (w @ rest) args arg = split_line bq rest args (append_string arg w)"
  using assms
proof (induction w arbitrary: arg)
  case (Cons c w)
  have step: "split_line bq ((c # w) @ rest) args arg = split_line bq (w @ rest) args (append_char arg c)"
    using Cons(2,3,4) by auto
  show ?case
  proof (cases "w = []")
    case True
    then show ?thesis using step by (simp add: append_char_def)
  next
    case False
    then show ?thesis
      using step Cons(1) [of "append_char arg c"] Cons(2,4)
      by (simp add: append_char_def append_string_def split: option.splits)
  qed
qed simp

lemma isspace_blank [simp]: "isspace CHR '' ''"
  by (simp add: isspace_def)

lemma split_words_then:
  assumes "\<forall>w \<in> set us. plain_word w" "us \<noteq> []" "length args + length us \<le> Suc TUI_MAX_ARGS"
  shows "split_line bq (join_words us @ CHR '' '' # rest) args None = split_line bq rest (args @ us) None"
  using assms
proof (induction us arbitrary: args rule: join_words.induct)
  case (2 w)
  then have "split_line bq (w @ CHR '' '' # rest) args None = split_line bq (CHR '' '' # rest) args (Some w)"
    using split_word [of w args None bq "CHR '' '' # rest"] by (auto simp: plain_word_def append_string_def)
  then show ?case using 2 by (simp add: Let_def)
next
  case (3 w v r)
  have "split_line bq (w @ CHR '' '' # join_words (v # r) @ CHR '' '' # rest) args None =
        split_line bq (CHR '' '' # join_words (v # r) @ CHR '' '' # rest) args (Some w)"
    using split_word [of w args None bq] 3(2,4) by (auto simp: plain_word_def append_string_def)
  also have "\<dots> = split_line bq (join_words (v # r) @ CHR '' '' # rest) (args @ [w]) None"
    using 3(4) by (simp add: Let_def)
  also have "\<dots> = split_line bq rest ((args @ [w]) @ v # r) None"
    using 3 by (intro 3(1)) auto
  finally show ?case by simp
qed simp

lemma join_words_append: "us \<noteq> [] \<Longrightarrow> vs \<noteq> [] \<Longrightarrow> join_words (us @ vs) = join_words us @ CHR '' '' # join_words vs"
  by (induction us rule: join_words.induct) (auto simp: neq_Nil_conv)

lemma split_words:
  assumes "\<forall>w \<in> set vs. plain_word w" "vs \<noteq> []" "length vs \<le> Suc TUI_MAX_ARGS"
  shows "split_line bq (join_words vs) [] None = Ok (Some (butlast vs, Some (last vs)))"
proof -
  define us w where "us = butlast vs" and "w = last vs"
  have vs: "vs = us @ [w]" using assms(2) by (simp add: us_def w_def)
  have w: "split_line bq w us None = Ok (Some (us, Some w))"
    using split_word [of w us None bq "[]"] assms(1,3) by (auto simp: plain_word_def append_string_def vs)
  have "split_line bq (join_words vs) [] None = split_line bq w us None"
    using split_words_then [of us "[]" bq w] join_words_append [of us "[w]"] assms
    by (cases "us = []") (simp_all add: vs)
  then show ?thesis using w by (simp add: us_def w_def)
qed

lemma split_overflow:
  assumes "plain_word w" "length args > TUI_MAX_ARGS" "args \<noteq> []"
  shows "split_line bq (w @ rest) args None = Barf ''argv overflow''"
  using assms by (cases w) (auto simp: plain_word_def)

lemma join_words_hd: "vs \<noteq> [] \<Longrightarrow> \<exists>rest. join_words vs = hd vs @ rest"
  by (cases vs rule: join_words.cases) auto

text \<open>C37. A line of plain words separated by blanks runs the command with exactly these words as arguments, and counts the
  line, if there are at most \<^verbatim>\<open>TUI_MAX_ARGS\<close> words; with more words the argument array is overrun.\<close>

theorem process_line_words:
  assumes "vs \<noteq> []" "\<forall>w \<in> set vs. plain_word w"
  shows "process_line bq run (join_words vs) s =
    (if length vs \<le> TUI_MAX_ARGS
     then bind_outcome (run vs s) (\<lambda>(ret, s). Ok (s\<lparr>tui_linenum := tui_linenum s + 1\<rparr>))
     else Barf ''argv overflow'')"
proof (cases "length vs \<le> Suc TUI_MAX_ARGS")
  case True
  have "split_line bq (join_words vs) [] None = Ok (Some (butlast vs, Some (last vs)))"
    using split_words [OF assms(2,1)] True by simp
  moreover have "Suc (length (butlast vs)) = length vs" "butlast vs @ [last vs] = vs"
    using assms(1) by auto
  ultimately show ?thesis
    by (cases "run vs s") (auto simp: process_line_def)
next
  case False
  define us ts where "us = take (Suc TUI_MAX_ARGS) vs" and "ts = drop (Suc TUI_MAX_ARGS) vs"
  have uv: "vs = us @ ts" "length us = Suc TUI_MAX_ARGS" "ts \<noteq> []" "us \<noteq> []"
    using False by (auto simp: us_def ts_def)
  obtain rest where rest: "join_words ts = hd ts @ rest" using join_words_hd [OF uv(3)] by blast
  have "split_line bq (join_words vs) [] None = split_line bq (hd ts @ rest) us None"
    using split_words_then [of us "[]" bq "join_words ts"] uv assms(2) rest by (simp add: join_words_append)
  also have "\<dots> = Barf ''argv overflow''"
    using uv assms(2) by (intro split_overflow) auto
  finally show ?thesis using False by (simp add: process_line_def)
qed

theorem process_line_words_witness:
  "process_line (\<lambda>_. Barf ''no shell'') (\<lambda>argv s. Ok (True, s\<lparr>logged := argv\<rparr>)) (join_words [''log'', ''types'']) echo_state =
   Ok (echo_state\<lparr>logged := [''log'', ''types''], tui_linenum := 2\<rparr>)"
  using process_line_words [of "[''log'', ''types'']" "\<lambda>_. Barf ''no shell''" "\<lambda>argv s. Ok (True, s\<lparr>logged := argv\<rparr>)" echo_state]
  by (simp add: plain_word_def isspace_def TUI_MAX_ARGS_def echo_state_def)

section \<open>Scripts\<close>

text \<open>A script whose every line ends in a newline.\<close>

lemma file_lines_spec:
  assumes "\<forall>l \<in> set ls. CHR 0x0A \<notin> set l \<and> CHR 0x00 \<notin> set l"
  shows "file_lines (done_part @ concat (map (\<lambda>l. l @ [CHR 0x0A]) ls) @ junk) (length (done_part @ concat (map (\<lambda>l. l @ [CHR 0x0A]) ls))) (length done_part) = ls"
  using assms
proof (induction ls arbitrary: done_part)
  case Nil
  then show ?case by (simp add: file_lines.simps)
next
  case (Cons l ls)
  let ?t = "concat (map (\<lambda>l. l @ [CHR 0x0A]) ls)"
  have tw: "takeWhile (\<lambda>c. c \<noteq> CHR 0x0A \<and> c \<noteq> CHR 0x00) (l @ CHR 0x0A # r) = l" for r
    using Cons(2) by (induction l) auto
  have "file_lines ((done_part @ l @ [CHR 0x0A]) @ ?t @ junk) (length ((done_part @ l @ [CHR 0x0A]) @ ?t)) (length (done_part @ l @ [CHR 0x0A])) = ls"
    using Cons(2) by (intro Cons(1)) simp
  then show ?case by (subst file_lines.simps) (simp add: tw Let_def)
qed

lemma process_lines_append:
  "process_lines f (xs @ ys) s = bind_outcome (process_lines f xs s) (process_lines f ys)"
proof (induction xs arbitrary: s)
  case (Cons x xs)
  then show ?case by (cases "f x s") simp_all
qed simp

text \<open>A script whose lines all end in a newline is processed line by line, in order, up to a failure that ends the
  process; an \<^verbatim>\<open>exit\<close> command among them stops nothing: the lines behind it are run as well.\<close>

theorem run_whole_file_lines:
  assumes "\<forall>l \<in> set (before @ exit_line # after). CHR 0x0A \<notin> set l \<and> CHR 0x00 \<notin> set l"
    and "process_lines f before s = Ok s1" "f exit_line s1 = Ok (s2\<lparr>stop := True\<rparr>)"
  shows "let text = concat (map (\<lambda>l. l @ [CHR 0x0A]) (before @ exit_line # after))
         in run_whole_file f (text @ junk) (length text) s = process_lines f after (s2\<lparr>stop := True\<rparr>)"
proof -
  have "file_lines (concat (map (\<lambda>l. l @ [CHR 0x0A]) (before @ exit_line # after)) @ junk)
      (length (concat (map (\<lambda>l. l @ [CHR 0x0A]) (before @ exit_line # after)))) 0 = before @ exit_line # after"
    using file_lines_spec [OF assms(1), of "[]" junk] by simp
  then show ?thesis
    using assms(2,3) unfolding Let_def run_whole_file_def by (simp add: process_lines_append)
qed

theorem run_whole_file_lines_witness:
  "run_whole_file (\<lambda>l s. if l = ''exit'' then Ok (s\<lparr>stop := True\<rparr>) else Ok (s\<lparr>logged := l # logged s\<rparr>))
     (''a'' @ CHR 0x0A # ''exit'' @ CHR 0x0A # ''b'' @ CHR 0x0A # ''junk'') 9 echo_state =
   Ok (echo_state\<lparr>stop := True, logged := [''b'', ''a'']\<rparr>)"
  using run_whole_file_lines [of "[''a'']" "''exit''" "[''b'']"
      "\<lambda>l s. if l = ''exit'' then Ok (s\<lparr>stop := True\<rparr>) else Ok (s\<lparr>logged := l # logged s\<rparr>)"
      echo_state "echo_state\<lparr>logged := [''a'']\<rparr>" "echo_state\<lparr>logged := [''a'']\<rparr>" "''junk''"]
  by (simp add: echo_state_def numeral_eq_Suc)

end
