(* ===== verification/Failtest.thy ===== *)
theory Failtest
  imports Tui
begin

text \<open>
  Testing of failure paths, core/failtest.c: at every point where something could fail the program forks, and the child
  fails while the parent goes on when the child is done; the decisions form a path that is printed when a child
  misbehaves and that can be replayed. The answer of a decision point is a value: a plain answer, or a fork with the
  state of the child and what the parent does once it knows how the child ended. Replaying a printed path is shown
  to take the same decisions again.
\<close>

section \<open>State\<close>

record fail_decision =
  location :: string
  tui_line :: u32
  dec_failed :: bool

record fail_state =
  failtest :: bool
  suppress_failtest :: nat
  fails :: nat
  excessive_fails :: nat
  failpoints :: nat
  failtest_no_report :: "string option"
  decisions :: "fail_decision list"
  failpath :: "string option"
  orig_failpath :: "string option"
  warned :: bool
  fail_log :: "string list"

definition fail_init :: fail_state where
  "fail_init =
     \<lparr>failtest = False, suppress_failtest = 0, fails = 0, excessive_fails = 2, failpoints = 0, failtest_no_report = None,
      decisions = [], failpath = None, orig_failpath = None, warned = False, fail_log = []\<rparr>"

definition cmdline_failtest :: "fail_state \<Rightarrow> fail_state" where
  "cmdline_failtest s = s\<lparr>failtest := True\<rparr>"

definition cmdline_failpath :: "string option \<Rightarrow> fail_state \<Rightarrow> fail_state outcome" where
  "cmdline_failpath optarg s =
     (case optarg of
        None \<Rightarrow> Barf ''failtest option requires an argument''
      | Some p \<Rightarrow> Ok (s\<lparr>failpath := Some p, orig_failpath := Some p\<rparr>))"

definition cmdline_failtest_no_report :: "string option \<Rightarrow> fail_state \<Rightarrow> fail_state outcome" where
  "cmdline_failtest_no_report optarg s =
     (case optarg of
        None \<Rightarrow> Barf ''failtest-no-report option requires an argument''
      | Some f \<Rightarrow> Ok (s\<lparr>failtest_no_report := Some f\<rparr>))"

definition get_failtest :: "fail_state \<Rightarrow> bool" where
  "get_failtest s = failtest s"

section \<open>Replaying a path\<close>

text \<open>\<^verbatim>\<open>strtoul\<close> with base 10; the value is reduced to an \<^verbatim>\<open>unsigned long\<close>.\<close>

definition strtoul10 :: "string \<Rightarrow> int \<times> string" where
  "strtoul10 s =
     (let (neg, t) = split_sign (dropWhile isspace s);
          ds = takeWhile isdigit t;
          n = digits_value ds
      in if ds = [] then (0, s)
         else (if n > 18446744073709551615 then 18446744073709551615
               else if neg then (- n) mod 18446744073709551616 else n,
               dropWhile isdigit t))"

definition path_location :: "string \<Rightarrow> string \<Rightarrow> string outcome" where
  "path_location func path =
     (if path \<noteq> [] \<and> hd path = CHR ''['' then
        let path = tl path in
        if \<not> strstarts path func \<or> drop (length func) path = [] \<or> path ! length func \<noteq> CHR '']''
        then Barf (''Failpath expected '' @ takeWhile (\<lambda>c. c \<noteq> CHR '']'') path @ '' not '' @ func)
        else Ok (drop (length func + 1) path)
      else Ok path)"

definition path_line :: "u32 \<Rightarrow> string \<Rightarrow> string outcome" where
  "path_line linenum path =
     (if path \<noteq> [] \<and> hd path = CHR '':'' then
        let (line, after) = strtoul10 (tl path) in
        if after = [] \<or> hd after \<noteq> CHR '':'' then Barf (''Bad failure path line number '' @ tl path)
        else if line \<noteq> uint linenum then Barf ''Unexpected line number''
        else Ok (tl after)
      else Ok path)"

text \<open>The answer and the rest of the path, \<open>None\<close> when it has ended.\<close>

definition do_failpath :: "u32 \<Rightarrow> string \<Rightarrow> string \<Rightarrow> (bool \<times> string option) outcome" where
  "do_failpath linenum func path =
     bind_outcome (path_location func path) (\<lambda>path.
     bind_outcome (path_line linenum path) (\<lambda>path.
       case path of
         [] \<Rightarrow> Ok (False, None)
       | c # rest \<Rightarrow>
           if c = CHR ''F'' \<or> c = CHR ''f'' then Ok (True, Some rest)
           else if c = CHR ''S'' \<or> c = CHR ''s'' then Ok (False, Some rest)
           else Barf (''Failpath '' @ [CHR 0x27, c, CHR 0x27] @ '' failed to path'')))"

section \<open>Printing a path\<close>

text \<open>\<^verbatim>\<open>%i\<close> of an \<^verbatim>\<open>unsigned int\<close>: from 2147483648 on it is printed as a negative number.\<close>

definition show_i :: "u32 \<Rightarrow> string" where
  "show_i n = show_int (sint n)"

definition show_decision :: "fail_decision \<Rightarrow> string" where
  "show_decision d =
     CHR ''['' # location d @ '']:'' @ show_i (tui_line d) @ CHR '':'' # [if dec_failed d then CHR ''F'' else CHR ''S'']"

text \<open>\<^verbatim>\<open>NULL\<close> if there is no decision.\<close>

definition failpath_string :: "fail_decision list \<Rightarrow> string option" where
  "failpath_string ds = (if ds = [] then None else Some (concat (map show_decision ds)))"

text \<open>
  The decisions of the line of the \<open>k\<close>-th one: backwards to the first of the line, then forwards to the next line. The
  loop forwards runs around the list until it is back at its start, so behind the last decision it takes the
  list head for one (\<open>None\<close>), unless that is where it started.
\<close>

definition line_start :: "fail_decision list \<Rightarrow> nat \<Rightarrow> nat" where
  "line_start ds k = k - length (takeWhile (\<lambda>d. tui_line d = tui_line (ds ! k)) (rev (take k ds)))"

definition failpath_string_for_line :: "fail_decision list \<Rightarrow> nat \<Rightarrow> string option" where
  "failpath_string_for_line ds k =
     (let i = line_start ds k;
          group = takeWhile (\<lambda>d. tui_line d = tui_line (ds ! k)) (drop i ds)
      in if 0 < i \<and> i + length group = length ds then None
         else Some (concat (map (\<lambda>d. CHR ''['' # location d @ CHR '']'' # [if dec_failed d then CHR ''F'' else CHR ''S'']) group)))"

section \<open>Deciding\<close>

datatype exit_status = Exited int | Signalled int

definition EXIT_SUCCESS :: int where "EXIT_SUCCESS = 0"
definition EXIT_SCRIPTFAIL :: int where "EXIT_SCRIPTFAIL = 2"
definition EXIT_SILENT :: int where "EXIT_SILENT = 3"

text \<open>The parent goes on with the answer \<^verbatim>\<open>false\<close>, or exits with \<open>EXIT_SILENT\<close>.\<close>

datatype 's after_child = Resume 's | Exit_silent 's

datatype 's answer = Answer bool 's | Fork 's "exit_status \<Rightarrow> 's after_child"

definition strstr :: "string \<Rightarrow> string \<Rightarrow> nat option" where
  "strstr s t = find (\<lambda>i. strstarts (drop i s) t) [0..<Suc (length s)]"

definition show_option :: "string option \<Rightarrow> string" where
  "show_option p = (case p of None \<Rightarrow> ''(null)'' | Some p \<Rightarrow> p)"

text \<open>One line for every line of the script with a failed decision; \<open>ds\<close> are all decisions, \<open>k\<close> is the position reached.\<close>

fun warn_lines :: "fail_decision list \<Rightarrow> nat \<Rightarrow> fail_decision list \<Rightarrow> u32 \<Rightarrow> string list outcome" where
  "warn_lines ds k [] last_warning = Ok []"
| "warn_lines ds k (d # rest) last_warning =
     (if dec_failed d \<and> tui_line d > last_warning then
        (case failpath_string_for_line ds k of
           None \<Rightarrow> Barf ''list head taken for a decision''
         | Some w \<Rightarrow>
             bind_outcome (warn_lines ds (Suc k) rest (tui_line d)) (\<lambda>ls.
               Ok (('' Line '' @ show_i (tui_line d) @ '': '' @ w) # ls)))
      else warn_lines ds (Suc k) rest last_warning)"

definition warn_failure :: "string \<Rightarrow> fail_state \<Rightarrow> fail_state outcome" where
  "warn_failure testname s =
     bind_outcome (warn_lines (decisions s) 0 (decisions s) 0) (\<lambda>ls.
       Ok (s\<lparr>fail_log := rev ls @ (''WARNING: test '' @ testname @ '' ignores failures at '' @
                show_option (failpath_string (decisions s))) # fail_log s, warned := True\<rparr>))"

definition parent_after :: "fail_decision \<Rightarrow> fail_state \<Rightarrow> exit_status \<Rightarrow> fail_state after_child" where
  "parent_after dec s status =
     (let s = s\<lparr>decisions := decisions s @ [dec\<lparr>dec_failed := False\<rparr>]\<rparr> in
      case status of
        Exited e \<Rightarrow>
          if e = EXIT_SUCCESS \<or> e = EXIT_SCRIPTFAIL then Resume s
          else if e = EXIT_SILENT then Exit_silent s
          else Exit_silent (s\<lparr>fail_log := (''Child exited '' @ show_nat (nat e) @ '' on failure path: '' @
                 show_option (failpath_string (butlast (decisions s) @ [dec\<lparr>dec_failed := True\<rparr>]))) # fail_log s\<rparr>)
      | Signalled e \<Rightarrow>
          Exit_silent (s\<lparr>fail_log := (''Child signalled '' @ show_nat (nat e) @ '' on failure path: '' @
            show_option (failpath_string (butlast (decisions s) @ [dec\<lparr>dec_failed := True\<rparr>]))) # fail_log s\<rparr>))"

definition should_i_fail :: "string \<Rightarrow> u32 \<Rightarrow> string \<Rightarrow> fail_state \<Rightarrow> fail_state answer outcome" where
  "should_i_fail testname linenum func s =
     (if suppress_failtest s \<noteq> 0 then Ok (Answer False s)
      else
        case failpath s of
          Some path \<Rightarrow> bind_outcome (do_failpath linenum func path) (\<lambda>(r, p). Ok (Answer r (s\<lparr>failpath := p\<rparr>)))
        | None \<Rightarrow>
            let s = s\<lparr>failpoints := failpoints s + 1\<rparr> in
            if \<not> failtest s then Ok (Answer False s)
            else
              bind_outcome (if fails s > excessive_fails s \<and> \<not> warned s then warn_failure testname s else Ok s) (\<lambda>s.
              let dec = \<lparr>location = func, tui_line = linenum, dec_failed = False\<rparr>;
                  child = s\<lparr>decisions := decisions s @ [dec\<lparr>dec_failed := True\<rparr>],
                            fails := (case failtest_no_report s of
                                        Some f \<Rightarrow> if strstr func f = None then fails s + 1 else fails s
                                      | None \<Rightarrow> fails s + 1)\<rparr>
              in Ok (Fork child (parent_after dec s))))"

text \<open>\<open>p\<close> is the first place of the location in the whole path, compared with the place reached in it.\<close>

definition asked_before :: "string \<Rightarrow> string \<Rightarrow> string \<Rightarrow> bool" where
  "asked_before orig path loc =
     (case strstr orig loc of
        None \<Rightarrow> False
      | Some p \<Rightarrow>
          p \<le> length orig - length path \<and> p \<noteq> 0 \<and> orig ! (p - 1) = CHR ''['' \<and>
          drop (p + length loc) orig \<noteq> [] \<and> orig ! (p + length loc) = CHR '']'')"

definition should_i_fail_once :: "string \<Rightarrow> u32 \<Rightarrow> string \<Rightarrow> fail_state \<Rightarrow> fail_state answer outcome" where
  "should_i_fail_once testname linenum loc s =
     (if suppress_failtest s \<noteq> 0 then Ok (Answer False s)
      else
        case failpath s of
          Some path \<Rightarrow>
            if asked_before (case orig_failpath s of None \<Rightarrow> [] | Some p \<Rightarrow> p) path loc then Ok (Answer False s)
            else bind_outcome (do_failpath linenum loc path) (\<lambda>(r, p). Ok (Answer r (s\<lparr>failpath := p\<rparr>)))
        | None \<Rightarrow>
            if \<exists>d \<in> set (decisions s). location d = loc then Ok (Answer False s)
            else
              bind_outcome (should_i_fail testname linenum loc s) (\<lambda>a. Ok
                (case a of
                   Answer True s \<Rightarrow> Answer True (s\<lparr>excessive_fails := excessive_fails s + 1\<rparr>)
                 | Answer False s \<Rightarrow> Answer False s
                 | Fork child parent \<Rightarrow> Fork (child\<lparr>excessive_fails := excessive_fails child + 1\<rparr>) parent)))"

section \<open>A printed path can be replayed\<close>

lemma digit_chars:
  "char_of (48 :: nat) = CHR ''0''" "char_of (49 :: nat) = CHR ''1''" "char_of (50 :: nat) = CHR ''2''" "char_of (51 :: nat) = CHR ''3''" "char_of (52 :: nat) = CHR ''4''" "char_of (53 :: nat) = CHR ''5''" "char_of (54 :: nat) = CHR ''6''" "char_of (55 :: nat) = CHR ''7''" "char_of (56 :: nat) = CHR ''8''" "char_of (57 :: nat) = CHR ''9''"
  by code_simp+

lemma digit_char:
  assumes "d < 10"
  shows "isdigit (char_of (48 + d))" "digit_value (char_of (48 + d)) = int d"
proof -
  have d: "d \<in> {0, 1, 2, 3, 4, 5, 6, 7, 8, 9}" using assms by auto
  then show "isdigit (char_of (48 + d))" by (elim insertE) (simp_all add: isdigit_def digit_chars)
  show "digit_value (char_of (48 + d)) = int d"
    using d by (elim insertE) (simp_all add: digit_value_def digit_chars)
qed

lemma isdigit_not: "isdigit c \<Longrightarrow> \<not> isspace c \<and> c \<noteq> CHR ''-'' \<and> c \<noteq> CHR ''+''"
  by (auto simp: isdigit_def isspace_def)

lemma show_nat_digits: "list_all isdigit (show_nat n) \<and> show_nat n \<noteq> [] \<and> digits_value (show_nat n) = int n"
proof (induction n rule: show_nat.induct)
  case (1 n)
  show ?case
  proof (cases "n < 10")
    case True
    then show ?thesis using digit_char [of n] by (simp add: show_nat.simps [of n] digits_value_def)
  next
    case False
    then have "show_nat n = show_nat (n div 10) @ [char_of (48 + n mod 10)]" by (simp add: show_nat.simps [of n])
    moreover have "10 * int (n div 10) + int (n mod 10) = int n" by (simp add: zdiv_int zmod_int)
    ultimately show ?thesis using 1 False digit_char [of "n mod 10"] by (simp add: digits_value_def)
  qed
qed

lemma show_nat_length: "n < 10 ^ k \<Longrightarrow> 0 < k \<Longrightarrow> length (show_nat n) \<le> k"
proof (induction n arbitrary: k rule: show_nat.induct)
  case (1 n)
  show ?case
  proof (cases "n < 10")
    case True
    then show ?thesis using 1(3) by (simp add: show_nat.simps [of n])
  next
    case False
    then obtain j where j: "k = Suc j" "0 < j" using 1(2,3) by (cases k) (auto simp: not_less, metis gr0I power_0 nat_mult_1_right not_le)
    have "length (show_nat (n div 10)) \<le> j" using 1(1) [OF False _ j(2)] 1(2) j(1) by (simp add: less_mult_imp_div_less)
    then show ?thesis using False j(1) by (simp add: show_nat.simps [of n])
  qed
qed

lemma takeWhile_digits: "list_all isdigit ds \<Longrightarrow> takeWhile isdigit (ds @ CHR '':'' # r) = ds \<and> dropWhile isdigit (ds @ CHR '':'' # r) = CHR '':'' # r"
  by (induction ds) (auto simp: isdigit_def)

lemma strtoul10_show:
  assumes "n < 18446744073709551616"
  shows "strtoul10 (show_nat n @ CHR '':'' # r) = (int n, CHR '':'' # r)"
proof -
  note sn = show_nat_digits [of n]
  then obtain c ds where c: "show_nat n = c # ds" "isdigit c" by (cases "show_nat n") auto
  have "split_sign (dropWhile isspace (show_nat n @ CHR '':'' # r)) = (False, show_nat n @ CHR '':'' # r)"
    using c isdigit_not [of c] by simp
  then show ?thesis
    using sn takeWhile_digits [of "show_nat n" r] assms by (simp add: strtoul10_def)
qed

lemma show_i_positive: "0 \<le> sint n \<Longrightarrow> show_i n = show_nat (unat n)"
  by (simp add: show_i_def show_int_def sint_nonneg)

lemma do_failpath_shown:
  assumes "0 \<le> sint (tui_line d)"
  shows "do_failpath (tui_line d) (location d) (show_decision d @ r) = Ok (dec_failed d, Some r)"
proof -
  have "unat (tui_line d) < 18446744073709551616" using unat_u32_less [of "tui_line d"] by linarith
  from strtoul10_show [OF this] assms show ?thesis
    by (simp add: do_failpath_def path_location_def path_line_def show_decision_def strstarts_def show_i_positive nth_append)
qed

text \<open>
  One process of a run that reaches the decision points \<open>pts\<close> (place and line of the script) in order and is answered \<open>rs\<close>: where \<open>should_i_fail\<close>
  forks, it is the child, which fails, or the parent, which goes on when the child has ended well.
\<close>

inductive decides :: "string \<Rightarrow> (string \<times> u32) list \<Rightarrow> fail_state \<Rightarrow> bool list \<Rightarrow> fail_state \<Rightarrow> bool" for testname where
  decides_end: "decides testname [] s [] s"
| decides_answer: "should_i_fail testname l f s = Ok (Answer r s1) \<Longrightarrow> decides testname pts s1 rs s2 \<Longrightarrow>
    decides testname ((f, l) # pts) s (r # rs) s2"
| decides_child: "should_i_fail testname l f s = Ok (Fork child parent) \<Longrightarrow> decides testname pts child rs s2 \<Longrightarrow>
    decides testname ((f, l) # pts) s (True # rs) s2"
| decides_parent: "should_i_fail testname l f s = Ok (Fork child parent) \<Longrightarrow> parent status = Resume s1 \<Longrightarrow>
    decides testname pts s1 rs s2 \<Longrightarrow> decides testname ((f, l) # pts) s (False # rs) s2"

inductive_cases decides_NilE: "decides testname [] s rs s2"
inductive_cases decides_ConsE: "decides testname ((f, l) # pts) s rs s2"

definition testing :: "fail_state \<Rightarrow> bool" where
  "testing s \<longleftrightarrow> failtest s \<and> suppress_failtest s = 0 \<and> failpath s = None"

definition recorded :: "(string \<times> u32) list \<Rightarrow> bool list \<Rightarrow> fail_decision list" where
  "recorded pts rs = map (\<lambda>((f, l), r). \<lparr>location = f, tui_line = l, dec_failed = r\<rparr>) (zip pts rs)"

lemma warn_failure_keeps:
  "warn_failure testname s = Ok s' \<Longrightarrow> failtest s' = failtest s \<and> suppress_failtest s' = suppress_failtest s \<and>
     failpath s' = failpath s \<and> decisions s' = decisions s"
  by (auto simp: warn_failure_def bind_outcome_Ok_iff)

lemma should_i_fail_forks:
  assumes "testing s" "should_i_fail testname l f s = Ok a"
  obtains s1 n where "testing s1" "decisions s1 = decisions s"
    "a = Fork (s1\<lparr>decisions := decisions s @ [\<lparr>location = f, tui_line = l, dec_failed = True\<rparr>], fails := n\<rparr>)
           (parent_after \<lparr>location = f, tui_line = l, dec_failed = False\<rparr> s1)"
proof -
  let ?s = "s\<lparr>failpoints := failpoints s + 1\<rparr>"
  let ?w = "if fails ?s > excessive_fails ?s \<and> \<not> warned ?s then warn_failure testname ?s else Ok ?s"
  obtain s1 where s1: "?w = Ok s1"
    and a: "a = (let dec = \<lparr>location = f, tui_line = l, dec_failed = False\<rparr>;
         child = s1\<lparr>decisions := decisions s1 @ [dec\<lparr>dec_failed := True\<rparr>],
                     fails := (case failtest_no_report s1 of Some g \<Rightarrow> if strstr f g = None then fails s1 + 1 else fails s1 | None \<Rightarrow> fails s1 + 1)\<rparr>
       in Fork child (parent_after dec s1))"
    using assms by (auto simp: should_i_fail_def testing_def Let_def bind_outcome_Ok_iff simp del: One_nat_def)
  have "testing s1 \<and> decisions s1 = decisions s"
    using s1 assms(1) warn_failure_keeps [of testname ?s s1] by (auto simp: testing_def split: if_splits)
  then show thesis using that [of s1] a by (simp add: Let_def)
qed

lemma parent_after_resume:
  "parent_after d s status = Resume s1 \<Longrightarrow> s1 = s\<lparr>decisions := decisions s @ [d\<lparr>dec_failed := False\<rparr>]\<rparr>"
  by (simp add: parent_after_def Let_def split: exit_status.splits if_splits)

text \<open>While testing, every decision is recorded.\<close>

lemma decides_recorded:
  "decides testname pts s rs s' \<Longrightarrow> testing s \<Longrightarrow> length rs = length pts \<and> decisions s' = decisions s @ recorded pts rs"
proof (induction pts s rs s' rule: decides.induct)
  case (decides_end s)
  show ?case by (simp add: recorded_def)
next
  case (decides_answer l f s r s1 pts rs s2)
  then show ?case by (auto elim: should_i_fail_forks)
next
  case (decides_child l f s child parent pts rs s2)
  obtain s1 n where s1: "testing s1" "child = s1\<lparr>decisions := decisions s @ [\<lparr>location = f, tui_line = l, dec_failed = True\<rparr>], fails := n\<rparr>"
    by (rule should_i_fail_forks [OF decides_child.prems decides_child.hyps(1)]) auto
  then have "testing child" by (simp add: testing_def)
  then show ?case using decides_child.IH s1(2) by (simp add: recorded_def)
next
  case (decides_parent l f s child parent status s1 pts rs s2)
  obtain s0 where s0: "testing s0" "decisions s0 = decisions s" "parent = parent_after \<lparr>location = f, tui_line = l, dec_failed = False\<rparr> s0"
    by (rule should_i_fail_forks [OF decides_parent.prems decides_parent.hyps(1)]) auto
  then have s1: "s1 = s0\<lparr>decisions := decisions s0 @ [\<lparr>location = f, tui_line = l, dec_failed = False\<rparr>]\<rparr>"
    using parent_after_resume decides_parent.hyps(2) by fastforce
  then have "testing s1" using s0(1) by (simp add: testing_def)
  then show ?case using decides_parent.IH s0(2) s1 by (simp add: recorded_def)
qed

text \<open>The run at these points is possible, and gives these answers only.\<close>

definition answered :: "string \<Rightarrow> (string \<times> u32) list \<Rightarrow> fail_state \<Rightarrow> bool list \<Rightarrow> bool" where
  "answered testname pts t rs \<longleftrightarrow> (\<exists>t'. decides testname pts t rs t') \<and> (\<forall>rs' t'. decides testname pts t rs' t' \<longrightarrow> rs' = rs)"

lemma answered_Nil: "answered testname [] t []"
  by (auto simp: answered_def elim: decides_NilE intro: decides_end)

lemma answered_Cons:
  assumes "should_i_fail testname l f t = Ok (Answer r t1)" "answered testname pts t1 rs"
  shows "answered testname ((f, l) # pts) t (r # rs)"
proof -
  have "rs' = r # rs" if "decides testname ((f, l) # pts) t rs' t'" for rs' t'
    using that by (rule decides_ConsE) (use assms in \<open>auto simp: answered_def\<close>)
  then show ?thesis using assms decides_answer [OF assms(1)] unfolding answered_def by blast
qed

text \<open>Without a path to follow and without testing nothing fails.\<close>

lemma answered_untested:
  "\<not> failtest t \<Longrightarrow> suppress_failtest t = 0 \<Longrightarrow> failpath t = None \<Longrightarrow> answered testname pts t (replicate (length pts) False)"
proof (induction pts arbitrary: t)
  case (Cons q pts)
  obtain f l where q: "q = (f, l)" by fastforce
  have s: "should_i_fail testname l f t = Ok (Answer False (t\<lparr>failpoints := failpoints t + 1\<rparr>))"
    using Cons.prems by (simp add: should_i_fail_def)
  from answered_Cons [OF s Cons.IH] Cons.prems show ?case by (simp add: q)
qed (simp add: answered_Nil)

text \<open>At the end of the path the answer is no.\<close>

lemma answered_exhausted:
  assumes "\<not> failtest t" "suppress_failtest t = 0" "failpath t = Some []"
  shows "answered testname pts t (replicate (length pts) False)"
proof (cases pts)
  case (Cons q pts')
  obtain f l where q: "q = (f, l)" by fastforce
  have s: "should_i_fail testname l f t = Ok (Answer False (t\<lparr>failpath := None\<rparr>))"
    using assms by (simp add: should_i_fail_def do_failpath_def path_location_def path_line_def)
  from answered_Cons [OF s answered_untested] assms show ?thesis by (simp add: q Cons)
qed (simp add: answered_Nil)

lemma answered_shown:
  assumes "\<not> failtest t" "suppress_failtest t = 0" "length rs1 = length pts1" "\<forall>(f, l) \<in> set pts1. 0 \<le> sint l"
    and "failpath t = Some (concat (map show_decision (recorded pts1 rs1)))"
  shows "answered testname (pts1 @ pts2) t (rs1 @ replicate (length pts2) False)"
  using assms
proof (induction pts1 arbitrary: rs1 t)
  case Nil
  then show ?case by (simp add: recorded_def answered_exhausted)
next
  case (Cons q pts1)
  obtain f l where q: "q = (f, l)" by fastforce
  obtain r rs1' where rs1: "rs1 = r # rs1'" using Cons.prems(3) by (cases rs1) auto
  let ?d = "\<lparr>location = f, tui_line = l, dec_failed = r\<rparr>" and ?rest = "concat (map show_decision (recorded pts1 rs1'))"
  have "failpath t = Some (show_decision ?d @ ?rest)" using Cons.prems(5) by (simp add: recorded_def q rs1)
  then have s: "should_i_fail testname l f t = Ok (Answer r (t\<lparr>failpath := Some ?rest\<rparr>))"
    using Cons.prems(2,4) do_failpath_shown [of ?d ?rest] by (simp add: should_i_fail_def q)
  from answered_Cons [OF s Cons.IH] Cons.prems show ?case by (simp add: q rs1)
qed

text \<open>
  C25. The path printed for a process that went wrong replays it. Let a process under \<^verbatim>\<open>--failtest\<close> reach decision points, all by
  \<open>should_i_fail\<close> and in lines of the script below 2147483648, and be answered \<open>rs\<close>, with no failure after the first \<open>n\<close> (the report is printed by
  the parent of the last child that failed and names the decisions up to there). The path printed for these \<open>n\<close> decisions, given to another
  run with \<^verbatim>\<open>--failpath\<close>, makes \<open>should_i_fail\<close> take all the decisions in the same way at the same points, and in no other. Points
  that ask \<open>should_i_fail_once\<close> are not covered: their replay goes wrong (see \<open>once_replay_differs\<close>).
\<close>

theorem failpath_replays:
  assumes "failtest s" "suppress_failtest s = 0" "failpath s = None" "decisions s = []" "decides testname pts s rs s'"
    and "\<forall>(f, l) \<in> set pts. 0 \<le> sint l" "\<forall>r \<in> set (drop n rs). \<not> r"
    and "failpath_string (take n (decisions s')) = Some path"
    and "\<not> failtest t0" "suppress_failtest t0 = 0" "cmdline_failpath (Some path) t0 = Ok t"
  shows "(\<exists>t'. decides testname pts t rs t') \<and> (\<forall>rs' t'. decides testname pts t rs' t' \<longrightarrow> rs' = rs)"
proof -
  have r: "length rs = length pts" "decisions s' = recorded pts rs"
    using decides_recorded [OF assms(5)] assms(1-4) by (simp_all add: testing_def)
  have "path = concat (map show_decision (recorded (take n pts) (take n rs)))"
    using assms(8) r(2) by (simp add: failpath_string_def recorded_def take_map take_zip split: if_splits)
  moreover have "t = t0\<lparr>failpath := Some path, orig_failpath := Some path\<rparr>" using assms(11) by (simp add: cmdline_failpath_def)
  moreover have "\<forall>(f, l) \<in> set (take n pts). 0 \<le> sint l" using assms(6) by (auto dest: in_set_takeD)
  ultimately have d: "answered testname (take n pts @ drop n pts) t (take n rs @ replicate (length (drop n pts)) False)"
    using assms(9,10) r(1) by (intro answered_shown) simp_all
  have "drop n rs = replicate (length (drop n pts)) False"
    using assms(7) r(1) by (auto simp: list_eq_iff_nth_eq in_set_conv_nth)
  then have "take n rs @ replicate (length (drop n pts)) False = rs" by (metis append_take_drop_id)
  then show ?thesis using d by (simp add: answered_def)
qed

text \<open>A process that fails its second decision and meets a third one.\<close>

theorem failpath_replays_witness:
  "(\<exists>t'. decides ''t'' [(''kmalloc'', 3), (''copy'', 12), (''kmalloc'', 12)]
       (fail_init\<lparr>failpath := Some ''[kmalloc]:3:S[copy]:12:F'', orig_failpath := Some ''[kmalloc]:3:S[copy]:12:F''\<rparr>) [False, True, False] t')"
proof -
  let ?s = "cmdline_failtest fail_init" and ?pts = "[(''kmalloc'', 3), (''copy'', 12), (''kmalloc'', 12)] :: (string \<times> u32) list"
  have f: "failtest ?s" "suppress_failtest ?s = 0" "failpath ?s = None" "decisions ?s = []"
    by (simp_all add: cmdline_failtest_def fail_init_def)
  have q: "should_i_fail ''t'' l g s = Ok (Fork (s\<lparr>failpoints := failpoints s + 1,
        decisions := decisions s @ [\<lparr>location = g, tui_line = l, dec_failed = True\<rparr>], fails := fails s + 1\<rparr>)
      (parent_after \<lparr>location = g, tui_line = l, dec_failed = False\<rparr> (s\<lparr>failpoints := failpoints s + 1\<rparr>)))"
    if "testing s" "fails s \<le> excessive_fails s" "failtest_no_report s = None" for s l g
    using that by (simp add: should_i_fail_def testing_def Let_def)
  have p: "parent_after d s (Exited 0) = Resume (s\<lparr>decisions := decisions s @ [d\<lparr>dec_failed := False\<rparr>]\<rparr>)" for d s
    by (simp add: parent_after_def EXIT_SUCCESS_def)
  have "\<exists>s'. decides ''t'' ?pts ?s [False, True, False] s'"
    by (rule exI, rule decides_parent [OF q p], (simp add: testing_def cmdline_failtest_def fail_init_def)+,
        rule decides_child [OF q], (simp add: testing_def cmdline_failtest_def fail_init_def)+,
        rule decides_parent [OF q p], (simp add: testing_def cmdline_failtest_def fail_init_def)+, rule decides_end)
  then obtain s' where s': "decides ''t'' ?pts ?s [False, True, False] s'" ..
  have "decisions s' = recorded ?pts [False, True, False]"
    using decides_recorded [OF s'] f by (simp add: testing_def)
  then have w: "failpath_string (take 2 (decisions s')) = Some ''[kmalloc]:3:S[copy]:12:F''"
    by (simp add: recorded_def failpath_string_def show_decision_def show_i_positive show_nat.simps digit_chars)
  have "cmdline_failpath (Some ''[kmalloc]:3:S[copy]:12:F'') fail_init =
      Ok (fail_init\<lparr>failpath := Some ''[kmalloc]:3:S[copy]:12:F'', orig_failpath := Some ''[kmalloc]:3:S[copy]:12:F''\<rparr>)"
    by (simp add: cmdline_failpath_def)
  from failpath_replays [OF f s' _ _ w _ _ this] show ?thesis by (simp add: fail_init_def)
qed

text \<open>
  \<open>should_i_fail_once\<close> was answered no without a record when it was asked for \<^verbatim>\<open>a\<close> again; in the replay it looks at the first \<^verbatim>\<open>a\<close> in the path,
  that of \<^verbatim>\<open>xa\<close>, does not know that it has been asked, and takes the next decision for its own.
\<close>

lemma once_replay_differs:
  defines "pts \<equiv> [(''xa'', 1), (''a'', 2)] :: (string \<times> u32) list"
  shows "should_i_fail_once ''t'' 3 ''a'' ((cmdline_failtest fail_init)\<lparr>decisions := recorded pts [False, True]\<rparr>) =
      Ok (Answer False ((cmdline_failtest fail_init)\<lparr>decisions := recorded pts [False, True]\<rparr>))"
    "should_i_fail_once ''t'' 3 ''a'' (fail_init\<lparr>failpath := Some ''[b]:4:S'', orig_failpath := Some ''[xa]:1:S[a]:2:F[b]:4:S''\<rparr>) =
      Barf ''Failpath expected b not a''"
  by (simp_all add: pts_def recorded_def should_i_fail_once_def cmdline_failtest_def fail_init_def asked_before_def strstr_def strstarts_def
      upt_rec [of _ "Suc _"] do_failpath_def path_location_def)

text \<open>The report of the failures of a script runs over the end of the list whenever its last line is not its only one.\<close>

lemma failpath_string_for_line_overrun:
  "failpath_string_for_line [\<lparr>location = ''a'', tui_line = 1, dec_failed = True\<rparr>, \<lparr>location = ''b'', tui_line = 2, dec_failed = True\<rparr>] 1 = None"
  by code_simp

end
