(* ===== verification/Checksum.thy ===== *)
theory Checksum
  imports Nfsim_Prelude
begin

text \<open>
  The byte-order functions of kernelenv/kernelenv.c and the Internet checksum of core/ipv4/ipv4.c.
  A buffer is the list of its bytes together with the address it starts at, because \<open>do_csum\<close>
  treats odd and 2-modulo-4 addresses separately. The lemmas relate the optimised routine to the
  plain sum of the buffer's 16-bit words modulo 65535 (RFC 1071), and show that a header completed by
  \<open>ip_send_check\<close> verifies and still verifies after the incremental update of \<open>ip_forward\<close>.
\<close>

section \<open>Byte order\<close>

definition swab16 :: "u16 \<Rightarrow> u16" where
  "swab16 x = push_bit 8 (x AND 0x00ff) OR drop_bit 8 (x AND 0xff00)"

definition swab32 :: "u32 \<Rightarrow> u32" where
  "swab32 x = push_bit 24 (x AND 0x000000ff) OR push_bit 8 (x AND 0x0000ff00)
     OR drop_bit 8 (x AND 0x00ff0000) OR drop_bit 24 (x AND 0xff000000)"

definition htonl :: "u32 \<Rightarrow> u32" where "htonl hostlong = swab32 hostlong"
definition htons :: "u16 \<Rightarrow> u16" where "htons hostshort = swab16 hostshort"
definition ntohl :: "u32 \<Rightarrow> u32" where "ntohl netlong = swab32 netlong"
definition ntohs :: "u16 \<Rightarrow> u16" where "ntohs netshort = swab16 netshort"

section \<open>The checksum routines\<close>

definition from32to16 :: "u64 \<Rightarrow> u16" where
  "from32to16 x =
     (let x = (x AND 0xffff) + drop_bit 16 x;
          x = (x AND 0xffff) + drop_bit 16 x
      in ucast x)"

text \<open>The \<open>do ... while (count)\<close> loop over 32-bit words, with the carry added after it.\<close>

fun csum_loop :: "nat \<Rightarrow> u8 list \<Rightarrow> u64 \<Rightarrow> u64 \<Rightarrow> u64 \<times> u8 list" where
  "csum_loop (Suc count) (a # b # c # d # buff) result carry =
     (let w = load32 a b c d;
          result = result + carry;
          result = result + w;
          carry = (if w > result then 1 else 0)
      in csum_loop count buff result carry)"
| "csum_loop count buff result carry = (result + carry, buff)"

text \<open>
  The part of \<open>do_csum\<close> over whole 16-bit words, from an even address: one half-word when the
  address is 2 modulo 4, then 32-bit words, then a last half-word (\<^verbatim>\<open>if (len & 2)\<close>).
\<close>

fun csum_align :: "nat \<Rightarrow> u8 list \<Rightarrow> u64 \<Rightarrow> u64 \<times> u8 list" where
  "csum_align addr (a # b # buff) result =
     (if addr mod 4 \<ge> 2 then (result + load16 a b, buff) else (result, a # b # buff))"
| "csum_align addr buff result = (result, buff)"

definition csum_words :: "u8 list \<Rightarrow> u64 \<Rightarrow> u64 \<times> u8 list" where
  "csum_words buff result =
     (let count = length buff div 4 in
      if count \<noteq> 0 then
        let (result, buff) = csum_loop count buff result 0
        in ((result AND 0xffff) + drop_bit 16 result, buff)
      else (result, buff))"

fun csum_tail :: "nat \<Rightarrow> u8 list \<Rightarrow> u64 \<Rightarrow> u64 \<times> u8 list" where
  "csum_tail len (a # b # buff) result =
     (if len mod 4 \<ge> 2 then (result + load16 a b, buff) else (result, a # b # buff))"
| "csum_tail len buff result = (result, buff)"

definition csum_even :: "nat \<Rightarrow> u8 list \<Rightarrow> u64 \<Rightarrow> u64 \<times> u8 list" where
  "csum_even addr buff result =
     (if length buff div 2 = 0 then (result, buff)
      else
        let (result, buff) = csum_align addr buff result;
            len = length buff;
            (result, buff) = csum_words buff result
        in csum_tail len buff result)"

definition do_csum :: "nat \<Rightarrow> u8 list \<Rightarrow> u64" where
  "do_csum addr buff =
     (if buff = [] then 0
      else
        let odd = (addr mod 2 = 1);
            result = (if odd then ucast (hd buff) else 0);
            addr = (if odd then Suc addr else addr);
            buff = (if odd then tl buff else buff);
            len = length buff;
            (result, buff) = csum_even addr buff result;
            result = (if len mod 2 = 1 then result + push_bit 8 (ucast (hd buff)) else result);
            result = ucast (from32to16 result)
        in if odd then (drop_bit 8 result AND 0xff) OR push_bit 8 (result AND 0xff) else result)"

definition ip_fast_csum :: "nat \<Rightarrow> u8 list \<Rightarrow> nat \<Rightarrow> u16" where
  "ip_fast_csum addr iph ihl = ucast (NOT (do_csum addr (take (ihl * 4) iph)))"

text \<open>\<open>from32to16\<close> yields an \<^verbatim>\<open>unsigned short\<close>, promoted to \<^verbatim>\<open>int\<close> before the complement: the
  upper half of the \<^verbatim>\<open>unsigned int\<close> that \<open>csum_fold\<close> returns is all ones.\<close>

definition csum_fold :: "u32 \<Rightarrow> u32" where
  "csum_fold csum = NOT (ucast (from32to16 (ucast csum)))"

definition csum_partial :: "nat \<Rightarrow> u8 list \<Rightarrow> u32 \<Rightarrow> u32" where
  "csum_partial addr buff csum =
     (let result = ucast (do_csum addr buff) + csum
      in if csum > result then result + 1 else result)"

definition ip_compute_csum :: "nat \<Rightarrow> u8 list \<Rightarrow> u16" where
  "ip_compute_csum addr buff = ucast (csum_fold (csum_partial addr buff 0))"

definition csum_add :: "u32 \<Rightarrow> u32 \<Rightarrow> u32" where
  "csum_add csum addend = (let csum = csum + addend in csum + (if csum < addend then 1 else 0))"

definition csum_sub :: "u32 \<Rightarrow> u32 \<Rightarrow> u32" where
  "csum_sub csum addend = csum_add csum (NOT addend)"

text \<open>
  \<open>ip_send_check\<close> on the bytes of the header (4-byte aligned, \<open>ihl\<close> in the low nibble of byte 0):
  the \<open>check\<close> field is at offset 10.
\<close>

definition get_ihl :: "u8 list \<Rightarrow> nat" where
  "get_ihl iph = unat (iph ! 0) mod 16"

definition put16 :: "nat \<Rightarrow> u8 list \<Rightarrow> u16 \<Rightarrow> u8 list" where
  "put16 off h c = h[off := byte0 c, Suc off := byte1 c]"

definition set_check :: "u8 list \<Rightarrow> u16 \<Rightarrow> u8 list" where
  "set_check iph c = put16 10 iph c"

definition get_check :: "u8 list \<Rightarrow> u16" where
  "get_check iph = ucast (load16 (iph ! 10) (iph ! 11))"

definition ip_send_check :: "u8 list \<Rightarrow> u8 list" where
  "ip_send_check iph =
     (let iph = set_check iph 0 in set_check iph (ip_fast_csum 0 iph (get_ihl iph)))"

text \<open>
  The header rewriting of \<open>ip_forward\<close>: decrement the time to live at offset 8, give up when it
  reaches zero, and patch the checksum instead of computing it again (RFC 1141).
\<close>

definition ip_forward_hdr :: "u8 list \<Rightarrow> u8 list option" where
  "ip_forward_hdr iph =
     (let ttl = iph ! 8 - 1; iph = iph[8 := ttl] in
      if ttl = 0 then None
      else
        let check = ucast (get_check iph) + ucast (htons 0x0100) :: u32;
            check = check + (if check \<ge> 0xFFFF then 1 else 0)
        in Some (set_check iph (ucast check)))"

text \<open>The pseudo header of TCP and UDP, built on a 4-byte aligned stack variable.\<close>

definition bytes32 :: "u32 \<Rightarrow> u8 list" where
  "bytes32 w = [ucast w, ucast (drop_bit 8 w), ucast (drop_bit 16 w), ucast (drop_bit 24 w)]"

definition pseudo_header :: "u32 \<Rightarrow> u32 \<Rightarrow> u8 \<Rightarrow> u16 \<Rightarrow> u8 list" where
  "pseudo_header saddr daddr proto len =
     bytes32 saddr @ bytes32 daddr @ [0, proto, byte0 (htons len), byte1 (htons len)]"

definition csum_tcpudp_nofold :: "u32 \<Rightarrow> u32 \<Rightarrow> u16 \<Rightarrow> u8 \<Rightarrow> u32 \<Rightarrow> u32" where
  "csum_tcpudp_nofold saddr daddr len proto csum =
     csum_partial 0 (pseudo_header saddr daddr proto len) csum"

definition csum_tcpudp_magic :: "u32 \<Rightarrow> u32 \<Rightarrow> u16 \<Rightarrow> u8 \<Rightarrow> u32 \<Rightarrow> u16" where
  "csum_tcpudp_magic saddr daddr len proto csum =
     ucast (csum_fold (csum_tcpudp_nofold saddr daddr len proto csum))"

definition tcp_v4_check :: "u16 \<Rightarrow> u32 \<Rightarrow> u32 \<Rightarrow> u32 \<Rightarrow> u16" where
  "tcp_v4_check len saddr daddr base = csum_tcpudp_magic saddr daddr len 6 base"

section \<open>One's complement arithmetic\<close>

text \<open>
  Two sums denote the same one's complement number when they agree modulo 65535 and agree on being
  zero: the end-around carry never turns a positive sum into zero.
\<close>

definition oc_eq :: "nat \<Rightarrow> nat \<Rightarrow> bool" where
  "oc_eq x y \<longleftrightarrow> x mod 65535 = y mod 65535 \<and> (x = 0 \<longleftrightarrow> y = 0)"

text \<open>The 16-bit representative of a sum.\<close>

definition oc :: "nat \<Rightarrow> nat" where
  "oc s = (if s = 0 then 0 else if s mod 65535 = 0 then 65535 else s mod 65535)"

definition fold16 :: "nat \<Rightarrow> nat" where
  "fold16 x = x mod 65536 + x div 65536"

text \<open>
  The sum of 16-bit words as \<open>do_csum\<close> forms it, with a last odd byte taken as a high byte. It carries the proofs below and is no
  specification: that is \<open>rfc1071_sum\<close>, which pads an odd buffer behind its last byte and so takes this byte, on a little-endian
  machine, as a low byte.
\<close>

fun wsum :: "u8 list \<Rightarrow> nat" where
  "wsum (a # b # r) = val16 a b + wsum r"
| "wsum [a] = 256 * unat a"
| "wsum [] = 0"

fun rfc1071_sum :: "u8 list \<Rightarrow> nat" where
  "rfc1071_sum (a # b # r) = val16 a b + rfc1071_sum r"
| "rfc1071_sum [a] = unat a"
| "rfc1071_sum [] = 0"

text \<open>A buffer of odd length with a zero byte in front of its last byte.\<close>

definition pad_last :: "u8 list \<Rightarrow> u8 list" where
  "pad_last bs = (if odd (length bs) then butlast bs @ [0, last bs] else bs)"

lemma oc_eq_refl [simp, intro]: "oc_eq x x"
  by (simp add: oc_eq_def)

lemma oc_eq_sym: "oc_eq x y \<Longrightarrow> oc_eq y x"
  by (simp add: oc_eq_def)

lemma oc_eq_trans [trans]: "oc_eq x y \<Longrightarrow> oc_eq y z \<Longrightarrow> oc_eq x z"
  by (simp add: oc_eq_def)

lemma oc_eq_add: "oc_eq x y \<Longrightarrow> oc_eq x' y' \<Longrightarrow> oc_eq (x + x') (y + y')"
  by (auto simp: oc_eq_def intro: mod_add_cong)

lemma oc_eq_mult: "oc_eq x y \<Longrightarrow> oc_eq (k * x) (k * y)"
  by (auto simp: oc_eq_def intro: mod_mult_cong)

lemma mod_65535_shift: "(a + 65536 * b) mod 65535 = (a + b) mod (65535 :: nat)"
proof -
  have "a + 65536 * b = a + b + 65535 * b" by simp
  then show ?thesis by (simp only: mod_mult_self2)
qed

lemma fold16_oc_eq [simp]: "oc_eq (fold16 x) x"
proof -
  have "fold16 x mod 65535 = (x mod 65536 + 65536 * (x div 65536)) mod 65535"
    by (simp only: mod_65535_shift fold16_def)
  then have "fold16 x mod 65535 = x mod 65535" by (simp only: mod_mult_div_eq)
  moreover have "fold16 x = 0 \<longleftrightarrow> x = 0" by (auto simp: fold16_def)
  ultimately show ?thesis by (simp add: oc_eq_def)
qed

lemma oc_le: "oc s \<le> 65535"
  by (auto simp: oc_def)

lemma oc_unique: "oc_eq r s \<Longrightarrow> r < 65536 \<Longrightarrow> r = oc s"
proof -
  assume e: "oc_eq r s" and "r < 65536"
  then have "r < 65535 \<or> r = 65535" by linarith
  with e show ?thesis by (auto simp: oc_eq_def oc_def)
qed

lemma oc_eq_oc: "oc_eq (oc s) s"
  by (auto simp: oc_eq_def oc_def)

lemma oc_cong: "oc_eq x y \<Longrightarrow> oc x = oc y"
  by (auto simp: oc_eq_def oc_def)

lemma oc_mod: "oc s mod 65535 = s mod 65535"
  using oc_eq_oc [of s] by (simp add: oc_eq_def)

section \<open>The routines compute the one's complement sum\<close>

lemma fold16_less: "x < 4294967296 \<Longrightarrow> fold16 (fold16 x) < 65536"
proof -
  assume "x < 4294967296"
  then have "x div 65536 < 65536" by (simp add: less_mult_imp_div_less)
  moreover have "x mod 65536 < 65536" by simp
  ultimately have y: "fold16 x < 131071" unfolding fold16_def by linarith
  show ?thesis
  proof (cases "fold16 x < 65536")
    case True
    then show ?thesis by (simp add: fold16_def [of "fold16 x"])
  next
    case False
    then obtain k where k: "fold16 x = 65536 + k" by (metis le_Suc_ex not_less)
    with y have "k < 65535" by linarith
    with k show ?thesis by (simp add: fold16_def [of "65536 + k"])
  qed
qed

lemma unat_fold16_u64:
  "unat ((x AND 0xffff) + drop_bit 16 x :: u64) = fold16 (unat x)"
proof -
  have "unat x mod 65536 < 65536" by simp
  moreover have "unat x div 65536 < 281474976710656"
    using unat_u64_less [of x] by (simp add: less_mult_imp_div_less)
  ultimately have "unat (x AND 0xffff) + unat (drop_bit 16 x) < 18446744073709551616"
    by (simp add: unat_and_low16 unat_shift16)
  then show ?thesis
    by (simp only: unat_add_u64 unat_and_low16 unat_shift16 fold16_def)
qed

lemma unat_from32to16:
  assumes "unat x < 4294967296"
  shows "unat (from32to16 x) = oc (unat x)"
proof -
  have "unat (from32to16 x) = fold16 (fold16 (unat x)) mod 65536"
    by (simp only: from32to16_def Let_def unsigned_ucast_eq unat_fold16_u64 take_bit_eq_mod) simp
  also have "\<dots> = fold16 (fold16 (unat x))"
    using fold16_less [OF assms] by simp
  also have "\<dots> = oc (unat x)"
    by (rule oc_unique [OF oc_eq_trans [OF fold16_oc_eq fold16_oc_eq] fold16_less [OF assms]])
  finally show ?thesis .
qed

fun dwsum :: "nat \<Rightarrow> u8 list \<Rightarrow> nat" where
  "dwsum (Suc n) (a # b # c # d # r) = val32 a b c d + dwsum n r"
| "dwsum n r = 0"

lemma dwsum_bound: "dwsum n bs \<le> n * 4294967295"
proof (induction n bs rule: dwsum.induct)
  case (1 n a b c d r)
  then show ?case using val32_less [of a b c d] by simp
qed auto

text \<open>With 64-bit sums the carry of the loop never sets: no addition wraps.\<close>

lemma csum_loop_sum:
  assumes "4 * n \<le> length bs" and "unat r + n * 4294967295 < 18446744073709551616"
  shows "csum_loop n bs r 0 = (r + word_of_nat (dwsum n bs), drop (4 * n) bs)"
  using assms
proof (induction n bs r "0 :: u64" rule: csum_loop.induct)
  case (1 n a b c d bs r)
  let ?w = "word_of_nat (val32 a b c d) :: u64"
  have uw: "unat ?w = val32 a b c d"
    using val32_less [of a b c d] by (intro unat_of_nat_u64) linarith
  have ur: "unat (r + ?w) = unat r + val32 a b c d"
    using "1.prems"(2) val32_less [of a b c d] by (subst unat_add_u64) (simp_all add: uw)
  have nc: "\<not> ?w > r + ?w"
    by (simp add: word_less_nat_alt ur uw)
  have "unat (r + ?w) + n * 4294967295 < 18446744073709551616"
    using "1.prems"(2) val32_less [of a b c d] by (simp add: ur)
  then have "csum_loop n bs (r + ?w) 0 = (r + ?w + word_of_nat (dwsum n bs), drop (4 * n) bs)"
    using "1.hyps" "1.prems"(1) nc by (simp add: load32_val32)
  then show ?case using nc by (simp add: Let_def load32_val32)
qed auto

lemma wsum_dwsum: "4 * n \<le> length bs \<Longrightarrow> oc_eq (wsum bs) (dwsum n bs + wsum (drop (4 * n) bs))"
proof (induction n bs rule: dwsum.induct)
  case (1 n a b c d bs)
  have "oc_eq (val32 a b c d) (val16 a b + val16 c d)"
    by (auto simp: oc_eq_def val32_def mod_65535_shift)
  moreover have "oc_eq (wsum bs) (dwsum n bs + wsum (drop (4 * n) bs))"
    using 1 by simp
  ultimately have "oc_eq (val16 a b + val16 c d + wsum bs)
      (val32 a b c d + (dwsum n bs + wsum (drop (4 * n) bs)))"
    by (intro oc_eq_add) (auto intro: oc_eq_sym)
  then show ?case by (simp add: add.assoc)
qed auto

lemma unat_val16_u64 [unat_simps]: "unat (word_of_nat (val16 a b) :: u64) = val16 a b"
  using val16_less [of a b] by (intro unat_of_nat_u64) linarith

text \<open>
  Each stage consumes an even number of bytes and moves their sum into the accumulator; the bounds
  say how far the accumulator can have grown.
\<close>

lemma csum_align_sum:
  assumes "unat r < 256"
  obtains r' k where "csum_align addr bs r = (r', drop (2 * k) bs)" "2 * k \<le> length bs"
    "unat r' + wsum (drop (2 * k) bs) = unat r + wsum bs" "unat r' < 131072"
proof (cases "\<exists>a b rest. bs = a # b # rest \<and> addr mod 4 \<ge> 2")
  case True
  then obtain a b rest where bs: "bs = a # b # rest" and ad: "addr mod 4 \<ge> 2" by blast
  have "unat (r + word_of_nat (val16 a b)) = unat r + val16 a b"
    using assms val16_less [of a b] by (subst unat_add_u64) (simp_all add: unat_val16_u64)
  then show ?thesis
    using that [of "r + word_of_nat (val16 a b)" 1] bs ad assms val16_less [of a b] by (simp add: load16_val16)
next
  case False
  then have "csum_align addr bs r = (r, bs)"
    by (cases "(addr, bs, r)" rule: csum_align.cases) auto
  then show ?thesis using that [of r 0] assms by simp
qed

lemma csum_words_sum:
  assumes "length bs \<le> 65536" and "unat r < 131072"
  obtains r' where "csum_words bs r = (r', drop (4 * (length bs div 4)) bs)"
    "oc_eq (unat r' + wsum (drop (4 * (length bs div 4)) bs)) (unat r + wsum bs)" "unat r' < 1100000000"
proof -
  let ?n = "length bs div 4" and ?r = "r + word_of_nat (dwsum (length bs div 4) bs)"
  have n: "?n \<le> 16384" using assms(1) by linarith
  have d: "dwsum ?n bs \<le> 70368744161280"
    using dwsum_bound [of ?n bs] n by linarith
  have u: "unat ?r = unat r + dwsum ?n bs"
    using d assms(2) by (subst unat_add_u64) (simp_all add: unat_of_nat_u64)
  have "unat ?r div 65536 < 1073742000"
    using d assms(2) unfolding u by (intro less_mult_imp_div_less) simp
  moreover have "unat ?r mod 65536 < 65536" by simp
  ultimately have less: "fold16 (unat ?r) < 1100000000" unfolding fold16_def by linarith
  have w: "oc_eq (unat r + dwsum ?n bs + wsum (drop (4 * ?n) bs)) (unat r + wsum bs)"
    unfolding add.assoc by (intro oc_eq_add oc_eq_refl oc_eq_sym [OF wsum_dwsum]) simp
  have "oc_eq (fold16 (unat ?r) + wsum (drop (4 * ?n) bs)) (unat ?r + wsum (drop (4 * ?n) bs))"
    by (intro oc_eq_add) auto
  then have oc: "oc_eq (fold16 (unat ?r) + wsum (drop (4 * ?n) bs)) (unat r + wsum bs)"
    unfolding u using w by (rule oc_eq_trans)
  have loop: "csum_loop ?n bs r 0 = (?r, drop (4 * ?n) bs)"
    using n assms(2) by (intro csum_loop_sum) auto
  show ?thesis
  proof (cases "?n = 0")
    case True
    then show ?thesis using that [of r] assms(2) by (simp add: csum_words_def)
  next
    case False
    with loop have "csum_words bs r = ((?r AND 0xffff) + drop_bit 16 ?r, drop (4 * ?n) bs)"
      by (simp only: csum_words_def Let_def if_True not_False_eq_True prod.case)
    then show ?thesis
      using that [of "(?r AND 0xffff) + drop_bit 16 ?r"] oc less unfolding unat_fold16_u64 by blast
  qed
qed

lemma csum_tail_sum:
  assumes "unat r < 1100000000" and "length bs = len mod 4"
  obtains r' k where "csum_tail len bs r = (r', drop (2 * k) bs)" "2 * k \<le> length bs" "length bs - 2 * k < 2"
    "unat r' + wsum (drop (2 * k) bs) = unat r + wsum bs" "unat r' < 1200000000"
proof (cases "\<exists>a b rest. bs = a # b # rest")
  case True
  then obtain a b rest where bs: "bs = a # b # rest" by blast
  have "unat (r + word_of_nat (val16 a b)) = unat r + val16 a b"
    using assms val16_less [of a b] by (subst unat_add_u64) (simp_all add: unat_val16_u64)
  moreover have "len mod 4 \<ge> 2" "length rest < 2"
    using assms(2) [unfolded bs] mod_less_divisor [of 4 len] unfolding list.size by linarith+
  ultimately show ?thesis
    using that [of "r + word_of_nat (val16 a b)" 1] bs assms val16_less [of a b] by (simp add: load16_val16)
next
  case False
  then have "csum_tail len bs r = (r, bs)" "length bs < 2"
    by (cases "(len, bs, r)" rule: csum_tail.cases; auto)+
  then show ?thesis using that [of r 0] assms by simp
qed

lemma csum_even_sum:
  assumes "length bs \<le> 65536" and "unat r < 256"
  obtains r' k where "csum_even addr bs r = (r', drop (2 * k) bs)" "2 * k \<le> length bs" "length bs - 2 * k < 2"
    "oc_eq (unat r' + wsum (drop (2 * k) bs)) (unat r + wsum bs)" "unat r' < 1200000000"
proof (cases "length bs < 2")
  case True
  then show ?thesis
    using that [of r 0] assms(2) by (auto simp: csum_even_def)
next
  case False
  obtain r1 k1 where 1: "csum_align addr bs r = (r1, drop (2 * k1) bs)" "2 * k1 \<le> length bs"
      "unat r1 + wsum (drop (2 * k1) bs) = unat r + wsum bs" "unat r1 < 131072"
    by (rule csum_align_sum [OF assms(2)])
  define b1 where "b1 = drop (2 * k1) bs"
  have "length b1 \<le> 65536" using assms(1) by (simp add: b1_def)
  then obtain r2 where 2: "csum_words b1 r1 = (r2, drop (4 * (length b1 div 4)) b1)"
      "oc_eq (unat r2 + wsum (drop (4 * (length b1 div 4)) b1)) (unat r1 + wsum b1)" "unat r2 < 1100000000"
    by (rule csum_words_sum [OF _ 1(4)])
  define b2 where "b2 = drop (4 * (length b1 div 4)) b1"
  have "length b2 = length b1 mod 4" by (simp add: b2_def minus_mult_div_eq_mod)
  then obtain r3 k3 where 3: "csum_tail (length b1) b2 r2 = (r3, drop (2 * k3) b2)" "2 * k3 \<le> length b2"
      "length b2 - 2 * k3 < 2" "unat r3 + wsum (drop (2 * k3) b2) = unat r2 + wsum b2" "unat r3 < 1200000000"
    by (rule csum_tail_sum [OF 2(3)])
  define k where "k = k3 + 2 * (length b1 div 4) + k1"
  have k: "drop (2 * k3) b2 = drop (2 * k) bs"
    by (simp add: b2_def b1_def k_def algebra_simps)
  have "length bs - 2 * k < 2" "2 * k \<le> length bs"
    using 3(2,3) 1(2) by (auto simp: k_def b2_def b1_def)
  moreover have "length bs div 2 \<noteq> 0"
    using False by (simp add: div_eq_0_iff)
  then have "csum_even addr bs r = (r3, drop (2 * k) bs)"
    using 1(1) 2(1) 3(1) k by (simp add: csum_even_def b1_def [symmetric] b2_def [symmetric])
  moreover have "oc_eq (unat r3 + wsum (drop (2 * k) bs)) (unat r + wsum bs)"
    using 2(2) 3(4) 1(3) k by (simp add: b1_def [symmetric] b2_def [symmetric])
  ultimately show ?thesis using that 3(5) by blast
qed

text \<open>Everything of \<open>do_csum\<close> but the treatment of an odd address.\<close>

definition csum_rest :: "nat \<Rightarrow> u8 list \<Rightarrow> u64 \<Rightarrow> u64" where
  "csum_rest addr buff result =
     (let (result, rest) = csum_even addr buff result
      in if length buff mod 2 = 1 then result + push_bit 8 (ucast (hd rest)) else result)"

lemma unat_byte_high: "unat (push_bit 8 (ucast (b :: u8)) :: u64) = 256 * unat b"
proof -
  have "unat (word_of_nat (256 * unat b) :: u64) = 256 * unat b"
    using unat_u8_less [of b] by (intro unat_of_nat_u64) linarith
  moreover have "push_bit 8 (ucast b) = (word_of_nat (256 * unat b) :: u64)"
    by (simp only: push_bit_eq_mult of_nat_mult of_nat_numeral of_nat_unat) (simp add: mult.commute)
  ultimately show ?thesis by simp
qed

lemma csum_rest_sum:
  assumes "length bs \<le> 65536" and "unat r < 256"
  shows "unat (from32to16 (csum_rest addr bs r)) = oc (unat r + wsum bs)"
proof -
  obtain r' k where r': "csum_even addr bs r = (r', drop (2 * k) bs)" "2 * k \<le> length bs" "length bs - 2 * k < 2"
    "oc_eq (unat r' + wsum (drop (2 * k) bs)) (unat r + wsum bs)" "unat r' < 1200000000"
    by (rule csum_even_sum [OF assms])
  define l where "l = drop (2 * k) bs"
  have ll: "length l = length bs mod 2"
    using r'(2,3) unfolding l_def length_drop by presburger
  have "unat (csum_rest addr bs r) = unat r' + wsum l \<and> unat r' + wsum l < 4294967296"
  proof (cases l)
    case Nil
    with r'(1,5) ll show ?thesis by (simp add: csum_rest_def l_def)
  next
    case (Cons b t)
    with ll have t: "t = []" "length bs mod 2 = 1" by (cases t; simp)+
    have "unat (r' + push_bit 8 (ucast b)) = unat r' + 256 * unat b"
      using r'(5) unat_u8_less [of b] by (subst unat_add_u64) (simp_all add: unat_byte_high)
    with r'(1,5) Cons t unat_u8_less [of b] show ?thesis
      by (simp add: csum_rest_def l_def)
  qed
  then have "unat (from32to16 (csum_rest addr bs r)) = oc (unat r' + wsum l)"
    using unat_from32to16 by metis
  also have "\<dots> = oc (unat r + wsum bs)"
    using r'(4) by (simp add: l_def oc_cong)
  finally show ?thesis .
qed

lemma do_csum_eq:
  "do_csum addr bs =
     (if bs = [] then 0
      else if addr mod 2 = 1
      then (let result = ucast (from32to16 (csum_rest (Suc addr) (tl bs) (ucast (hd bs))))
            in (drop_bit 8 result AND 0xff) OR push_bit 8 (result AND 0xff))
      else ucast (from32to16 (csum_rest addr bs 0)))"
  by (simp add: do_csum_def csum_rest_def Let_def split: prod.splits)

lemma unat_ucast_u16_u64: "unat (ucast (x :: u16) :: u64) = unat x"
  using unat_u16_less [of x] by (simp add: unsigned_ucast_eq take_bit_eq_mod)

lemma do_csum_even: "length bs \<le> 65536 \<Longrightarrow> even addr \<Longrightarrow> unat (do_csum addr bs) = oc (wsum bs)"
  using csum_rest_sum [of bs 0 addr] by (auto simp: do_csum_eq unat_ucast_u16_u64 oc_def)

lemma do_csum_less: "length bs \<le> 65536 \<Longrightarrow> even addr \<Longrightarrow> unat (do_csum addr bs) < 65536"
  using oc_le [of "wsum bs"] by (simp add: do_csum_even)

lemma byte_swap_u64:
  assumes "unat r < 65536"
  shows "unat ((drop_bit 8 r AND 0xff) OR push_bit 8 (r AND 0xff) :: u64) = unat r div 256 + 256 * (unat r mod 256)"
proof -
  have lo: "(x :: u64) AND 0xff = take_bit 8 x" for x
    by (simp add: take_bit_eq_mask mask_eq_exp_minus_1)
  have "\<not> bit (take_bit 8 (drop_bit 8 r)) n \<or> \<not> bit (push_bit 8 (take_bit 8 r)) n" for n
    by (auto simp: bit_simps)
  then have "take_bit 8 (drop_bit 8 r) OR push_bit 8 (take_bit 8 r)
      = take_bit 8 (drop_bit 8 r) + push_bit 8 (take_bit 8 r)"
    by (simp add: disjunctive_add)
  moreover have "unat (take_bit 8 (drop_bit 8 r)) = unat r div 256"
    using assms by (simp add: take_bit_eq_mod drop_bit_eq_div unat_mod unat_div div_less_iff_less_mult)
  moreover have "unat (push_bit 8 (take_bit 8 r)) = 256 * (unat r mod 256)"
  proof -
    have "unat (take_bit 8 r) = unat r mod 256"
      by (simp add: take_bit_eq_mod unat_mod)
    then have "unat (256 * take_bit 8 r) = 256 * (unat r mod 256)"
      by (subst unat_mult_lem [THEN iffD1]) auto
    then show ?thesis by (simp only: push_bit_eq_mult) (simp add: mult.commute)
  qed
  ultimately show ?thesis
    using assms by (simp only: lo) (subst unat_add_u64; simp)
qed

lemma eq256: "256 * x + 65536 * y = 256 * (x + 256 * y :: nat)"
  by simp

lemma do_csum_odd:
  assumes "length bs \<le> 65536" and "odd addr" and "bs \<noteq> []"
  shows "unat (do_csum addr bs) = oc (256 * (unat (hd bs) + wsum (tl bs)))"
proof -
  let ?s = "unat (hd bs) + wsum (tl bs)"
  define R :: u64 where "R = ucast (from32to16 (csum_rest (Suc addr) (tl bs) (ucast (hd bs))))"
  have hd: "unat (ucast (hd bs) :: u64) = unat (hd bs)" "unat (hd bs) < 256"
    using unat_u8_less [of "hd bs"] by (simp_all add: unsigned_ucast_eq take_bit_eq_mod)
  have r: "unat R = oc ?s"
    using csum_rest_sum [of "tl bs" "ucast (hd bs)" "Suc addr"] assms(1) hd
    by (simp add: R_def unat_ucast_u16_u64)
  then have less: "unat R < 65536" using oc_le [of ?s] by simp
  have "do_csum addr bs = (drop_bit 8 R AND 0xff) OR push_bit 8 (R AND 0xff)"
    using assms(2,3) by (simp only: do_csum_eq R_def Let_def odd_iff_mod_2_eq_one if_True if_False refl)
  with less have d: "unat (do_csum addr bs) = unat R div 256 + 256 * (unat R mod 256)"
    by (simp only: byte_swap_u64)
  have "(unat R div 256 + 256 * (unat R mod 256)) mod 65535
      = (256 * (unat R mod 256) + 65536 * (unat R div 256)) mod 65535"
    by (simp only: mod_65535_shift add.commute)
  also have "256 * (unat R mod 256) + 65536 * (unat R div 256) = 256 * (unat R mod 256 + 256 * (unat R div 256))"
    by (rule eq256)
  also have "\<dots> = 256 * unat R" by (simp only: mod_mult_div_eq)
  finally have "oc_eq (unat (do_csum addr bs)) (256 * unat R)"
    by (auto simp: d oc_eq_def)
  also have "oc_eq (256 * unat R) (256 * ?s)"
    unfolding r by (rule oc_eq_mult [OF oc_eq_oc])
  finally show ?thesis
    using less by (intro oc_unique) (auto simp: d)
qed

section \<open>Partial sums and folding\<close>

lemma mod_65535_2_32: "(a + 4294967296) mod 65535 = (a + 1) mod (65535 :: nat)"
proof -
  have "a + 4294967296 = a + 1 + 65535 * 65537" by simp
  then show ?thesis by (simp only: mod_mult_self2)
qed

lemma unat_add_u32_wrap:
  "unat (a + b :: u32) = (if unat a + unat b < 4294967296 then unat a + unat b else unat a + unat b - 4294967296)"
  by (simp add: unat_plus_if')

text \<open>The end-around carry of a 32-bit addition keeps the one's complement value.\<close>

lemma carry_add_oc_eq:
  "oc_eq (unat (if b > a + b then a + b + 1 else a + b :: u32)) (unat a + unat b)"
proof (cases "unat a + unat b < 4294967296")
  case True
  then have "\<not> b > a + b" by (simp add: word_less_nat_alt unat_add_u32_wrap)
  with True show ?thesis by (simp add: unat_add_u32_wrap)
next
  case False
  then obtain k where k: "unat a + unat b = k + 4294967296"
    by (metis add.commute le_Suc_ex not_less)
  have kb: "k < unat b" using k unat_u32_less [of a] by linarith
  have ab: "unat (a + b) = k" using k by (simp add: unat_add_u32_wrap)
  then have c: "b > a + b" using kb by (simp add: word_less_nat_alt)
  have "unat (a + b + 1) = k + 1"
    using ab kb unat_u32_less [of b] by (subst unat_add_u32_wrap) simp
  then show ?thesis using c k by (simp add: oc_eq_def mod_65535_2_32)
qed

lemma unat_do_csum_u32:
  "length bs \<le> 65536 \<Longrightarrow> even addr \<Longrightarrow> unat (ucast (do_csum addr bs) :: u32) = oc (wsum bs)"
  using oc_le [of "wsum bs"] by (simp add: unsigned_ucast_eq take_bit_eq_mod do_csum_even)

lemma csum_partial_oc:
  assumes "length bs \<le> 65536" and "even addr"
  shows "oc_eq (unat (csum_partial addr bs c)) (wsum bs + unat c)"
proof -
  have "oc_eq (unat (csum_partial addr bs c)) (unat (ucast (do_csum addr bs) :: u32) + unat c)"
    unfolding csum_partial_def Let_def by (rule carry_add_oc_eq)
  also have "oc_eq \<dots> (wsum bs + unat c)"
    using assms by (intro oc_eq_add) (simp_all add: unat_do_csum_u32 oc_eq_oc)
  finally show ?thesis .
qed

lemma csum_add_oc: "oc_eq (unat (csum_add c a)) (unat c + unat a)"
  using carry_add_oc_eq [of c a] by (auto simp: csum_add_def Let_def split: if_splits)

lemma unat_not_u16: "unat (NOT x :: u16) = 65535 - unat x"
proof -
  have "NOT x = 65535 - x" by (simp add: not_eq_complement)
  moreover have "x \<le> 65535" using unat_u16_less [of x] by (simp add: word_le_nat_alt)
  ultimately show ?thesis by (simp add: unat_sub)
qed

lemma csum_fold_u16: "ucast (csum_fold c) = (NOT (from32to16 (ucast c)) :: u16)"
  by (rule bit_word_eqI) (simp add: csum_fold_def bit_simps)

lemma unat_csum_fold: "unat (ucast (csum_fold c) :: u16) = 65535 - oc (unat c)"
proof -
  have u: "unat (ucast c :: u64) = unat c"
    using unat_u32_less [of c] by (simp add: unsigned_ucast_eq take_bit_eq_mod)
  show ?thesis
    using unat_u32_less [of c] by (simp add: csum_fold_u16 unat_not_u16 unat_from32to16 u)
qed

lemma unat_ip_fast_csum:
  "length (take (ihl * 4) iph) \<le> 65536 \<Longrightarrow> unat (ip_fast_csum 0 iph ihl) = 65535 - oc (wsum (take (ihl * 4) iph))"
proof -
  assume a: "length (take (ihl * 4) iph) \<le> 65536"
  have "ucast (NOT x) = (NOT (ucast x) :: u16)" for x :: u64
    by (rule bit_word_eqI) (simp add: bit_simps)
  then have "unat (ip_fast_csum 0 iph ihl) = 65535 - unat (ucast (do_csum 0 (take (ihl * 4) iph)) :: u16)"
    by (simp add: ip_fast_csum_def unat_not_u16)
  also have "unat (ucast (do_csum 0 (take (ihl * 4) iph)) :: u16) = oc (wsum (take (ihl * 4) iph))"
    using a oc_le [of "wsum (take (ihl * 4) iph)"] by (simp add: unsigned_ucast_eq take_bit_eq_mod do_csum_even)
  finally show ?thesis .
qed

section \<open>Headers that carry their own checksum\<close>

text \<open>
  The contract of a checksum field: storing a value in the field adds it to the total of the header
  with the field cleared. What follows from it holds for every header with such a field.
\<close>

locale checksummed =
  fixes total :: "'h \<Rightarrow> nat" and put :: "'h \<Rightarrow> u16 \<Rightarrow> 'h" and fits :: "'h \<Rightarrow> bool"
  assumes total_put: "fits h \<Longrightarrow> total (put h c) = total (put h 0) + unat c"
begin

text \<open>Storing the complement of the sum makes the whole header sum to minus zero.\<close>

lemma complement_verifies:
  assumes "fits h" and "unat c = 65535 - oc (total (put h 0))"
  shows "oc (total (put h c)) = 65535"
proof -
  let ?t = "total (put h 0)"
  have "total (put h c) = ?t + (65535 - oc ?t)"
    using assms(2) total_put [OF assms(1), of c] by simp
  moreover have "oc_eq (?t + (65535 - oc ?t)) (oc ?t + (65535 - oc ?t))"
    by (intro oc_eq_add oc_eq_refl oc_eq_sym [OF oc_eq_oc])
  moreover have "oc ?t + (65535 - oc ?t) = 65535" using oc_le [of ?t] by simp
  ultimately have "oc (total (put h c)) = oc 65535" using oc_cong by metis
  then show ?thesis by (simp add: oc_def)
qed

text \<open>An update of the header that the new field value compensates modulo 65535 keeps it verifying.\<close>

lemma incremental_verifies:
  assumes "fits h" and "fits h'" and "oc (total (put h c)) = 65535"
    and "(total (put h' 0) + unat c') mod 65535 = (total (put h 0) + unat c) mod 65535"
    and "total (put h' 0) + unat c' \<noteq> 0"
  shows "oc (total (put h' c')) = 65535"
proof -
  have "(total (put h 0) + unat c) mod 65535 = 0"
    using assms(3) oc_mod [of "total (put h c)"] total_put [OF assms(1), of c] by simp
  with assms(4,5) show ?thesis using total_put [OF assms(2), of c'] by (simp add: oc_def)
qed

end

lemma put16_length [simp]: "length (put16 off h c) = length h"
  by (simp add: put16_def)

lemma put16_shift: "put16 (Suc (Suc off)) (a # b # h) c = a # b # put16 off h c"
  by (simp add: put16_def)

lemma wsum_put16:
  "even off \<Longrightarrow> Suc off < length h \<Longrightarrow> wsum (put16 off h c) = wsum (put16 off h 0) + unat c"
proof (induction h arbitrary: off rule: wsum.induct)
  case (1 a b r)
  show ?case
  proof (cases off)
    case 0
    then show ?thesis by (simp add: put16_def)
  next
    case (Suc n)
    with "1.prems"(1) obtain m where m: "off = Suc (Suc m)" "even m" by (cases n) auto
    then show ?thesis using "1.IH" [of m] "1.prems"(2) by (simp add: put16_shift)
  qed
qed auto

interpretation iphdr: checksummed wsum set_check "\<lambda>h. 12 \<le> length h"
  by unfold_locales (auto simp: set_check_def intro: wsum_put16)

interpretation icmphdr: checksummed wsum "put16 2" "\<lambda>h. 4 \<le> length h"
  by unfold_locales (auto intro: wsum_put16)

text \<open>For UDP and TCP the total includes the sum of the pseudo header.\<close>

interpretation segment: checksummed "\<lambda>(ps, h). ps + wsum h" "\<lambda>(ps, h) c. (ps, put16 off h c)"
    "\<lambda>(ps, h). even off \<and> Suc off < length h"
  for off
  by unfold_locales (clarsimp, rule wsum_put16, simp_all)

lemma masks16: "(0x00ff :: u16) = mask 8" "(0xff00 :: u16) = push_bit 8 (mask 8)"
  by (simp_all add: mask_eq_exp_minus_1)
lemma masks32: "(0x0000ff00 :: u32) = push_bit 8 (mask 8)" "(0x00ff0000 :: u32) = push_bit 16 (mask 8)"
    "(0xff000000 :: u32) = push_bit 24 (mask 8)" "(0x000000ff :: u32) = mask 8"
  by (simp_all add: mask_eq_exp_minus_1)

lemma bit_swab16: "bit (swab16 x) n \<longleftrightarrow> (if n < 8 then bit x (8 + n) else n < 16 \<and> bit x (n - 8))"
  by (simp only: swab16_def masks16) (auto simp: bit_simps)

lemma bit_swab32:
  "bit (swab32 x) n \<longleftrightarrow>
     (if n < 8 then bit x (24 + n) else if n < 16 then bit x (8 + n)
      else if n < 24 then bit x (n - 8) else n < 32 \<and> bit x (n - 24))"
  by (simp only: swab32_def masks32) (auto simp: bit_or_iff bit_and_iff bit_push_bit_iff bit_drop_bit_eq bit_mask_iff)

lemma swab16_swab16: "swab16 (swab16 x) = x"
  by (rule bit_word_eqI) (auto simp: bit_swab16)
lemma swab32_swab32: "swab32 (swab32 x) = x"
  by (rule bit_word_eqI) (auto simp: bit_swab32)

text \<open>
  The conversions between host and network byte order are inverse to each other, for 32-bit and for
  16-bit values.
\<close>

theorem byteorder_roundtrip:
  "ntohl (htonl x) = x \<and> htonl (ntohl x) = x \<and> ntohs (htons y) = y \<and> htons (ntohs y) = y"
  by (simp_all add: ntohl_def htonl_def ntohs_def htons_def swab16_swab16 swab32_swab32)

text \<open>\<open>wsum\<close> in terms of the standard sum, for a buffer on its own and behind a first byte.\<close>

lemma pad_last_step: "pad_last (a # b # r) = a # b # pad_last r"
  by (cases r) (auto simp: pad_last_def)

lemma wsum_rfc1071: "wsum bs = rfc1071_sum (pad_last bs)"
  by (induction bs rule: wsum.induct) (simp_all add: pad_last_step, simp_all add: pad_last_def val16_def)

lemma wsum_shifted_rfc1071: "oc_eq (unat c + 256 * wsum bs) (rfc1071_sum (c # pad_last bs))"
proof (induction bs arbitrary: c rule: wsum.induct)
  case (1 a b r)
  have "oc_eq (unat c + 256 * wsum (a # b # r)) (val16 c a + (unat b + 256 * wsum r))"
    using mod_65535_shift [of "unat c + 256 * unat a + 256 * wsum r" "unat b"] by (auto simp: oc_eq_def val16_def algebra_simps)
  also have "oc_eq \<dots> (val16 c a + rfc1071_sum (b # pad_last r))" by (intro oc_eq_add oc_eq_refl "1.IH")
  finally show ?case by (simp add: pad_last_step)
next
  case (2 a)
  show ?case using mod_65535_shift [of "unat c" "unat a"] by (auto simp: oc_eq_def pad_last_def val16_def)
qed (simp add: pad_last_def)

lemma do_csum_odd_rfc1071:
  assumes "length bs \<le> 65536" "odd addr" "bs \<noteq> []"
  shows "unat (do_csum addr bs) = oc (rfc1071_sum ([0, hd bs, 0] @ pad_last (tl bs)))"
proof -
  have "oc_eq (256 * (unat (hd bs) + wsum (tl bs))) (val16 0 (hd bs) + rfc1071_sum (0 # pad_last (tl bs)))"
    using oc_eq_add [OF oc_eq_refl wsum_shifted_rfc1071 [of 0 "tl bs"], of "val16 0 (hd bs)"] by (simp add: val16_def algebra_simps)
  from oc_cong [OF this] show ?thesis using do_csum_odd [OF assms] by simp
qed

text \<open>
  C4. For every buffer of at most 64 KB the alignment-dependent word loop of \<open>do_csum\<close> gives the sum of RFC 1071, folded to 16 bits, when the
  buffer has an even length and starts at an even address, whatever the address is modulo 4. Otherwise it gives the sum of another
  buffer, the one with a zero byte in front of an odd last byte and, from an odd address, zero bytes around the first byte: the
  code places an odd byte as a big-endian machine has to, while words are read as on a little-endian one.
\<close>

theorem do_csum_ones_complement:
  assumes "length bs \<le> 65536"
  shows "(even addr \<and> even (length bs) \<longrightarrow> unat (do_csum addr bs) = oc (rfc1071_sum bs)) \<and>
    unat (do_csum addr bs) =
      oc (rfc1071_sum (if even addr \<or> bs = [] then pad_last bs else [0, hd bs, 0] @ pad_last (tl bs)))"
proof -
  have "unat (do_csum addr []) = oc (rfc1071_sum (pad_last []))" by (simp add: do_csum_def pad_last_def oc_def)
  then show ?thesis
    using do_csum_even [OF assms, of addr] do_csum_odd_rfc1071 [OF assms, of addr] unfolding wsum_rfc1071
    by (cases "bs = []") (auto simp: pad_last_def)
qed

theorem do_csum_ones_complement_witness:
  "unat (do_csum 2 [1, 2, 3, 4, 5, 255]) = oc (rfc1071_sum [1, 2, 3, 4, 5, 255]) \<and> oc (rfc1071_sum [1, 2, 3, 4, 5, 255]) = 1290 \<and>
   unat (do_csum 3 [1, 2, 3, 4]) = oc (rfc1071_sum [0, 1, 0, 2, 3, 0, 4])"
proof -
  have "length [1, 2, 3, 4, 5, 255 :: u8] \<le> 65536" "length [1, 2, 3, 4 :: u8] \<le> 65536" by simp_all
  from do_csum_ones_complement [OF this(1), of 2] do_csum_ones_complement [OF this(2), of 3]
  show ?thesis by (simp add: pad_last_def) (simp add: oc_def val16_def)
qed

text \<open>The two sums differ for an odd length, and for an odd address.\<close>

lemma odd_not_rfc1071:
  "unat (do_csum 0 [1, 2, 3]) \<noteq> oc (rfc1071_sum [1, 2, 3])" "unat (do_csum 1 [1, 0]) \<noteq> oc (rfc1071_sum [1, 0])"
  by (simp_all add: do_csum_even do_csum_odd oc_def val16_def)

lemma take_put16: "Suc off < n \<Longrightarrow> take n (put16 off h c) = put16 off (take n h) c"
  by (simp add: put16_def take_update_swap)

lemma put16_put16: "put16 off (put16 off h c) d = put16 off h d"
  by (simp add: put16_def list_update_swap)

lemma nth_put16: "i \<noteq> off \<Longrightarrow> i \<noteq> Suc off \<Longrightarrow> put16 off h c ! i = h ! i"
  by (simp add: put16_def)

lemma csum_partial_valid:
  assumes "length bs \<le> 65536"
  shows "csum_partial 0 bs 0 = 0xFFFF \<longleftrightarrow> oc (wsum bs) = 65535"
proof -
  have "unat (csum_partial 0 bs 0) = oc (wsum bs)"
    using assms by (simp add: csum_partial_def unat_do_csum_u32)
  then show ?thesis by (simp add: word_eq_iff_unsigned [where ?'a = nat])
qed

lemma ip_send_check_valid:
  assumes "5 \<le> get_ihl iph" and "get_ihl iph * 4 \<le> length iph"
  shows "csum_partial 0 (take (get_ihl iph * 4) (ip_send_check iph)) 0 = 0xFFFF
    \<and> length (ip_send_check iph) = length iph
    \<and> (\<forall>i. i \<noteq> 10 \<longrightarrow> i \<noteq> 11 \<longrightarrow> ip_send_check iph ! i = iph ! i)"
proof -
  let ?n = "get_ihl iph * 4" and ?c = "ip_fast_csum 0 (set_check iph 0) (get_ihl iph)"
  have g: "get_ihl (set_check iph 0) = get_ihl iph"
    by (simp add: get_ihl_def set_check_def nth_put16)
  have n: "12 \<le> ?n" "?n \<le> 60" using assms(1) by (auto simp: get_ihl_def)
  have s: "ip_send_check iph = set_check iph ?c"
    using g by (simp add: ip_send_check_def Let_def set_check_def put16_put16)
  have t: "take ?n (ip_send_check iph) = set_check (take ?n iph) ?c"
    using n unfolding s by (simp add: set_check_def take_put16)
  have "unat ?c = 65535 - oc (wsum (set_check (take ?n iph) 0))"
    using n by (simp add: unat_ip_fast_csum set_check_def take_put16)
  then have v: "oc (wsum (take ?n (ip_send_check iph))) = 65535"
    using iphdr.complement_verifies [of "take ?n iph" ?c] n assms(2) unfolding t by simp
  then have "csum_partial 0 (take ?n (ip_send_check iph)) 0 = 0xFFFF"
    using n by (simp add: csum_partial_valid)
  then show ?thesis unfolding s by (auto simp: set_check_def nth_put16)
qed

text \<open>
  C6. After \<open>ip_send_check\<close> the header sums to \<^verbatim>\<open>0xFFFF\<close> over its \<open>ihl\<close> words, and no byte outside the check field has
  changed. For a header without options, the only kind the simulator builds, this is the test that \<open>describe\<close> makes on a packet, which
  always sums 20 bytes.
\<close>

theorem ip_send_check_verifies:
  assumes "5 \<le> get_ihl iph" and "get_ihl iph * 4 \<le> length iph"
  shows "csum_partial 0 (take (get_ihl iph * 4) (ip_send_check iph)) 0 = 0xFFFF
    \<and> (get_ihl iph = 5 \<longrightarrow> csum_partial 0 (take 20 (ip_send_check iph)) 0 = 0xFFFF)
    \<and> length (ip_send_check iph) = length iph
    \<and> (\<forall>i. i \<noteq> 10 \<longrightarrow> i \<noteq> 11 \<longrightarrow> ip_send_check iph ! i = iph ! i)"
  using ip_send_check_valid [OF assms] by auto

definition sample_hdr :: "u8 list" where
  "sample_hdr = [0x45, 0, 0, 84, 0, 0, 0x40, 0, 64, 1, 0xB8, 0x54, 192, 168, 0, 2, 192, 168, 1, 2]"

theorem ip_send_check_verifies_witness:
  "get_ihl sample_hdr = 5 \<and> csum_partial 0 (take 20 (ip_send_check sample_hdr)) 0 = 0xFFFF
    \<and> ip_send_check sample_hdr = sample_hdr"
proof -
  have i: "get_ihl sample_hdr = 5" by (simp add: get_ihl_def sample_hdr_def)
  have "length sample_hdr = 20" by (simp add: sample_hdr_def)
  moreover have "ip_send_check sample_hdr = sample_hdr" by code_simp
  ultimately show ?thesis using i ip_send_check_verifies [of sample_hdr] by simp
qed

lemma htons_0x0100: "htons 0x0100 = 1"
  by (simp add: htons_def swab16_def)

lemma wsum_update_low:
  "even off \<Longrightarrow> Suc off < length h \<Longrightarrow> wsum (h[off := v]) + unat (h ! off) = wsum h + unat v"
proof (induction h arbitrary: off rule: wsum.induct)
  case (1 a b r)
  show ?case
  proof (cases off)
    case 0
    then show ?thesis by (simp add: val16_def)
  next
    case (Suc n)
    with "1.prems"(1) obtain m where m: "off = Suc (Suc m)" "even m" by (cases n) auto
    then show ?thesis using "1.IH" [of m] "1.prems"(2) by simp
  qed
qed auto

lemma put16_get_check: "12 \<le> length h \<Longrightarrow> set_check h (get_check h) = h"
proof -
  assume "12 \<le> length h"
  have u: "unat (get_check h) = val16 (h ! 10) (h ! 11)"
    using val16_less [of "h ! 10" "h ! 11"] by (simp add: get_check_def unsigned_ucast_eq take_bit_eq_mod load16_val16 unat_of_nat_u64)
  have "byte0 (get_check h) = h ! 10" "byte1 (get_check h) = h ! 11"
    using unat_u8_less [of "h ! 10"]
    by (simp_all add: word_eq_iff_unsigned [where ?'a = nat] unat_byte0 unat_byte1 u val16_def)
  then show ?thesis by (simp add: set_check_def put16_def)
qed

text \<open>The checksum patch of \<open>ip_forward\<close> adds one modulo 65535.\<close>

lemma check_patch:
  fixes c :: u16
  defines "k \<equiv> ucast c + ucast (htons 0x0100) :: u32"
  shows "unat (ucast (k + (if k \<ge> 0xFFFF then 1 else 0)) :: u16) mod 65535 = (unat c + 1) mod 65535"
proof -
  have uc: "unat (ucast c :: u32) = unat c"
    using unat_u16_less [of c] by (simp add: unsigned_ucast_eq take_bit_eq_mod)
  have k: "unat k = unat c + 1"
    using unat_u16_less [of c] by (simp add: k_def htons_0x0100 unat_add_u32_wrap uc)
  show ?thesis
  proof (cases "unat c < 65534")
    case True
    then have "\<not> k \<ge> 0xFFFF" by (simp add: word_le_nat_alt k)
    then show ?thesis using True by (simp add: unsigned_ucast_eq take_bit_eq_mod k)
  next
    case False
    then have c: "unat c = 65534 \<or> unat c = 65535" using unat_u16_less [of c] by linarith
    then have ge: "k \<ge> 0xFFFF" by (auto simp: word_le_nat_alt k)
    have "unat (k + 1) = unat c + 2" using c by (subst unat_add_u32_wrap) (auto simp: k)
    then show ?thesis using c ge by (auto simp: unsigned_ucast_eq take_bit_eq_mod)
  qed
qed

lemma ip_forward_valid:
  assumes "12 \<le> length iph" and "length iph \<le> 65536" and "csum_partial 0 iph 0 = 0xFFFF" and "2 \<le> unat (iph ! 8)"
  shows "\<exists>iph'. ip_forward_hdr iph = Some iph' \<and> csum_partial 0 iph' 0 = 0xFFFF \<and> unat (iph' ! 8) = unat (iph ! 8) - 1"
proof -
  let ?ttl = "iph ! 8 - 1"
  let ?h = "iph[8 := ?ttl]" and ?c = "get_check iph"
  let ?k = "ucast ?c + ucast (htons 0x0100) :: u32"
  let ?c' = "ucast (?k + (if ?k \<ge> 0xFFFF then 1 else 0)) :: u16"
  have ttl: "unat ?ttl = unat (iph ! 8) - 1" "?ttl \<noteq> 0"
    using assms(4) by (auto simp: unat_minus_one word_eq_iff_unsigned [where ?'a = nat])
  have "get_check ?h = ?c" by (simp add: get_check_def)
  then have f: "ip_forward_hdr iph = Some (set_check ?h ?c')"
    using ttl(2) by (simp add: ip_forward_hdr_def Let_def)
  have upd: "set_check ?h 0 = (set_check iph 0)[8 := ?ttl]" "set_check iph 0 ! 8 = iph ! 8"
    by (simp_all add: set_check_def put16_def list_update_swap)
  have w: "wsum (set_check ?h 0) + 1 = wsum (set_check iph 0)"
    using wsum_update_low [of 8 "set_check iph 0" ?ttl] assms(1,4) ttl(1) upd by (simp add: set_check_def)
  have "wsum (set_check iph 0) \<ge> unat (iph ! 8)"
    using wsum_update_low [of 8 "set_check iph 0" 0] assms(1) upd(2) by (simp add: set_check_def)
  then have pos: "wsum (set_check ?h 0) \<noteq> 0" using w assms(4) by linarith
  have "(wsum (set_check ?h 0) + unat ?c') mod 65535 = (wsum (set_check ?h 0) + (unat ?c + 1)) mod 65535"
    using check_patch [of ?c] by (intro mod_add_cong) auto
  also have "wsum (set_check ?h 0) + (unat ?c + 1) = wsum (set_check iph 0) + unat ?c"
    using w by linarith
  finally have "oc (wsum (set_check ?h ?c')) = 65535"
    using assms(1-3) pos by (intro iphdr.incremental_verifies [of iph ?h ?c ?c'])
      (simp_all add: put16_get_check csum_partial_valid)
  then show ?thesis
    using f assms(1,2) ttl(1) by (simp add: csum_partial_valid set_check_def nth_put16)
qed

text \<open>
  C5. Forwarding keeps a correct header correct: if the header verifies and its time to live is at least 2,
  \<open>ip_forward\<close> decrements the time to live by one and its incremental patch of the check field leaves a
  header that verifies.
\<close>

theorem ip_forward_keeps_checksum:
  assumes "12 \<le> length iph" and "length iph \<le> 65536" and "csum_partial 0 iph 0 = 0xFFFF" and "2 \<le> unat (iph ! 8)"
  shows "\<exists>iph'. ip_forward_hdr iph = Some iph' \<and> csum_partial 0 iph' 0 = 0xFFFF \<and> unat (iph' ! 8) = unat (iph ! 8) - 1"
  using assms by (rule ip_forward_valid)

theorem ip_forward_keeps_checksum_witness:
  "csum_partial 0 sample_hdr 0 = 0xFFFF
    \<and> (\<exists>h. ip_forward_hdr sample_hdr = Some h \<and> csum_partial 0 h 0 = 0xFFFF \<and> unat (h ! 8) = 63)"
proof -
  have l: "length sample_hdr = 20" "unat (sample_hdr ! 8) = 64" by (simp_all add: sample_hdr_def)
  moreover have "csum_partial 0 sample_hdr 0 = 0xFFFF" by code_simp
  ultimately show ?thesis using ip_forward_keeps_checksum [of sample_hdr] by simp
qed

lemma length_pseudo_header [simp]: "length (pseudo_header saddr daddr proto len) = 12"
  by (simp add: pseudo_header_def bytes32_def)

lemma unat_csum_tcpudp_magic:
  "unat (csum_tcpudp_magic saddr daddr len proto c) = 65535 - oc (wsum (pseudo_header saddr daddr proto len) + unat c)"
proof -
  have "oc_eq (unat (csum_tcpudp_nofold saddr daddr len proto c)) (wsum (pseudo_header saddr daddr proto len) + unat c)"
    unfolding csum_tcpudp_nofold_def by (rule csum_partial_oc) simp_all
  then show ?thesis
    by (simp add: csum_tcpudp_magic_def unat_csum_fold oc_cong)
qed

lemma unat_segment_sum:
  assumes "length h \<le> 65536"
  shows "unat (ucast (csum_fold (csum_partial 0 h (csum_partial 0 (pseudo_header saddr daddr proto len) 0))) :: u16)
    = 65535 - oc (wsum (pseudo_header saddr daddr proto len) + wsum h)"
proof -
  let ?p = "pseudo_header saddr daddr proto len"
  have "oc_eq (unat (csum_partial 0 h (csum_partial 0 ?p 0))) (wsum h + unat (csum_partial 0 ?p 0))"
    using assms by (intro csum_partial_oc) simp_all
  also have "oc_eq \<dots> (wsum h + wsum ?p)"
    using csum_partial_oc [of ?p 0 0] by (intro oc_eq_add) simp_all
  finally show ?thesis
    by (simp add: unat_csum_fold oc_cong add.commute)
qed

text \<open>The sum of a segment with its pseudo header is minus zero exactly when \<open>describe\<close> accepts it.\<close>

lemma csum_tcpudp_magic_valid:
  assumes "length h \<le> 65536" and "oc (wsum (pseudo_header saddr daddr proto len) + wsum h) = 65535"
  shows "csum_tcpudp_magic saddr daddr len proto (csum_partial 0 h 0) = 0"
proof -
  have "oc_eq (wsum (pseudo_header saddr daddr proto len) + unat (csum_partial 0 h 0))
      (wsum (pseudo_header saddr daddr proto len) + wsum h)"
    using assms(1) csum_partial_oc [of h 0 0] by (intro oc_eq_add) simp_all
  with assms(2) have "unat (csum_tcpudp_magic saddr daddr len proto (csum_partial 0 h 0)) = 0"
    by (simp add: unat_csum_tcpudp_magic oc_cong)
  then show ?thesis by (simp add: unat_eq_0)
qed

text \<open>A packet with time to live 0 is not dropped: the field wraps to 255 and the patched checksum is wrong.\<close>

lemma ip_forward_ttl_zero:
  "map_option (\<lambda>h. (h ! 8, csum_partial 0 h 0)) (ip_forward_hdr (ip_send_check (0x45 # replicate 19 0))) = Some (255, 256)"
  by code_simp

end
