(* ===== verification/Gen_Ip.thy ===== *)
theory Gen_Ip
  imports Failtest Checksum
begin

text \<open>
  The packet generator, tools/gen_ip.c and tools/gen_err.c: numbers, addresses and escaped data from the command line,
  the transport headers, and the IP packet around them. Data printed by the escaping of core/tui.c is shown to be
  read back unchanged, and every generated packet to have valid checksums and lengths.
\<close>

section \<open>Results of a parser\<close>

text \<open>
  A parser returns a value, gives up with -1 after logging a message (\<open>Bad None\<close> where nothing is logged), or does
  something undefined in C, such as leaving a buffer.
\<close>

datatype 'a parse = Done 'a | Bad "string option" | Crash string

fun bind_parse :: "'a parse \<Rightarrow> ('a \<Rightarrow> 'b parse) \<Rightarrow> 'b parse" where
  "bind_parse (Done a) f = f a"
| "bind_parse (Bad m) f = Bad m"
| "bind_parse (Crash m) f = Crash m"

definition complain :: "string \<Rightarrow> 'a parse \<Rightarrow> 'a parse" where
  "complain msg p = (case p of Bad None \<Rightarrow> Bad (Some msg) | _ \<Rightarrow> p)"

lemma bind_parse_Done: "bind_parse m f = Done b \<longleftrightarrow> (\<exists>a. m = Done a \<and> f a = Done b)"
  by (cases m) auto

section \<open>Numbers\<close>

definition hex_digit :: "char \<Rightarrow> bool" where
  "hex_digit c \<longleftrightarrow> hex_value c \<noteq> None"

definition value_in :: "int \<Rightarrow> string \<Rightarrow> int" where
  "value_in b ds = foldl (\<lambda>n c. b * n + the (hex_value c)) 0 ds"

definition base_digit :: "int \<Rightarrow> char \<Rightarrow> bool" where
  "base_digit b c \<longleftrightarrow> (case hex_value c of None \<Rightarrow> False | Some d \<Rightarrow> d < b)"

text \<open>
  What \<^verbatim>\<open>strtoul\<close> and \<^verbatim>\<open>strtol\<close> recognise in base 0 or 16: a prefix 0x with a digit behind it means hexadecimal, and in
  base 0 a leading 0 means octal. The result is the sign, the number and the rest of the string.
\<close>

definition scan_number :: "int \<Rightarrow> string \<Rightarrow> (bool \<times> int \<times> string) option" where
  "scan_number base s =
     (let (neg, t) = split_sign (dropWhile isspace s);
          hex = (take 2 t \<in> {''0x'', ''0X''} \<and> drop 2 t \<noteq> [] \<and> base_digit 16 (t ! 2));
          b = (if hex then 16 else if base \<noteq> 0 then base else if t \<noteq> [] \<and> hd t = CHR ''0'' then 8 else 10);
          t = (if hex then drop 2 t else t);
          ds = takeWhile (base_digit b) t
      in if ds = [] then None else Some (neg, value_in b ds, dropWhile (base_digit b) t))"

definition strtoul0 :: "string \<Rightarrow> u64 \<times> string" where
  "strtoul0 s =
     (case scan_number 0 s of
        None \<Rightarrow> (0, s)
      | Some (neg, n, rest) \<Rightarrow>
          (if n > 18446744073709551615 then - 1 else if neg then - word_of_int n else word_of_int n, rest))"

definition strtol16 :: "string \<Rightarrow> int \<times> string" where
  "strtol16 s =
     (case scan_number 16 s of
        None \<Rightarrow> (0, s)
      | Some (neg, n, rest) \<Rightarrow> (clamp_long (if neg then - n else n), rest))"

definition string_to_number :: "string \<Rightarrow> u32 \<Rightarrow> u32 \<Rightarrow> u32" where
  "string_to_number s mn mx =
     (let (n, rest) = strtoul0 s;
          number = ucast n :: u32
      in if rest = [] \<and> rest \<noteq> s then
           if mn \<le> number \<and> number \<le> mx then number else - 1
         else - 1)"

definition chain_protos :: "(string \<times> u32) list" where
  "chain_protos = [(''all'', 0), (''tcp'', 6), (''udp'', 17), (''icmp'', 1)]"

definition parse_protocol :: "string \<Rightarrow> u32 parse" where
  "parse_protocol s =
     (let proto = string_to_number s 0 65535 in
      if proto \<noteq> - 1 then Done (proto AND 0xFFFF)
      else
        case find (\<lambda>(n, _). strcaseeq s n) chain_protos of
          Some (_, num) \<Rightarrow> Done num
        | None \<Rightarrow> Bad (Some (''gen_ip: unknown protocol '' @ CHR 0x60 # s @ CHR 0x27 # '' specified'')))"

text \<open>
  \<open>dotted_to_addr\<close> copies at most 19 characters into a buffer of 20 that is not cleared, so that nothing
  terminates the copy of a string of 19 or more. Its callers report the failure.
\<close>

fun dotted_bytes :: "nat \<Rightarrow> string \<Rightarrow> u32 list option" where
  "dotted_bytes 0 s = (let n = string_to_number s 0 255 in if n = - 1 then None else Some [n])"
| "dotted_bytes (Suc k) s =
     (let p = takeWhile (\<lambda>c. c \<noteq> CHR ''.'') s;
          n = string_to_number p 0 255
      in if length p = length s \<or> n = - 1 then None
         else map_option (\<lambda>r. n # r) (dotted_bytes k (drop (Suc (length p)) s)))"

definition dotted_to_addr :: "string \<Rightarrow> u32 parse" where
  "dotted_to_addr dotted =
     (if length dotted \<ge> 19 then Crash ''unterminated buffer''
      else
        case dotted_bytes 3 dotted of
          Some [a, b, c, d] \<Rightarrow> Done (a + 256 * b + 65536 * c + 16777216 * d)
        | _ \<Rightarrow> Bad None)"

section \<open>Escaped data\<close>

text \<open>
  \<^verbatim>\<open>sscanf(str, "%02x", &c)\<close>: blanks are skipped, then at most two characters make up a number with an optional sign;
  0x alone is no number.
\<close>

definition hexchar :: "string \<Rightarrow> char option" where
  "hexchar str =
     (let t = dropWhile isspace str;
          (neg, t') = split_sign t;
          w = (if t' = t then 2 else 1);
          ds = take w (takeWhile hex_digit t')
      in if ds = [] \<or> take w t' \<in> {''0x'', ''0X''} then None
         else Some (char_of ((if neg then - value_in 16 ds else value_in 16 ds) mod 256)))"

text \<open>The characters stored in \<^verbatim>\<open>dst\<close>; \<^verbatim>\<open>i += 2\<close> behind a lone digit jumps over the terminator.\<close>

function copy_printable :: "string \<Rightarrow> string parse" where
  "copy_printable [] = Done []"
| "copy_printable (c # s) =
     (if c \<noteq> CHR 0x5C then bind_parse (copy_printable s) (\<lambda>r. Done (c # r))
      else
        case s of
          [] \<Rightarrow> Bad None
        | e # s' \<Rightarrow>
            if e = CHR ''n'' then bind_parse (copy_printable s') (\<lambda>r. Done (CHR 0x0A # r))
            else if e = CHR ''r'' then bind_parse (copy_printable s') (\<lambda>r. Done (CHR 0x0D # r))
            else if e = CHR ''t'' then bind_parse (copy_printable s') (\<lambda>r. Done (CHR 0x09 # r))
            else if e = CHR ''0'' then bind_parse (copy_printable s') (\<lambda>r. Done (CHR 0x00 # r))
            else if e = CHR 0x5C then bind_parse (copy_printable s') (\<lambda>r. Done (CHR 0x5C # r))
            else if e = CHR ''x'' then
              (case hexchar s' of
                 None \<Rightarrow> Bad None
               | Some d \<Rightarrow>
                   if length s' < 2 then Crash ''read past the end of the string''
                   else bind_parse (copy_printable (drop 2 s')) (\<lambda>r. Done (d # r)))
            else Bad None)"
  by pat_completeness auto
termination
  by (relation "measure length") auto

fun gen_ip_data_length :: "bool \<Rightarrow> string list \<Rightarrow> nat parse" where
  "gen_ip_data_length first [] = Done 0"
| "gen_ip_data_length first (d # ds) =
     bind_parse (copy_printable d) (\<lambda>r.
       if length r > 1024 then Crash ''buffer overrun''
       else
         bind_parse (gen_ip_data_length False ds) (\<lambda>n. Done (length r + (if first then 0 else 1) + n)))"

text \<open>The loops over the DATA arguments: the words joined by blanks.\<close>

fun data_string :: "string list \<Rightarrow> string parse" where
  "data_string [] = Done []"
| "data_string [a] = copy_printable a"
| "data_string (a # b # r) =
     bind_parse (copy_printable a) (\<lambda>x. bind_parse (data_string (b # r)) (\<lambda>y. Done (x @ CHR '' '' # y)))"

section \<open>The packet\<close>

text \<open>
  The IP header is the list of its 20 bytes; the union behind it is memory of 65536 bytes, as a function from offsets.
  Its accesses are the functions below; those whose bounds depend on the input are checked where they are made.
\<close>

type_synonym umem = "nat \<Rightarrow> u8"

record packet =
  pad :: u16
  h_dest :: "u8 list"
  h_source :: "u8 list"
  h_proto :: u16
  iph :: "u8 list"
  raw_data :: umem

definition put_mem :: "nat \<Rightarrow> u8 list \<Rightarrow> umem \<Rightarrow> umem" where
  "put_mem off bs u = (\<lambda>i. if off \<le> i \<and> i < off + length bs then bs ! (i - off) else u i)"

definition bytes16 :: "u16 \<Rightarrow> u8 list" where
  "bytes16 w = [byte0 w, byte1 w]"

definition mem_bytes :: "nat \<Rightarrow> umem \<Rightarrow> u8 list" where
  "mem_bytes n u = map u [0..<n]"

definition quoted :: "string \<Rightarrow> string \<Rightarrow> string" where
  "quoted msg s = msg @ CHR 0x60 # s @ [CHR 0x27]"

definition nth_arg :: "string list \<Rightarrow> nat \<Rightarrow> string option" where
  "nth_arg args k = (if k < length args then Some (args ! k) else None)"

text \<open>The pattern \<^verbatim>\<open>!args[k] || (n = string_to_number(args[k], 0, max)) < 0\<close>, for a maximum of at most 65535.\<close>

definition need_number :: "string \<Rightarrow> string option \<Rightarrow> u32 \<Rightarrow> u32 parse" where
  "need_number msg arg mx =
     (case arg of
        None \<Rightarrow> Bad (Some (quoted msg (show_option None)))
      | Some a \<Rightarrow>
          let n = string_to_number a 0 mx in
          if n = - 1 then Bad (Some (quoted msg a)) else Done n)"

definition parse_header :: "string \<Rightarrow> string \<Rightarrow> string \<Rightarrow> string \<Rightarrow> u32 \<Rightarrow> u32 \<Rightarrow> (nat \<times> u32 \<times> u32 \<times> u8 list) parse" where
  "parse_header srcip dstip lenstr protocol tos ttl =
     (let len = string_to_number lenstr 0 65535 in
      if len = - 1 then Bad (Some (quoted ''gen_ip: bad length '' lenstr @ '' specified''))
      else
        bind_parse (parse_protocol protocol) (\<lambda>proto.
        bind_parse (complain (quoted ''Bad src address '' srcip) (dotted_to_addr srcip)) (\<lambda>saddr.
        bind_parse (complain (quoted ''Bad dst address '' dstip) (dotted_to_addr dstip)) (\<lambda>daddr.
          Done (unat len, saddr, daddr,
            [0x45, ucast tos, 0, 0, 0, 0, 0, 0, ucast ttl, ucast proto, 0, 0] @ bytes32 saddr @ bytes32 daddr)))))"

definition ICMP_PARAMETERPROB :: u32 where "ICMP_PARAMETERPROB = 12"

definition parse_icmp :: "nat \<Rightarrow> string list \<Rightarrow> umem \<Rightarrow> (nat \<times> umem) parse" where
  "parse_icmp datalen args u =
     bind_parse (need_number ''Bad icmp type: '' (nth_arg args 0) 255) (\<lambda>type.
     bind_parse (need_number ''Bad icmp code: '' (nth_arg args 1) 255) (\<lambda>code.
       let u = put_mem 0 [ucast type, ucast code, 0, 0] u in
       bind_parse
         (if type = 0 \<or> type = 8 then
            bind_parse (need_number ''Bad icmp id: '' (nth_arg args 2) 255) (\<lambda>ident.
            bind_parse (need_number ''Bad icmp seq: '' (nth_arg args 3) 255) (\<lambda>sequence.
              if nth_arg args 4 \<noteq> None then Bad (Some (quoted ''Extra argument: '' (show_option (nth_arg args 3))))
              else Done (put_mem 4 (bytes16 (htons (ucast ident)) @ bytes16 (htons (ucast sequence))) u)))
          else if type = ICMP_PARAMETERPROB then
            bind_parse (need_number ''Bad param problem: '' (nth_arg args 2) 255) (\<lambda>param.
              Done (put_mem 4 (bytes32 (htonl (push_bit 24 param))) u))
          else if nth_arg args 2 \<noteq> None then Bad (Some (quoted ''Extra argument: '' (show_option (nth_arg args 2))))
          else Done u)
         (\<lambda>u. let len = 8 + datalen in
              if int len > 65536 then Crash ''read past the packet''
              else Done (len, put_mem 2 (bytes16 (ucast (csum_fold (csum_partial 0 (mem_bytes len u) 0)))) u))))"

text \<open>The copy of the data arguments behind the header, with the terminating null byte.\<close>

definition copy_data :: "nat \<Rightarrow> string list \<Rightarrow> umem \<Rightarrow> umem parse" where
  "copy_data off args u =
     bind_parse (data_string args) (\<lambda>d.
       if int (off + length d + 1) > 65536 then Crash ''data does not fit the packet''
       else Done (put_mem off (map of_char d @ [0]) u))"

definition append_flag :: "string option \<Rightarrow> string \<Rightarrow> string option" where
  "append_flag flags s = Some ((case flags of None \<Rightarrow> [] | Some f \<Rightarrow> f) @ s)"

definition transport_sum :: "u32 \<Rightarrow> u32 \<Rightarrow> u8 \<Rightarrow> u16 \<Rightarrow> umem \<Rightarrow> u16" where
  "transport_sum saddr daddr proto len u =
     ucast (csum_fold (csum_partial 0 (mem_bytes (unat len) u) (csum_partial 0 (pseudo_header saddr daddr proto len) 0)))"

text \<open>The end of \<open>parse_udp\<close>: the header in front of the data, with the checksum.\<close>

definition udp_datagram :: "u32 \<Rightarrow> u32 \<Rightarrow> u16 \<Rightarrow> u8 list \<Rightarrow> umem \<Rightarrow> nat \<times> umem" where
  "udp_datagram saddr daddr udplen hdr u =
     (let u = put_mem 0 hdr u
      in (unat udplen, put_mem 6 (bytes16 (transport_sum saddr daddr 17 udplen u)) u))"

definition parse_udp :: "u32 \<Rightarrow> u32 \<Rightarrow> nat \<Rightarrow> string list \<Rightarrow> string option \<Rightarrow> umem \<Rightarrow> (nat \<times> umem \<times> string option) parse" where
  "parse_udp saddr daddr datalen args flags u =
     (let udplen = word_of_nat (8 + datalen) :: u16 in
      bind_parse (need_number ''Bad udp spt: '' (nth_arg args 0) 65535) (\<lambda>spt.
      bind_parse (need_number ''Bad udp dpt: '' (nth_arg args 1) 65535) (\<lambda>dpt.
      bind_parse
        (if nth_arg args 2 = Some ''DATA'' then
           bind_parse (copy_data 8 (drop 3 args) u) (\<lambda>u. Done (u, append_flag flags ''data''))
         else if nth_arg args 2 \<noteq> None then Bad (Some (quoted ''Extra argument: '' (show_option (nth_arg args 3))))
         else Done (u, flags))
        (\<lambda>(u, flags).
           let (len, u) = udp_datagram saddr daddr udplen
                 (bytes16 (htons (ucast spt)) @ bytes16 (htons (ucast dpt)) @ bytes16 (htons udplen) @ [0, 0]) u
           in Done (len, u, flags)))))"

definition tcp_flags :: "(string \<times> u8) list" where
  "tcp_flags = [(''SYN'', 0x02), (''ACK'', 0x10), (''RST'', 0x04), (''FIN'', 0x01), (''CWR'', 0x80), (''ECE'', 0x40),
     (''PSH'', 0x08), (''URG'', 0x20)]"

function parse_flags_loop :: "string \<Rightarrow> u8 \<Rightarrow> u8 parse" where
  "parse_flags_loop s flags =
     (case find (\<lambda>(name, _). strstarts s name) tcp_flags of
        None \<Rightarrow> Bad (Some (quoted ''Bad tcp flags '' s))
      | Some (_, b) \<Rightarrow>
          (case drop 3 s of
             [] \<Rightarrow> Done (flags OR b)
           | c # rest \<Rightarrow>
               if c = CHR ''/'' then parse_flags_loop rest (flags OR b)
               else Bad (Some (quoted ''Bad tcp flags '' rest))))"
  by pat_completeness auto
termination
  by (relation "measure (\<lambda>(s, _). length s)") (auto dest!: arg_cong [where f = length])

definition parse_flags :: "string \<Rightarrow> u8 parse" where
  "parse_flags s = (if s = ''NONE'' then Done 0 else parse_flags_loop s 0)"

text \<open>\<^verbatim>\<open>strtok(opts, ",")\<close> yields the non-empty pieces, and ends the first one in place: the message shows only that one.\<close>

definition parse_tcp_options :: "string \<Rightarrow> u8 list parse" where
  "parse_tcp_options opts =
     (let toks = filter (\<lambda>t. t \<noteq> []) (split_on CHR '','' opts);
          options = map (\<lambda>t. word_of_int (fst (strtol10 t)) :: u8) toks
      in if length toks > 40 then
           Bad (Some (''Too many TCP options: '' @ takeWhile (\<lambda>c. c = CHR '','') opts @ hd toks))
         else if length toks mod 4 \<noteq> 0 then Bad (Some ''TCP options must pad to 4 bytes'')
         else Done options)"

text \<open>The number is unsigned, so the test \<^verbatim>\<open>i < 0\<close> never holds and a bad number becomes 0xFFFFFFFF.\<close>

definition parse_tcpnumber :: "string \<Rightarrow> u32" where
  "parse_tcpnumber number = htonl (string_to_number number 0 0xFFFFFFFF)"

text \<open>An optional argument such as \<^verbatim>\<open>SEQ=\<close> at the front: what follows the prefix, and the arguments behind it.\<close>

definition prefixed :: "string \<Rightarrow> string list \<Rightarrow> (string option \<times> string list)" where
  "prefixed prefix args =
     (case args of
        a # r \<Rightarrow> if strstarts a prefix then (Some (drop (length prefix) a), r) else (None, args)
      | [] \<Rightarrow> (None, []))"

definition tcp_header :: "u32 \<Rightarrow> u32 \<Rightarrow> u32 \<Rightarrow> u32 \<Rightarrow> nat \<Rightarrow> u8 \<Rightarrow> u32 \<Rightarrow> u8 list" where
  "tcp_header spt dpt seqno ackno doff flags window =
     bytes16 (htons (ucast spt)) @ bytes16 (htons (ucast dpt)) @ bytes32 seqno @ bytes32 ackno @
     [push_bit 4 (word_of_nat doff), flags] @ bytes16 (htons (ucast window)) @ [0, 0, 0, 0]"

text \<open>The end of \<open>parse_tcp\<close>: the header in front of options and data, with the checksum.\<close>

definition tcp_segment :: "u32 \<Rightarrow> u32 \<Rightarrow> nat \<Rightarrow> nat \<Rightarrow> u8 list \<Rightarrow> umem \<Rightarrow> nat \<times> umem" where
  "tcp_segment saddr daddr datalen doff hdr u =
     (let u = put_mem 0 hdr u;
          tcplen = word_of_nat (doff * 4 + datalen) :: u16
      in (unat tcplen, put_mem 16 (bytes16 (transport_sum saddr daddr 6 tcplen u)) u))"

definition parse_tcp :: "u32 \<Rightarrow> u32 \<Rightarrow> nat \<Rightarrow> string list \<Rightarrow> string option \<Rightarrow> umem \<Rightarrow> (nat \<times> umem \<times> string option) parse" where
  "parse_tcp saddr daddr datalen args flags u =
     bind_parse (need_number ''Bad tcp spt: '' (nth_arg args 0) 65535) (\<lambda>spt.
     bind_parse (need_number ''Bad tcp dpt: '' (nth_arg args 1) 65535) (\<lambda>dpt.
     bind_parse (case nth_arg args 2 of None \<Rightarrow> Bad (Some ''No tcp flags were set!'') | Some f \<Rightarrow> parse_flags f) (\<lambda>tcpflags.
       let (s, args) = prefixed ''SEQ='' (drop 3 args);
           seqno = (case s of None \<Rightarrow> 0 | Some n \<Rightarrow> parse_tcpnumber n);
           (a, args) = prefixed ''ACK='' args;
           ackno = (case a of None \<Rightarrow> 0 | Some n \<Rightarrow> parse_tcpnumber n);
           (w, args) = prefixed ''WIN='' args
       in
       bind_parse (case w of None \<Rightarrow> Done 0
                   | Some n \<Rightarrow> let v = string_to_number n 0 65535 in
                             if v = - 1 then Bad (Some (quoted ''Bad tcp window: '' (''WIN='' @ n))) else Done v) (\<lambda>window.
         let (opt, args) = prefixed ''OPT='' args in
         bind_parse (case opt of None \<Rightarrow> Done [] | Some n \<Rightarrow> parse_tcp_options n) (\<lambda>options.
           let doff = (20 + length options) div 4;
               u = put_mem 20 options u
           in
           bind_parse
             (if nth_arg args 0 = Some ''DATA'' then
                bind_parse (copy_data (doff * 4) (drop 1 args) u) (\<lambda>u. Done (u, append_flag flags ''data''))
              else if nth_arg args 0 \<noteq> None then Bad (Some (quoted ''Extra argument: '' (show_option (nth_arg args 0))))
              else Done (u, flags))
             (\<lambda>(u, flags).
                let (len, u) = tcp_segment saddr daddr datalen doff (tcp_header spt dpt seqno ackno doff tcpflags window) u
                in Done (len, u, flags)))))))"

fun mac_bytes :: "nat \<Rightarrow> string \<Rightarrow> u8 list option" where
  "mac_bytes 0 s = Some []"
| "mac_bytes (Suc k) s =
     (let (number, rest) = strtol16 s in
      if length s = length rest + 2 \<and> 0 \<le> number \<and> number \<le> 255
      then map_option (\<lambda>r. word_of_int number # r) (mac_bytes k (drop 3 s)) else None)"

definition parse_mac :: "string \<Rightarrow> u8 list option" where
  "parse_mac s = (if length s \<noteq> 17 then None else mac_bytes 6 s)"

section \<open>The options in front of the addresses\<close>

record gen_opts =
  fragoff :: u16
  fraglen :: u16
  df :: bool
  mf :: bool
  ce :: bool
  mac :: "u8 list"
  tos :: u32
  ttl :: u32
  flags_of :: "string option"

definition no_opts :: "string option \<Rightarrow> gen_opts" where
  "no_opts flags = \<lparr>fragoff = 0, fraglen = 0, df = False, mf = False, ce = False, mac = replicate 6 0, tos = 0, ttl = 255,
     flags_of = flags\<rparr>"

text \<open>
  Every option is taken only while more than five arguments are left: \<^verbatim>\<open>argv++\<close> drops the front of the list, so that
  \<^verbatim>\<open>argv[1]\<close> is always the next argument. \<open>take_option\<close> is the pattern with a prefix, \<open>take_flag\<close> the one with a word.
\<close>

type_synonym 'o args = "'o \<times> string list"

definition take_option :: "string \<Rightarrow> (string \<Rightarrow> gen_opts \<Rightarrow> gen_opts parse) \<Rightarrow> gen_opts args \<Rightarrow> gen_opts args parse" where
  "take_option prefix f = (\<lambda>(opts, argv).
     if length argv > 5 \<and> strstarts (argv ! 1) prefix
     then bind_parse (f (drop (length prefix) (argv ! 1)) opts) (\<lambda>opts. Done (opts, tl argv))
     else Done (opts, argv))"

definition take_flag :: "string \<Rightarrow> (gen_opts \<Rightarrow> gen_opts) \<Rightarrow> gen_opts args \<Rightarrow> gen_opts args parse" where
  "take_flag name f = (\<lambda>(opts, argv).
     if length argv > 5 \<and> argv ! 1 = name then Done (f opts, tl argv) else Done (opts, argv))"

definition parse_frag :: "string \<Rightarrow> gen_opts \<Rightarrow> gen_opts parse" where
  "parse_frag s opts =
     (let off = ucast (atoi s) :: u16;
          rest = dropWhile (\<lambda>c. c \<noteq> CHR '','') s
      in if off > 65528 \<or> off mod 8 \<noteq> 0 then Bad (Some (quoted [] s @ '' not >= 8, <= 65528, mod 8 = 0''))
         else if rest = [] then Bad (Some ''Need FRAG=<offset>,<length>'')
         else
           let len = ucast (atoi (tl rest)) :: u16 in
           if len < 1 then Bad (Some (quoted [] (tl rest) @ '' bad fraglen''))
           else Done (opts\<lparr>fragoff := off, fraglen := len\<rparr>))"

definition parse_mac_option :: "string \<Rightarrow> gen_opts \<Rightarrow> gen_opts parse" where
  "parse_mac_option s opts =
     (case parse_mac s of None \<Rightarrow> Bad (Some ''Invalid mac address.'') | Some m \<Rightarrow> Done (opts\<lparr>mac := m\<rparr>))"

definition parse_tos :: "string \<Rightarrow> gen_opts \<Rightarrow> gen_opts parse" where
  "parse_tos s opts =
     (let n = atoi s in
      if sint n < 0 \<or> sint n > 255 then Bad (Some (quoted [] s @ '' not >= 0, <= 255''))
      else Done (opts\<lparr>tos := n, flags_of := append_flag (flags_of opts) ''tos''\<rparr>))"

definition parse_dscp :: "string \<Rightarrow> gen_opts \<Rightarrow> gen_opts parse" where
  "parse_dscp s opts =
     (if (case flags_of opts of None \<Rightarrow> False | Some f \<Rightarrow> strstr f ''tos'' \<noteq> None) then
        Bad (Some (''You can'' @ CHR 0x27 # ''t use both '' @ CHR 0x27 # ''TOS='' @ CHR 0x27 # '' and '' @ CHR 0x27 # ''DSCP='' @ [CHR 0x27]))
      else
        let n = string_to_number s 0 0x3f in
        if n = - 1 then Bad (Some (quoted [] s @ '' not >=0, <= 63''))
        else Done (opts\<lparr>tos := push_bit 2 n AND 0xfc, flags_of := append_flag (flags_of opts) ''dscp''\<rparr>))"

text \<open>The message for a bad \<^verbatim>\<open>ECT=\<close> is printed from one character too far.\<close>

definition parse_ect :: "string \<Rightarrow> gen_opts \<Rightarrow> gen_opts parse" where
  "parse_ect s opts =
     (let n = string_to_number s 0 3 in
      if n = - 1 then
        (if s = [] then Crash ''read past the end of the string'' else Bad (Some (quoted [] (tl s) @ '' not >=0, <= 3'')))
      else Done (opts\<lparr>tos := tos opts OR n, flags_of := append_flag (flags_of opts) ''ect''\<rparr>))"

definition parse_ttl :: "string \<Rightarrow> gen_opts \<Rightarrow> gen_opts parse" where
  "parse_ttl s opts =
     (let n = atoi s in
      if sint n < 0 \<or> sint n > 255 then Bad (Some (quoted [] s @ '' not >= 0, <= 255''))
      else Done (opts\<lparr>ttl := n, flags_of := append_flag (flags_of opts) ''ttl''\<rparr>))"

definition parse_options :: "string option \<Rightarrow> string list \<Rightarrow> gen_opts args parse" where
  "parse_options flags argv =
     bind_parse (take_option ''FRAG='' parse_frag (no_opts flags, argv)) (\<lambda>a.
     bind_parse (take_flag ''DF'' (df_update (\<lambda>_. True)) a) (\<lambda>a.
     bind_parse (take_flag ''MF'' (mf_update (\<lambda>_. True)) a) (\<lambda>a.
     bind_parse (take_flag ''CE'' (ce_update (\<lambda>_. True)) a) (\<lambda>a.
     bind_parse (take_option ''MAC='' parse_mac_option a) (\<lambda>a.
     bind_parse (take_option ''TOS='' parse_tos a) (\<lambda>a.
     bind_parse (take_option ''DSCP='' parse_dscp a) (\<lambda>a.
     bind_parse (take_option ''ECT='' parse_ect a) (\<lambda>a.
     take_option ''TTL='' parse_ttl a))))))))"

section \<open>The whole packet\<close>

definition IPPROTO_ICMP :: u8 where "IPPROTO_ICMP = 1"
definition IPPROTO_TCP :: u8 where "IPPROTO_TCP = 6"
definition IPPROTO_UDP :: u8 where "IPPROTO_UDP = 17"

definition parse_transport ::
    "u8 \<Rightarrow> u32 \<Rightarrow> u32 \<Rightarrow> nat \<Rightarrow> string list \<Rightarrow> string option \<Rightarrow> umem \<Rightarrow> (nat \<times> umem \<times> string option) parse" where
  "parse_transport protocol saddr daddr datalen args flags u =
     (if protocol = IPPROTO_ICMP then bind_parse (parse_icmp datalen args u) (\<lambda>(len, u). Done (len, u, flags))
      else if protocol = IPPROTO_TCP then parse_tcp saddr daddr datalen args flags u
      else if protocol = IPPROTO_UDP then parse_udp saddr daddr datalen args flags u
      else if args \<noteq> [] then Bad (Some ''Extra args for unknown protocol'')
      else Done (datalen, u, flags))"

definition frag_field :: "gen_opts \<Rightarrow> u16" where
  "frag_field opts =
     (if fraglen opts \<noteq> 0 then htons (fragoff opts div 8) else 0)
     OR (if df opts then htons 0x4000 else 0) OR (if mf opts then htons 0x2000 else 0) OR (if ce opts then htons 0x8000 else 0)"

definition move_fragment :: "gen_opts \<Rightarrow> nat \<Rightarrow> umem \<Rightarrow> (nat \<times> umem) parse" where
  "move_fragment opts len u =
     (let off = unat (fragoff opts); n = unat (fraglen opts) in
      if n = 0 then Done (len, u)
      else if int (off + n) > 65536 then Crash ''read past the packet''
      else Done (n, \<lambda>i. if i < n then u (off + i) else u i))"

definition ip_check :: "u8 list \<Rightarrow> u8 list" where
  "ip_check h = set_check h (ucast (NOT (csum_partial 0 h 0)))"

definition parse_packet :: "string list \<Rightarrow> string option \<Rightarrow> (packet \<times> string option) parse" where
  "parse_packet argv flags =
     (if length argv < 5 then Bad None
      else
        bind_parse (parse_options flags argv) (\<lambda>(opts, argv).
        bind_parse (parse_header (argv ! 1) (argv ! 2) (argv ! 3) (argv ! 4) (tos opts) (ttl opts)) (\<lambda>(datalen, saddr, daddr, h).
        bind_parse (parse_transport (h ! 9) saddr daddr datalen (drop 5 argv) (flags_of opts) (\<lambda>_. 0)) (\<lambda>(len, u, flags).
        bind_parse (move_fragment opts len u) (\<lambda>(len, u).
          let h = put16 2 h (htons (word_of_nat (20 + len)));
              h = put16 6 h (frag_field opts)
          in Done (\<lparr>pad = 0, h_dest = mac opts, h_source = mac opts, h_proto = htons 0x0800, iph = ip_check h, raw_data = u\<rparr>,
                   flags))))))"

text \<open>
  tools/gen_err.c. The number of bytes quoted is an \<^verbatim>\<open>int\<close>: a bad \<^verbatim>\<open>LEN=\<close> makes it -1, which passes the only test and
  asks \<^verbatim>\<open>memcpy\<close> for 2^64 - 1 bytes.
\<close>

definition tot_len :: "packet \<Rightarrow> nat" where
  "tot_len p = unat (iph p ! 2) * 256 + unat (iph p ! 3)"

definition packet_bytes :: "nat \<Rightarrow> packet \<Rightarrow> u8 list" where
  "packet_bytes n p = take n (iph p @ mem_bytes (n - 20) (raw_data p))"

definition create_icmp :: "packet \<Rightarrow> int \<Rightarrow> string \<Rightarrow> string \<Rightarrow> string \<Rightarrow> packet parse" where
  "create_icmp orig origlen srcip typestr codestr =
     (let len = word_of_int (28 + origlen) :: u16 in
      if origlen > int (tot_len orig) then
        Bad (Some (''gen_err len '' @ show_nat (nat origlen) @ '' greater than packet '' @ show_nat (tot_len orig)))
      else
        bind_parse (complain (quoted ''Bad src address '' srcip) (dotted_to_addr srcip)) (\<lambda>saddr.
          let h = ip_check ([0x45, 0] @ bytes16 (htons len) @ [0, 0, 0, 0, 255, IPPROTO_ICMP, 0, 0] @ bytes32 saddr @ take 4 (drop 12 (iph orig)))
          in
          bind_parse (need_number ''Bad icmp type: '' (Some typestr) 255) (\<lambda>type.
          bind_parse (need_number ''Bad icmp code: '' (Some codestr) 255) (\<lambda>code.
            if origlen < 0 \<or> origlen > 65528 then Crash ''copy past the packet''
            else
              let u = put_mem 8 (packet_bytes (nat origlen) orig) (put_mem 0 [ucast type, ucast code, 0, 0, 0, 0, 0, 0] (\<lambda>_. 0));
                  c = ucast (NOT (csum_partial 0 (mem_bytes (unat len - 20) u) 0)) :: u16
              in Done \<lparr>pad = 0, h_dest = replicate 6 0, h_source = replicate 6 0, h_proto = htons 0x0800, iph = h,
                       raw_data = put_mem 2 (bytes16 c) u\<rparr>))))"

section \<open>Data that was escaped is read back\<close>

lemma hexbuf_digit:
  assumes "k < 16"
  shows "hex_value (hexbuf ! k) = Some (int k)" "\<not> isspace (hexbuf ! k)" "hexbuf ! k \<notin> {CHR ''-'', CHR ''+'', CHR ''x'', CHR ''X''}"
proof -
  have "\<forall>k \<in> set [0..<16]. hex_value (hexbuf ! k) = Some (int k) \<and> \<not> isspace (hexbuf ! k) \<and>
      hexbuf ! k \<noteq> CHR ''-'' \<and> hexbuf ! k \<noteq> CHR ''+'' \<and> hexbuf ! k \<noteq> CHR ''x'' \<and> hexbuf ! k \<noteq> CHR ''X''"
    by code_simp
  with assms show "hex_value (hexbuf ! k) = Some (int k)" "\<not> isspace (hexbuf ! k)"
    "hexbuf ! k \<notin> {CHR ''-'', CHR ''+'', CHR ''x'', CHR ''X''}" by simp_all
qed

lemma hexchar_hexbuf:
  assumes "a < 16" "b < 16"
  shows "hexchar (hexbuf ! a # hexbuf ! b # r) = Some (char_of (16 * int a + int b))"
  using hexbuf_digit [OF assms(1)] hexbuf_digit [OF assms(2)] assms
  by (simp add: hexchar_def hex_digit_def value_in_def)

lemma nibbles:
  fixes n :: u8
  shows "unat (drop_bit 4 n AND 0xf) < 16" "unat (n AND 0xf) < 16"
    "16 * int (unat (drop_bit 4 n AND 0xf)) + int (unat (n AND 0xf)) = uint n"
proof -
  have "unat n < 256" by (rule unat_u8_less)
  have m: "x AND 0xf = take_bit 4 x" for x :: u8 by (simp add: take_bit_eq_mask mask_eq_exp_minus_1)
  have lo: "unat (n AND 0xf) = unat n mod 16" by (simp add: m take_bit_eq_mod unat_mod)
  have hi: "unat (drop_bit 4 n AND 0xf) = unat n div 16"
    using \<open>unat n < 256\<close> by (simp add: m take_bit_eq_mod drop_bit_eq_div unat_mod unat_div)
  show "unat (drop_bit 4 n AND 0xf) < 16" "unat (n AND 0xf) < 16" using hi lo \<open>unat n < 256\<close> by simp_all
  show "16 * int (unat (drop_bit 4 n AND 0xf)) + int (unat (n AND 0xf)) = uint n"
    unfolding hi lo by (simp add: zdiv_int zmod_int)
qed

lemma copy_printable_escape_char: "copy_printable (escape_char c @ r) = bind_parse (copy_printable r) (\<lambda>s. Done (c # s))"
proof -
  let ?n = "of_char c :: u8"
  have "?n = word_of_int (of_char c)" by (rule of_int_of_char [symmetric])
  then have "uint ?n = take_bit 8 (of_char c)" by (simp add: uint_word_of_int_eq)
  then have "char_of (uint ?n) = c" by (simp add: char_of_take_bit_eq)
  moreover have "copy_printable (CHR 0x5C # CHR ''x'' # hexbuf ! unat (drop_bit 4 ?n AND 0xf) # hexbuf ! unat (?n AND 0xf) # r)
      = bind_parse (copy_printable r) (\<lambda>s. Done (char_of (uint ?n) # s))"
    using nibbles [of ?n] by (simp add: hexchar_hexbuf)
  ultimately show ?thesis by (simp add: escape_char_def Let_def)
qed

text \<open>
  C24. What \<open>escape\<close> of core/tui.c makes of any output, for instance of a command in backquotes, is read back
  by \<open>copy_printable\<close> as exactly the original bytes.
\<close>

theorem copy_printable_escape: "copy_printable (escape s) = Done s"
  by (induction s) (simp_all add: escape_def copy_printable_escape_char)


section \<open>The checksums of a generated packet\<close>

lemma mem_bytes_length [simp]: "length (mem_bytes n u) = n"
  by (simp add: mem_bytes_def)

lemma mem_bytes_put16:
  "off + 2 \<le> n \<Longrightarrow> mem_bytes n (put_mem off (bytes16 w) u) = put16 off (mem_bytes n u) w"
  by (rule nth_equalityI) (auto simp: mem_bytes_def put_mem_def bytes16_def put16_def nth_list_update less_Suc_eq)

lemma put16_same:
  assumes "off + 2 \<le> length h" "h ! off = 0" "h ! Suc off = 0"
  shows "put16 off h 0 = h"
proof -
  have "byte0 0 = 0" "byte1 0 = 0" by (simp_all add: byte0_def byte1_def)
  with assms show ?thesis unfolding put16_def by (metis list_update_id)
qed

lemma mem_bytes_cleared: "off + 2 \<le> n \<Longrightarrow> u off = 0 \<Longrightarrow> u (Suc off) = 0 \<Longrightarrow> put16 off (mem_bytes n u) 0 = mem_bytes n u"
  by (rule put16_same) (simp_all add: mem_bytes_def)

lemma unat_not_csum:
  assumes "length bs \<le> 65536"
  shows "unat (ucast (NOT (csum_partial 0 bs 0)) :: u16) = 65535 - oc (wsum bs)"
proof -
  have "ucast (NOT x) = (NOT (ucast x) :: u16)" for x :: u32
    by (rule bit_word_eqI) (simp add: bit_simps)
  moreover have "unat (csum_partial 0 bs 0) = oc (wsum bs)"
    using assms by (simp add: csum_partial_def unat_do_csum_u32)
  ultimately show ?thesis
    using oc_le [of "wsum bs"] by (simp add: unat_not_u16 unsigned_ucast_eq take_bit_eq_mod)
qed

lemma ip_check_valid:
  assumes "length h = 20" "h ! 10 = 0" "h ! 11 = 0"
  shows "csum_partial 0 (ip_check h) 0 = 0xFFFF"
proof -
  have "set_check h 0 = h" using assms unfolding set_check_def by (intro put16_same) simp_all
  then have "oc (wsum (ip_check h)) = 65535"
    unfolding ip_check_def using assms by (intro iphdr.complement_verifies) (simp_all add: unat_not_csum)
  then show ?thesis using assms by (simp add: csum_partial_valid ip_check_def set_check_def)
qed

text \<open>The check field of ICMP, whichever way the complement is taken, and those of UDP and TCP.\<close>

lemma icmp_check_valid:
  assumes "8 \<le> n" "n \<le> 65536" "u 2 = 0" "u 3 = 0" "unat c = 65535 - oc (wsum (mem_bytes n u))"
  shows "csum_partial 0 (mem_bytes n (put_mem 2 (bytes16 c) u)) 0 = 0xFFFF"
proof -
  have "put16 2 (mem_bytes n u) 0 = mem_bytes n u" using assms by (intro mem_bytes_cleared) simp_all
  then have "oc (wsum (put16 2 (mem_bytes n u) c)) = 65535"
    using assms by (intro icmphdr.complement_verifies) simp_all
  then show ?thesis using assms(1,2) by (simp add: csum_partial_valid mem_bytes_put16)
qed

lemma transport_sum_valid:
  assumes "even off" "off + 2 \<le> unat len" "u off = 0" "u (Suc off) = 0"
  shows "csum_tcpudp_magic saddr daddr len proto
    (csum_partial 0 (mem_bytes (unat len) (put_mem off (bytes16 (transport_sum saddr daddr proto len u)) u)) 0) = 0"
proof -
  let ?n = "unat len" and ?c = "transport_sum saddr daddr proto len u" and ?p = "wsum (pseudo_header saddr daddr proto len)"
  have z: "put16 off (mem_bytes ?n u) 0 = mem_bytes ?n u" using assms by (intro mem_bytes_cleared) simp_all
  have n: "?n \<le> 65536" using unat_u16_less [of len] by simp
  then have "unat ?c = 65535 - oc (?p + wsum (mem_bytes ?n u))" by (simp add: transport_sum_def unat_segment_sum)
  then have "oc (?p + wsum (put16 off (mem_bytes ?n u) ?c)) = 65535"
    using segment.complement_verifies [of off "(?p, mem_bytes ?n u)" ?c] assms(1,2) z by simp
  then show ?thesis using n assms(2) by (intro csum_tcpudp_magic_valid) (simp_all add: mem_bytes_put16)
qed

lemma unat_len: "n < 65536 \<Longrightarrow> unat (word_of_nat n :: u16) = n"
  by (simp add: unsigned_of_nat take_bit_eq_mod)

lemma put_mem_at: "off \<le> i \<Longrightarrow> i < off + length bs \<Longrightarrow> put_mem off bs u i = bs ! (i - off)"
  by (simp add: put_mem_def)

lemma parse_udp_valid:
  assumes "parse_udp saddr daddr datalen args flags u = Done (n, u', flags')" "datalen \<le> 65475"
  shows "n = 8 + datalen" "csum_tcpudp_magic saddr daddr (word_of_nat n) 17 (csum_partial 0 (mem_bytes n u') 0) = 0"
proof -
  let ?len = "word_of_nat (8 + datalen) :: u16"
  have len: "unat ?len = 8 + datalen" using assms(2) by (intro unat_len) simp
  from assms(1) obtain spt dpt v where n: "n = unat ?len"
    and u': "u' = (let w = put_mem 0 (bytes16 spt @ bytes16 dpt @ bytes16 (htons ?len) @ [0, 0]) v
                  in put_mem 6 (bytes16 (transport_sum saddr daddr 17 ?len w)) w)"
    by (auto simp: parse_udp_def udp_datagram_def bind_parse_Done Let_def)
  show "n = 8 + datalen" using n len by simp
  have "put_mem 0 (bytes16 spt @ bytes16 dpt @ bytes16 (htons ?len) @ [0, 0]) v i = 0" if "i = 6 \<or> i = Suc 6" for i
    using that by (auto simp: put_mem_at bytes16_def)
  then show "csum_tcpudp_magic saddr daddr (word_of_nat n) 17 (csum_partial 0 (mem_bytes n u') 0) = 0"
    unfolding u' n Let_def using len transport_sum_valid [of 6 ?len] by simp
qed

lemma tcp_header_length: "length (tcp_header spt dpt sq ak doff fl win) = 20"
  by (simp add: tcp_header_def bytes16_def bytes32_def)

lemma parse_tcp_options_length:
  "(case opt of None \<Rightarrow> Done [] | Some s \<Rightarrow> parse_tcp_options s) = Done opts \<Longrightarrow> length opts \<le> 40"
  by (auto simp: parse_tcp_options_def Let_def split: if_splits option.splits)

lemma parse_tcp_segment:
  assumes "parse_tcp saddr daddr datalen args flags u = Done (n, u', flags')"
  shows "\<exists>(os :: u8 list) spt dpt sq ak fl win v doff. length os \<le> 40 \<and> doff = (20 + length os) div 4 \<and>
    n = fst (tcp_segment saddr daddr datalen doff (tcp_header spt dpt sq ak doff fl win) v) \<and>
    u' = snd (tcp_segment saddr daddr datalen doff (tcp_header spt dpt sq ak doff fl win) v)"
  using assms by (clarsimp simp: parse_tcp_def bind_parse_Done Let_def case_prod_beta dest!: parse_tcp_options_length)
    (intro exI conjI, assumption, rule refl, rule refl)

lemma parse_tcp_valid:
  assumes "parse_tcp saddr daddr datalen args flags u = Done (n, u', flags')" "datalen \<le> 65475"
  shows "20 + datalen \<le> n" "n \<le> 60 + datalen"
    "csum_tcpudp_magic saddr daddr (word_of_nat n) 6 (csum_partial 0 (mem_bytes n u') 0) = 0"
proof -
  obtain os :: "u8 list" and spt dpt sq ak fl win v doff where "length os \<le> 40" "doff = (20 + length os) div 4"
    and s: "n = fst (tcp_segment saddr daddr datalen doff (tcp_header spt dpt sq ak doff fl win) v)"
      "u' = snd (tcp_segment saddr daddr datalen doff (tcp_header spt dpt sq ak doff fl win) v)"
    using parse_tcp_segment [OF assms(1)] by blast
  then have b: "5 \<le> doff" "doff \<le> 15" by auto
  define len :: u16 where "len = word_of_nat (doff * 4 + datalen)"
  define w where "w = put_mem 0 (tcp_header spt dpt sq ak doff fl win) v"
  have len: "unat len = doff * 4 + datalen" unfolding len_def using assms(2) b by (intro unat_len) simp
  have n: "n = unat len" and u': "u' = put_mem 16 (bytes16 (transport_sum saddr daddr 6 len w)) w"
    using s by (simp_all only: tcp_segment_def Let_def fst_conv snd_conv len_def w_def)
  show "20 + datalen \<le> n" "n \<le> 60 + datalen" using n len b by simp_all
  have m: "word_of_nat n = len" by (simp add: n)
  have "w 16 = 0" "w (Suc 16) = 0"
    by (simp_all add: w_def put_mem_at tcp_header_length) (simp_all add: tcp_header_def bytes16_def bytes32_def)
  then show "csum_tcpudp_magic saddr daddr (word_of_nat n) 6 (csum_partial 0 (mem_bytes n u') 0) = 0"
    using len b transport_sum_valid [of 16 len w saddr daddr 6] unfolding m unfolding n u' by simp
qed

lemma parse_icmp_valid:
  assumes "parse_icmp datalen args u = Done (n, u')"
  shows "n = 8 + datalen" "csum_partial 0 (mem_bytes n u') 0 = 0xFFFF"
proof -
  from assms obtain a b bs v where v: "v = put_mem 0 [a, b, 0, 0] u \<or> v = put_mem 4 bs (put_mem 0 [a, b, 0, 0] u)"
    and n: "n = 8 + datalen" "n \<le> 65536"
    and u': "u' = put_mem 2 (bytes16 (ucast (csum_fold (csum_partial 0 (mem_bytes n v) 0)))) v"
    by (auto simp: parse_icmp_def bind_parse_Done Let_def split: if_splits)
  show "n = 8 + datalen" by (rule n)
  have "v i = 0" if "i = 2 \<or> i = 3" for i using v that by (auto simp: put_mem_def)
  moreover have "oc (unat (csum_partial 0 (mem_bytes n v) 0)) = oc (wsum (mem_bytes n v))"
    using csum_partial_oc [of "mem_bytes n v" 0 0] n by (intro oc_cong) simp
  ultimately show "csum_partial 0 (mem_bytes n u') 0 = 0xFFFF"
    unfolding u' using n by (intro icmp_check_valid) (simp_all add: unat_csum_fold)
qed

text \<open>
  C19. Whatever the arguments, the ICMP message, TCP segment or UDP datagram that \<open>parse_packet\<close> builds passes the
  test \<open>describe\<close> makes on it, as long as the length does not overflow its 16-bit field, and
  the data asked for fit in it.
\<close>

theorem generated_transport_verifies:
  assumes "parse_transport protocol saddr daddr datalen args flags u = Done (len, u', flags')" "datalen \<le> 65475"
    and "protocol \<in> {IPPROTO_ICMP, IPPROTO_TCP, IPPROTO_UDP}"
  shows "datalen + 8 \<le> len \<and> len \<le> datalen + 60 \<and>
    (if protocol = IPPROTO_ICMP then csum_partial 0 (mem_bytes len u') 0 = 0xFFFF
     else csum_tcpudp_magic saddr daddr (word_of_nat len) protocol (csum_partial 0 (mem_bytes len u') 0) = 0)"
  using assms parse_udp_valid [of saddr daddr datalen args flags u len u' flags']
    parse_tcp_valid [of saddr daddr datalen args flags u len u' flags'] parse_icmp_valid [of datalen args u len u']
  by (auto simp: parse_transport_def bind_parse_Done IPPROTO_ICMP_def IPPROTO_TCP_def IPPROTO_UDP_def)

theorem generated_transport_verifies_witness:
  "\<exists>len u fl. parse_transport IPPROTO_TCP 1 2 4
       [''1024'', ''80'', ''SYN/ACK'', ''SEQ=7'', ''OPT=1,1,1,1'', ''DATA'', ''ab'', ''c''] None (\<lambda>_. 0) = Done (len, u, fl) \<and>
     len = 28 \<and> csum_tcpudp_magic 1 2 28 IPPROTO_TCP (csum_partial 0 (mem_bytes 28 u) 0) = 0"
proof -
  let ?p = "parse_transport IPPROTO_TCP 1 2 4
       [''1024'', ''80'', ''SYN/ACK'', ''SEQ=7'', ''OPT=1,1,1,1'', ''DATA'', ''ab'', ''c''] None (\<lambda>_. 0)"
  have "case ?p of Done (len, _, _) \<Rightarrow> len = 28 | _ \<Rightarrow> False" by code_simp
  then obtain u fl where p: "?p = Done (28, u, fl)" by (auto split: parse.splits)
  moreover have "IPPROTO_TCP \<noteq> IPPROTO_ICMP" by (simp add: IPPROTO_TCP_def IPPROTO_ICMP_def)
  ultimately show ?thesis using generated_transport_verifies [OF p] by simp
qed

lemma parse_header_shape:
  assumes "parse_header s d l pr ts tt = Done (n, saddr, daddr, h)"
  shows "length h = 20 \<and> h ! 0 = 0x45 \<and> h ! 10 = 0 \<and> h ! 11 = 0 \<and> drop 12 h = bytes32 saddr @ bytes32 daddr"
  using assms by (auto simp: parse_header_def bind_parse_Done Let_def bytes32_def split: if_splits)

definition opts_ok :: "gen_opts args \<Rightarrow> bool" where
  "opts_ok a \<longleftrightarrow> length (mac (fst a)) = 6 \<and> 5 \<le> length (snd a)"

lemma take_option_ok:
  assumes "take_option prefix f a = Done b" "opts_ok a"
    and "\<And>s opts opts'. f s opts = Done opts' \<Longrightarrow> length (mac opts) = 6 \<Longrightarrow> length (mac opts') = 6"
  shows "opts_ok b"
  using assms by (auto simp: take_option_def opts_ok_def bind_parse_Done split: prod.splits if_splits)

lemma take_flag_ok:
  assumes "take_flag name f a = Done b" "opts_ok a" "\<And>opts. mac (f opts) = mac opts"
  shows "opts_ok b"
  using assms by (auto simp: take_flag_def opts_ok_def split: prod.splits if_splits)

lemma mac_bytes_length: "mac_bytes k s = Some m \<Longrightarrow> length m = k"
  by (induction k s arbitrary: m rule: mac_bytes.induct) (auto simp: Let_def split: prod.splits if_splits)

lemma option_parsers_mac:
  "parse_frag s opts = Done opts' \<Longrightarrow> mac opts' = mac opts"
  "parse_tos s opts = Done opts' \<Longrightarrow> mac opts' = mac opts"
  "parse_dscp s opts = Done opts' \<Longrightarrow> mac opts' = mac opts"
  "parse_ect s opts = Done opts' \<Longrightarrow> mac opts' = mac opts"
  "parse_ttl s opts = Done opts' \<Longrightarrow> mac opts' = mac opts"
  "parse_mac_option s opts = Done opts' \<Longrightarrow> length (mac opts') = 6"
  by (auto simp: parse_frag_def parse_tos_def parse_dscp_def parse_ect_def parse_ttl_def parse_mac_option_def parse_mac_def
      Let_def mac_bytes_length split: if_splits option.splits)

lemma parse_options_ok:
  assumes "parse_options flags argv = Done a" "5 \<le> length argv"
  shows "opts_ok a"
proof -
  have "opts_ok (no_opts flags, argv)" using assms(2) by (simp add: opts_ok_def no_opts_def)
  with assms(1) show ?thesis
    unfolding parse_options_def bind_parse_Done
    by (elim exE conjE) (assumption | erule take_option_ok take_flag_ok | simp add: option_parsers_mac)+
qed

lemma ip_check_nth: "i \<noteq> 10 \<Longrightarrow> i \<noteq> 11 \<Longrightarrow> ip_check h ! i = h ! i"
  by (simp add: ip_check_def set_check_def nth_put16)

lemma parse_packet_ok:
  assumes "parse_packet argv flags = Done (p, flags')"
  shows "length (iph p) = 20 \<and> get_ihl (iph p) = 5 \<and> csum_partial 0 (iph p) 0 = 0xFFFF
    \<and> length (h_dest p) = 6 \<and> h_source p = h_dest p \<and> ntohs (h_proto p) = 0x0800"
proof -
  from assms obtain opts argv' n saddr daddr h len where argc: "5 \<le> length argv"
    and opts: "parse_options flags argv = Done (opts, argv')"
    and h: "parse_header (argv' ! 1) (argv' ! 2) (argv' ! 3) (argv' ! 4) (tos opts) (ttl opts) = Done (n, saddr, daddr, h)"
    and p: "iph p = ip_check (put16 6 (put16 2 h len) (frag_field opts))"
      "h_dest p = mac opts" "h_source p = mac opts" "h_proto p = htons 0x0800"
    by (auto simp: parse_packet_def bind_parse_Done Let_def split: if_splits)
  note s = parse_header_shape [OF h]
  have "csum_partial 0 (iph p) 0 = 0xFFFF"
    unfolding p(1) using s by (intro ip_check_valid) (simp_all add: nth_put16)
  moreover have "length (iph p) = 20" "get_ihl (iph p) = 5"
    using s by (simp_all add: p(1) ip_check_nth nth_put16 get_ihl_def) (simp add: ip_check_def set_check_def)
  moreover have "length (mac opts) = 6" using parse_options_ok [OF opts argc] by (simp add: opts_ok_def)
  ultimately show ?thesis by (simp add: p swab16_swab16 ntohs_def htons_def)
qed

text \<open>
  C21. Every packet that \<open>parse_packet\<close> accepts is well formed, fragments included: a header of 20 bytes that says so, whose
  checksum verifies, with the type of IP in the Ethernet header and addresses of six bytes there.
\<close>

theorem parse_packet_well_formed:
  assumes "parse_packet argv flags = Done (p, flags')"
  shows "length (iph p) = 20 \<and> get_ihl (iph p) = 5 \<and> csum_partial 0 (iph p) 0 = 0xFFFF
    \<and> length (h_dest p) = 6 \<and> h_source p = h_dest p \<and> ntohs (h_proto p) = 0x0800"
  using assms by (rule parse_packet_ok)

theorem parse_packet_well_formed_witness:
  "\<exists>p fl. parse_packet [''gen_ip'', ''FRAG=8,8'', ''MAC=00:01:02:0a:0b:0c'', ''TTL=3'', ''10.0.0.1'', ''10.0.0.2'', ''16'', ''47''] None
       = Done (p, fl) \<and> length (iph p) = 20 \<and> csum_partial 0 (iph p) 0 = 0xFFFF"
proof -
  let ?p = "parse_packet [''gen_ip'', ''FRAG=8,8'', ''MAC=00:01:02:0a:0b:0c'', ''TTL=3'', ''10.0.0.1'', ''10.0.0.2'', ''16'', ''47''] None"
  have "case ?p of Done _ \<Rightarrow> True | _ \<Rightarrow> False" by code_simp
  then obtain p fl where "?p = Done (p, fl)" by (auto split: parse.splits)
  then show ?thesis using parse_packet_well_formed by blast
qed

section \<open>The ICMP errors of gen\_err\<close>

lemma mem_bytes_put_mem:
  "mem_bytes (off + length bs) (put_mem off bs u) = mem_bytes off u @ bs"
  by (rule nth_equalityI) (auto simp: mem_bytes_def put_mem_def nth_append)

lemma packet_bytes_length: "length (iph p) = 20 \<Longrightarrow> length (packet_bytes n p) = n"
  by (simp add: packet_bytes_def)

lemma unat_swab16: "unat (swab16 x) = unat (byte0 x) * 256 + unat (byte1 x)"
proof -
  have "byte0 (swab16 x) = byte1 x" "byte1 (swab16 x) = byte0 x"
    by (rule bit_word_eqI; auto simp: byte0_def byte1_def bit_swab16 bit_simps)+
  then have "unat (swab16 x) = val16 (byte1 x) (byte0 x)" by (metis val16_bytes)
  then show ?thesis by (simp add: val16_def)
qed

text \<open>
  The error packet \<open>gen_err\<close> builds for a packet goes back to its source, quotes its first bytes, has the length
  of that, and both its checksums verify.
\<close>

theorem create_icmp_quotes:
  assumes "create_icmp orig origlen srcip typestr codestr = Done p" "length (iph orig) = 20" "origlen \<le> 65507"
  shows "take 4 (drop 16 (iph p)) = take 4 (drop 12 (iph orig)) \<and> tot_len p = 28 + nat origlen
    \<and> drop 8 (mem_bytes (8 + nat origlen) (raw_data p)) = packet_bytes (nat origlen) orig
    \<and> csum_partial 0 (iph p) 0 = 0xFFFF \<and> csum_partial 0 (mem_bytes (8 + nat origlen) (raw_data p)) 0 = 0xFFFF"
proof -
  let ?len = "word_of_int (28 + origlen) :: u16"
  from assms(1) obtain saddr ty co where o: "0 \<le> origlen"
    and h: "iph p = ip_check ([0x45, 0] @ bytes16 (htons ?len) @ [0, 0, 0, 0, 255, IPPROTO_ICMP, 0, 0] @ bytes32 saddr @ take 4 (drop 12 (iph orig)))"
    and r: "raw_data p = (let u = put_mem 8 (packet_bytes (nat origlen) orig) (put_mem 0 [ty, co, 0, 0, 0, 0, 0, 0] (\<lambda>_. 0))
               in put_mem 2 (bytes16 (ucast (NOT (csum_partial 0 (mem_bytes (unat ?len - 20) u) 0)))) u)"
    by (auto simp: create_icmp_def bind_parse_Done Let_def split: if_splits)
  have "?len = word_of_nat (28 + nat origlen)" using o by simp
  then have len: "unat ?len = 28 + nat origlen" using assms(3) unat_len [of "28 + nat origlen"] by simp
  define u where "u = put_mem 8 (packet_bytes (nat origlen) orig) (put_mem 0 [ty, co, 0, 0, 0, 0, 0, 0] (\<lambda>_. 0))"
  define c :: u16 where "c = ucast (NOT (csum_partial 0 (mem_bytes (8 + nat origlen) u) 0))"
  have r': "raw_data p = put_mem 2 (bytes16 c) u" using r len by (simp add: u_def c_def Let_def)
  have "u 2 = 0" "u 3 = 0" by (simp_all add: u_def put_mem_def)
  then have "csum_partial 0 (mem_bytes (8 + nat origlen) (raw_data p)) 0 = 0xFFFF"
    unfolding r' using assms(3) by (intro icmp_check_valid) (simp_all add: c_def unat_not_csum)
  moreover have "csum_partial 0 (iph p) 0 = 0xFFFF"
    unfolding h using assms(2) by (intro ip_check_valid) (simp_all add: bytes16_def bytes32_def)
  moreover have "mem_bytes (8 + nat origlen) u = mem_bytes 8 (put_mem 0 [ty, co, 0, 0, 0, 0, 0, 0] (\<lambda>_. 0)) @ packet_bytes (nat origlen) orig"
    unfolding u_def using mem_bytes_put_mem [of 8 "packet_bytes (nat origlen) orig"] assms(2) by (simp add: packet_bytes_length)
  then have "drop 8 (mem_bytes (8 + nat origlen) (raw_data p)) = packet_bytes (nat origlen) orig"
    by (simp add: r' mem_bytes_put16 put16_def drop_update_cancel)
  moreover have "tot_len p = 28 + nat origlen"
    using len unat_swab16 [of "swab16 ?len"] by (simp add: tot_len_def h ip_check_nth bytes16_def htons_def swab16_swab16)
  moreover have "take 4 (drop 16 (iph p)) = take 4 (drop 12 (iph orig))"
    using assms(2) by (simp add: h ip_check_def set_check_def put16_def bytes16_def bytes32_def drop_update_cancel)
  ultimately show ?thesis by blast
qed

definition sample_packet :: packet where
  "sample_packet = \<lparr>pad = 0, h_dest = replicate 6 0, h_source = replicate 6 0, h_proto = htons 0x0800,
     iph = [0x45, 0, 0, 24, 0, 0, 0, 0, 64, 47, 0, 0, 10, 0, 0, 1, 10, 0, 0, 2], raw_data = (\<lambda>i. of_nat i)\<rparr>"

theorem create_icmp_quotes_witness:
  "\<exists>p. create_icmp sample_packet 22 ''10.0.0.3'' ''3'' ''1'' = Done p \<and> tot_len p = 50
    \<and> drop 28 (mem_bytes 30 (raw_data p)) = [0, 1] \<and> csum_partial 0 (mem_bytes 30 (raw_data p)) 0 = 0xFFFF"
proof -
  have "case dotted_to_addr ''10.0.0.3'' of Done _ \<Rightarrow> True | _ \<Rightarrow> False" by code_simp
  moreover have "string_to_number ''3'' 0 255 = 3" "string_to_number ''1'' 0 255 = 1" by code_simp+
  moreover have l: "length (iph sample_packet) = 20" "tot_len sample_packet = 24" by (simp_all add: sample_packet_def tot_len_def)
  ultimately obtain p where p: "create_icmp sample_packet 22 ''10.0.0.3'' ''3'' ''1'' = Done p"
    by (auto simp: create_icmp_def need_number_def complain_def Let_def split: parse.splits)
  note q = create_icmp_quotes [OF p l(1), simplified]
  have "drop 28 (mem_bytes 30 (raw_data p)) = drop 20 (drop 8 (mem_bytes 30 (raw_data p)))" by simp
  also have "\<dots> = drop 20 (packet_bytes 22 sample_packet)" using q by simp
  also have "\<dots> = [0, 1]" by (simp add: packet_bytes_def mem_bytes_def sample_packet_def upt_rec)
  finally show ?thesis using p q by simp
qed

section \<open>Which arguments are accepted\<close>

fun flag_string :: "(string \<times> u8) list \<Rightarrow> string" where
  "flag_string [] = []"
| "flag_string [f] = fst f"
| "flag_string (f # g # fs) = fst f @ CHR ''/'' # flag_string (g # fs)"

declare parse_flags_loop.simps [simp del]

lemma find_flag:
  "find (\<lambda>(name, _). strstarts s name) tcp_flags = Some (n, b) \<longleftrightarrow> (n, b) \<in> set tcp_flags \<and> take 3 s = n"
  unfolding tcp_flags_def strstarts_def by (auto simp: numeral_3_eq_3)

lemma tcp_flags_length: "(n, b) \<in> set tcp_flags \<Longrightarrow> length n = 3"
  by (auto simp: tcp_flags_def)

lemma take3_append: "take 3 s = n \<Longrightarrow> s = n @ drop 3 s"
  by (metis append_take_drop_id)

lemma parse_flags_loop_sound:
  "parse_flags_loop s acc = Done f \<Longrightarrow>
     \<exists>fs. fs \<noteq> [] \<and> set fs \<subseteq> set tcp_flags \<and> s = flag_string fs \<and> f = foldl (\<lambda>a (_, b). a OR b) acc fs"
proof (induction s acc rule: parse_flags_loop.induct)
  case (1 s acc)
  then obtain n b where nb: "(n, b) \<in> set tcp_flags" "take 3 s = n" "find (\<lambda>(name, _). strstarts s name) tcp_flags = Some (n, b)"
    by (subst (asm) (2) parse_flags_loop.simps) (auto simp: find_flag split: option.splits)
  show ?case
  proof (cases "drop 3 s")
    case Nil
    then have "f = acc OR b" using nb(3) 1(2) by (simp add: parse_flags_loop.simps [of s])
    then show ?thesis using Nil nb(1) take3_append [OF nb(2)] by (intro exI [of _ "[(n, b)]"]) simp
  next
    case (Cons c r)
    then have c: "c = CHR ''/''" "parse_flags_loop r (acc OR b) = Done f"
      using nb(3) 1(2) by (simp_all add: parse_flags_loop.simps [of s] split: if_splits)
    then obtain fs where fs: "fs \<noteq> []" "set fs \<subseteq> set tcp_flags" "r = flag_string fs" "f = foldl (\<lambda>a (_, b). a OR b) (acc OR b) fs"
      using "1.IH" [OF nb(3) refl Cons c(1) c(2)] by blast
    then have "s = flag_string ((n, b) # fs)"
      using take3_append [OF nb(2)] Cons c(1) by (cases fs) simp_all
    then show ?thesis using fs nb(1) by (intro exI [of _ "(n, b) # fs"]) simp
  qed
qed

lemma parse_flags_loop_complete:
  "fs \<noteq> [] \<Longrightarrow> set fs \<subseteq> set tcp_flags \<Longrightarrow> parse_flags_loop (flag_string fs) acc = Done (foldl (\<lambda>a (_, b). a OR b) acc fs)"
proof (induction fs arbitrary: acc rule: flag_string.induct)
  case (2 f)
  obtain n b where f: "f = (n, b)" by fastforce
  then have "length n = 3" using "2.prems" tcp_flags_length by auto
  moreover have "find (\<lambda>(name, _). strstarts n name) tcp_flags = Some (n, b)" using 2 f calculation by (simp add: find_flag)
  ultimately show ?case by (simp add: f parse_flags_loop.simps [of n])
next
  case (3 f g fs)
  obtain n b where f: "f = (n, b)" by fastforce
  let ?s = "n @ CHR ''/'' # flag_string (g # fs)"
  have "length n = 3" using "3.prems" f tcp_flags_length by auto
  moreover have "find (\<lambda>(name, _). strstarts ?s name) tcp_flags = Some (n, b)" using 3 f calculation by (simp add: find_flag)
  ultimately show ?case using 3 by (simp add: f parse_flags_loop.simps [of ?s])
qed simp

text \<open>
  C38. \<open>parse_flags\<close> accepts exactly NONE and the names of flags with slashes between them, and refuses every other
  argument with an error; the flags it sets are those named.
\<close>

theorem parse_flags_accepts:
  "parse_flags s = Done f \<longleftrightarrow>
     s = ''NONE'' \<and> f = 0 \<or>
     (\<exists>fs. fs \<noteq> [] \<and> set fs \<subseteq> set tcp_flags \<and> s = flag_string fs \<and> f = foldl (\<lambda>a (_, b). a OR b) 0 fs)"
proof -
  have "''NONE'' \<noteq> flag_string fs" if "fs \<noteq> []" "set fs \<subseteq> set tcp_flags" for fs
  proof
    assume "''NONE'' = flag_string fs"
    moreover have "parse_flags_loop ''NONE'' 0 \<noteq> Done (foldl (\<lambda>a (_, b). a OR b) 0 fs)"
      by (simp add: parse_flags_loop.simps tcp_flags_def strstarts_def)
    ultimately show False using parse_flags_loop_complete [OF that, of 0] by simp
  qed
  then show ?thesis
    unfolding parse_flags_def using parse_flags_loop_sound [of s 0 f] parse_flags_loop_complete [of _ 0] by auto
qed

lemma base_digit_10: "base_digit 10 c \<longleftrightarrow> isdigit c"
proof
  assume "base_digit 10 c"
  then have "48 \<le> (of_char c :: int) \<and> (of_char c :: int) \<le> 57"
    by (auto simp: base_digit_def hex_value_def Let_def split: if_splits)
  moreover have "int (of_char c) = of_char c" by (rule of_nat_of_char)
  ultimately have k: "48 \<le> (of_char c :: nat)" "(of_char c :: nat) < 58" by linarith+
  then have "isdigit (char_of (48 + (of_char c - 48 :: nat)))" by (intro digit_char) simp
  then show "isdigit c" using k by simp
qed (auto simp: isdigit_def base_digit_def hex_value_def)

lemma value_in_10: "list_all isdigit ds \<Longrightarrow> value_in 10 ds = digits_value ds"
proof (induction ds rule: rev_induct)
  case (snoc c ds)
  have "the (hex_value c) = digit_value c"
    using snoc.prems by (auto simp: isdigit_def hex_value_def digit_value_def)
  with snoc show ?case by (simp add: value_in_def digits_value_def)
qed (simp add: value_in_def digits_value_def)

lemma hd_show_nat: "0 < n \<Longrightarrow> hd (show_nat n) \<noteq> CHR ''0''"
proof (induction n rule: show_nat.induct)
  case (1 n)
  show ?case
  proof (cases "n < 10")
    case True
    with 1(2) have "n \<in> {1, 2, 3, 4, 5, 6, 7, 8, 9}" by auto
    then show ?thesis by (elim insertE) (simp_all add: show_nat.simps digit_chars)
  next
    case False
    then show ?thesis using 1(1) show_nat_digits [of "n div 10"] by (simp add: show_nat.simps [of n])
  qed
qed

lemma scan_number_show: "scan_number 0 (show_nat n) = Some (False, int n, [])"
proof (cases "n = 0")
  case True
  have "scan_number 0 ''0'' = Some (False, 0, [])" by code_simp
  then show ?thesis using True by (simp add: show_nat.simps digit_chars)
next
  case False
  have d: "list_all isdigit (show_nat n)" "show_nat n \<noteq> []" "digits_value (show_nat n) = int n"
    using show_nat_digits by auto
  then obtain c cs where c: "show_nat n = c # cs" "isdigit c" "c \<noteq> CHR ''0''"
    using hd_show_nat [of n] False by (cases "show_nat n") auto
  have "takeWhile isdigit cs = cs" "dropWhile isdigit cs = []" "value_in 10 (c # cs) = int n"
    using d c(1) by (simp_all add: list_all_iff takeWhile_eq_all_conv value_in_10)
  moreover have "base_digit 10 = isdigit" by (intro ext base_digit_10)
  ultimately show ?thesis
    using c isdigit_not [OF c(2)] d by (simp add: scan_number_def takeWhile_eq_all_conv [THEN iffD2])
qed

lemma string_to_number_show:
  assumes "int n < 18446744073709551616"
  shows "string_to_number (show_nat n) mn mx =
    (if mn \<le> word_of_nat n \<and> word_of_nat n \<le> mx then word_of_nat n else - 1)"
proof -
  have "ucast (word_of_int (int n) :: u64) = (word_of_nat n :: u32)"
    by (rule bit_word_eqI) (simp add: bit_simps)
  then show ?thesis
    using assms show_nat_digits [of n] by (auto simp: string_to_number_def strtoul0_def scan_number_show Let_def)
qed

text \<open>
  C39. What \<open>string_to_number\<close> makes of a decimal number: the number if it lies in the range asked for, and -1
  otherwise. The number is first reduced modulo 2^32, so that one too large by a multiple of that is accepted.
\<close>

theorem string_to_number_range:
  assumes "int n < 18446744073709551616"
  shows "string_to_number (show_nat n) mn mx =
    (if mn \<le> word_of_nat n \<and> word_of_nat n \<le> mx then word_of_nat n else - 1)"
  using assms by (rule string_to_number_show)

theorem string_to_number_range_witness:
  "int 300 < 18446744073709551616 \<and> string_to_number (show_nat 300) 0 255 = - 1"
  using string_to_number_range [of 300 0 255] by simp

lemma string_to_number_wraps: "string_to_number ''4294967301'' 0 255 = 5"
  by code_simp

end
