(* ===== verification/Route.thy ===== *)
theory Route
  imports Cstring Checksum
begin

text \<open>
  The routing of core/ipv4/ipv4.c with its cache, and the commands of tools/route.c that edit the table.
  Addresses are \<^verbatim>\<open>u32\<close> in network byte order, as in the code. A device is known by its interface index; a
  cache entry remembers the object it was allocated under, whose destruction removes it. The lemmas show
  that a lookup through the cache gives what a lookup without it would give, which is where the lookup
  functions, the creation of entries and their removal have to agree. The kernel is one without \<^verbatim>\<open>CONFIG_IP_ROUTE_FWMARK\<close>: with that option the mark of
  a packet would be one more part of the key of a cache entry.
\<close>

section \<open>Tables and cache\<close>

record in_ifaddr =
  ifa_local :: u32
  ifa_address :: u32
  ifa_mask :: u32
  ifa_broadcast :: u32

record net_device =
  dname :: string
  ifindex :: int
  ip_ptr :: "in_ifaddr list option"
  rxpackets :: nat
  rxbytes :: nat
  txpackets :: nat
  txbytes :: nat

record ipv4_route =
  rid :: nat
  network :: u32
  netmask :: u32
  interface :: int
  gateway :: u32
  rdestructor :: bool
  rfreed :: bool

record flowi =
  fl4_dst :: u32
  fl4_src :: u32
  iif :: int
  oif :: int
  fl4_tos :: u8

datatype dst_fn = No_fn | Ip_output | Ip_local_deliver | Ip_forward
datatype dev_ref = Loopback_dev | Dev int
datatype owner = Of_device int | Of_route nat

record rtable =
  rt_owner :: owner
  rt_dev :: dev_ref
  rt_output :: dst_fn
  rt_input :: dst_fn
  rt_fl :: flowi
  rt_src :: u32
  rt_dst :: u32
  rt_gateway :: u32
  rt_iif :: int

record ip_state =
  interfaces :: "net_device list"
  routes :: "ipv4_route list"
  rcache :: "rtable list"

fun find_first :: "('a \<Rightarrow> bool) \<Rightarrow> 'a list \<Rightarrow> 'a option" where
  "find_first P [] = None"
| "find_first P (x # xs) = (if P x then Some x else find_first P xs)"

text \<open>The loops over the addresses of all devices, and over the routing table.\<close>

definition find_local :: "u32 \<Rightarrow> ip_state \<Rightarrow> net_device option" where
  "find_local addr st =
     find_first (\<lambda>dev. case ip_ptr dev of None \<Rightarrow> False
                       | Some ifas \<Rightarrow> \<exists>ifa \<in> set ifas. ifa_local ifa = addr) (interfaces st)"

definition find_route :: "u32 \<Rightarrow> ip_state \<Rightarrow> ipv4_route option" where
  "find_route addr st = find_first (\<lambda>r. (addr AND netmask r) = network r) (routes st)"

definition inet_ifa_match :: "u32 \<Rightarrow> in_ifaddr \<Rightarrow> bool" where
  "inet_ifa_match addr ifa \<longleftrightarrow> (addr XOR ifa_address ifa) AND ifa_mask ifa = 0"

fun select_addr :: "u32 \<Rightarrow> in_ifaddr list \<Rightarrow> u32 \<Rightarrow> u32" where
  "select_addr dst [] addr = addr"
| "select_addr dst (ifa # ifas) addr =
     (if dst = 0 \<or> inet_ifa_match dst ifa then ifa_local ifa
      else select_addr dst ifas (if addr = 0 then ifa_local ifa else addr))"

definition inet_select_addr :: "net_device option \<Rightarrow> u32 \<Rightarrow> u32" where
  "inet_select_addr dev dst =
     (case dev of
        None \<Rightarrow> 0
      | Some d \<Rightarrow> (case ip_ptr d of None \<Rightarrow> 0 | Some ifas \<Rightarrow> select_addr dst ifas 0))"

definition dev_by_index :: "int \<Rightarrow> ip_state \<Rightarrow> net_device option" where
  "dev_by_index i st = find_first (\<lambda>d. ifindex d = i) (interfaces st)"

definition RTN_UNICAST :: nat where "RTN_UNICAST = 1"
definition RTN_LOCAL :: nat where "RTN_LOCAL = 2"
definition RTN_BROADCAST :: nat where "RTN_BROADCAST = 3"
definition RTN_MULTICAST :: nat where "RTN_MULTICAST = 5"

text \<open>\<^verbatim>\<open>ZERONET\<close>, \<^verbatim>\<open>BADCLASS\<close> and \<^verbatim>\<open>MULTICAST\<close> on an address in network order.\<close>

definition inet_addr_type :: "u32 \<Rightarrow> ip_state \<Rightarrow> nat" where
  "inet_addr_type addr st =
     (if addr AND htonl 0xff000000 = htonl 0 \<or> addr AND htonl 0xf0000000 = htonl 0xf0000000 then RTN_BROADCAST
      else if addr AND htonl 0xf0000000 = htonl 0xe0000000 then RTN_MULTICAST
      else if find_local addr st \<noteq> None then RTN_LOCAL
      else RTN_UNICAST)"

section \<open>Lookups\<close>

definition local_output_entry :: "net_device \<Rightarrow> flowi \<Rightarrow> rtable" where
  "local_output_entry dev flp =
     \<lparr>rt_owner = Of_device (ifindex dev), rt_dev = Loopback_dev, rt_output = Ip_output,
      rt_input = Ip_local_deliver,
      rt_fl = \<lparr>fl4_dst = fl4_dst flp, fl4_src = fl4_src flp, iif = iif flp, oif = 0, fl4_tos = fl4_tos flp\<rparr>,
      rt_src = fl4_src flp, rt_dst = fl4_dst flp, rt_gateway = fl4_dst flp, rt_iif = iif flp\<rparr>"

definition route_output_entry :: "ip_state \<Rightarrow> ipv4_route \<Rightarrow> flowi \<Rightarrow> rtable" where
  "route_output_entry st r flp =
     \<lparr>rt_owner = Of_route (rid r), rt_dev = Dev (interface r), rt_output = Ip_output, rt_input = No_fn,
      rt_fl = \<lparr>fl4_dst = fl4_dst flp, fl4_src = fl4_src flp, iif = 0, oif = oif flp, fl4_tos = fl4_tos flp\<rparr>,
      rt_src = (if fl4_src flp = 0 then inet_select_addr (dev_by_index (interface r) st) (fl4_dst flp)
                else fl4_src flp),
      rt_dst = fl4_dst flp, rt_gateway = gateway r, rt_iif = 0\<rparr>"

definition ENOMEM_route :: int where "ENOMEM_route = 12"

definition ip_route_output_key :: "bool \<Rightarrow> flowi \<Rightarrow> ip_state \<Rightarrow> int \<times> rtable option \<times> ip_state" where
  "ip_route_output_key should_fail flp st =
     (if should_fail then (- ENOMEM_route, None, st)
      else
        case find_first (\<lambda>rth. fl4_dst (rt_fl rth) = fl4_dst flp \<and> fl4_src (rt_fl rth) = fl4_src flp \<and>
                               iif (rt_fl rth) = 0 \<and> oif (rt_fl rth) = oif flp \<and>
                               fl4_tos (rt_fl rth) = fl4_tos flp) (rcache st) of
          Some rth \<Rightarrow> (0, Some rth, st)
        | None \<Rightarrow>
            (case find_local (fl4_dst flp) st of
               Some dev \<Rightarrow>
                 let rth = local_output_entry dev flp
                 in (0, Some rth, st\<lparr>rcache := rth # rcache st\<rparr>)
             | None \<Rightarrow>
                 (case find_route (fl4_dst flp) st of
                    Some r \<Rightarrow>
                      let rth = route_output_entry st r flp
                      in (0, Some rth, st\<lparr>rcache := rth # rcache st\<rparr>)
                  | None \<Rightarrow> (1, None, st))))"

definition local_input_entry :: "net_device \<Rightarrow> u32 \<Rightarrow> u32 \<Rightarrow> u8 \<Rightarrow> rtable" where
  "local_input_entry dev daddr saddr tos =
     \<lparr>rt_owner = Of_device (ifindex dev), rt_dev = Loopback_dev, rt_output = No_fn, rt_input = Ip_local_deliver,
      rt_fl = \<lparr>fl4_dst = daddr, fl4_src = saddr, iif = ifindex dev, oif = 0, fl4_tos = tos\<rparr>,
      rt_src = saddr, rt_dst = daddr, rt_gateway = daddr, rt_iif = ifindex dev\<rparr>"

definition route_input_entry :: "ipv4_route \<Rightarrow> u32 \<Rightarrow> u32 \<Rightarrow> u8 \<Rightarrow> rtable" where
  "route_input_entry r daddr saddr tos =
     \<lparr>rt_owner = Of_route (rid r), rt_dev = Dev (interface r), rt_output = Ip_output, rt_input = Ip_forward,
      rt_fl = \<lparr>fl4_dst = daddr, fl4_src = saddr, iif = interface r, oif = 0, fl4_tos = tos\<rparr>,
      rt_src = saddr, rt_dst = daddr, rt_gateway = gateway r, rt_iif = interface r\<rparr>"

text \<open>
  \<open>ip_route_input\<close> looks for the address of the packet's header; its callers pass the same address as
  \<^verbatim>\<open>daddr\<close>. The result is the entry it attaches to the packet. A local entry is not put into the cache.
\<close>

definition ip_route_input :: "u32 \<Rightarrow> u32 \<Rightarrow> u32 \<Rightarrow> u8 \<Rightarrow> int \<Rightarrow> ip_state \<Rightarrow> int \<times> rtable option \<times> ip_state" where
  "ip_route_input hdr_daddr daddr saddr tos dev_index st =
     (case find_first (\<lambda>rth. fl4_dst (rt_fl rth) = daddr \<and> fl4_src (rt_fl rth) = saddr \<and>
                             iif (rt_fl rth) = dev_index \<and> oif (rt_fl rth) = 0 \<and>
                             fl4_tos (rt_fl rth) = tos) (rcache st) of
        Some rth \<Rightarrow> (0, Some rth, st)
      | None \<Rightarrow>
          (case find_local hdr_daddr st of
             Some dev \<Rightarrow> (0, Some (local_input_entry dev daddr saddr tos), st)
           | None \<Rightarrow>
               (case find_route hdr_daddr st of
                  Some r \<Rightarrow>
                    let rth = route_input_entry r daddr saddr tos
                    in (0, Some rth, st\<lparr>rcache := rth # rcache st\<rparr>)
                | None \<Rightarrow> (1, None, st))))"

section \<open>Table changes\<close>

text \<open>\<open>destroy_rtable\<close> for every entry allocated under an object that is freed.\<close>

definition drop_entries :: "owner \<Rightarrow> ip_state \<Rightarrow> ip_state" where
  "drop_entries ow st = st\<lparr>rcache := filter (\<lambda>e. rt_owner e \<noteq> ow) (rcache st)\<rparr>"

text \<open>
  Freeing a route: the cache entries allocated under it go with it, and the destructor \<open>destroy_route\<close>, where
  it was set, takes it off the table. Without the destructor the table keeps the freed memory.
\<close>

definition destroy_route :: "nat \<Rightarrow> ipv4_route list \<Rightarrow> ipv4_route list" where
  "destroy_route i rs = filter (\<lambda>r. rid r \<noteq> i) rs"

definition free_route :: "ipv4_route \<Rightarrow> ip_state \<Rightarrow> ip_state" where
  "free_route r st =
     drop_entries (Of_route (rid r))
       (if rdestructor r then st\<lparr>routes := destroy_route (rid r) (routes st)\<rparr>
        else st\<lparr>routes := map (\<lambda>q. if rid q = rid r then q\<lparr>rfreed := True\<rparr> else q) (routes st)\<rparr>)"

definition add_route_for_device :: "nat \<Rightarrow> net_device \<Rightarrow> ip_state \<Rightarrow> ip_state" where
  "add_route_for_device i dev st =
     (case ip_ptr dev of
        Some (ifa # _) \<Rightarrow>
          st\<lparr>routes := routes st @ [\<lparr>rid = i, network = ifa_address ifa AND ifa_mask ifa,
               netmask = ifa_mask ifa, interface = ifindex dev, gateway = ifa_address ifa,
               rdestructor = True, rfreed = False\<rparr>]\<rparr>
      | _ \<Rightarrow> st)"

definition find_matching_route :: "u32 \<Rightarrow> u32 \<Rightarrow> ip_state \<Rightarrow> ipv4_route option" where
  "find_matching_route net nm st = find_first (\<lambda>r. net = network r \<and> nm = netmask r) (routes st)"

definition IFNAMSIZ :: nat where "IFNAMSIZ = 16"

definition interface_by_name :: "string \<Rightarrow> ip_state \<Rightarrow> net_device option" where
  "interface_by_name name st =
     find_first (\<lambda>d. take IFNAMSIZ (dname d) = take IFNAMSIZ name) (interfaces st)"

text \<open>
  tools/route.c: the destination of a route, as \<^verbatim>\<open>a.b.c.d/bits\<close> or with \<^verbatim>\<open>mask\<close>; the number of leading ones
  of a mask is counted with at most 32 steps.
\<close>

fun leading_ones :: "nat \<Rightarrow> u32 \<Rightarrow> nat \<Rightarrow> nat" where
  "leading_ones 0 m maskbits = maskbits"
| "leading_ones (Suc maxbits) m maskbits =
     (if push_bit maskbits m AND 0x80000000 \<noteq> 0 then leading_ones maxbits m (Suc maskbits) else maskbits)"

definition bits_netmask :: "nat \<Rightarrow> u32" where
  "bits_netmask maskbits =
     (if maskbits = 32 then htonl 0xffffffff else htonl (NOT (drop_bit maskbits 0xffffffff)))"

definition get_route_dest :: "string list \<Rightarrow> (u32 \<times> u32) option" where
  "get_route_dest argv =
     (case argv of
        [arg] \<Rightarrow>
          if CHR ''/'' \<in> set arg then
            let addr = takeWhile (\<lambda>c. c \<noteq> CHR ''/'') arg;
                bits = sint (atoi (drop (Suc (length addr)) arg))
            in (case inet_aton addr of
                  None \<Rightarrow> None
                | Some net \<Rightarrow>
                    if bits < 0 \<or> bits > 32 then None
                    else Some (net AND bits_netmask (nat bits), bits_netmask (nat bits)))
          else None
      | [addr, m, maskarg] \<Rightarrow>
          if m = ''mask'' then
            (case inet_aton addr of
               None \<Rightarrow> None
             | Some net \<Rightarrow>
                 (case inet_aton maskarg of
                    None \<Rightarrow> None
                  | Some maskaddr \<Rightarrow>
                      let nm = bits_netmask (leading_ones 32 (ntohl maskaddr) 0)
                      in Some (net AND nm, nm)))
          else None
      | _ \<Rightarrow> None)"

text \<open>
  The route command. A new route gets the identity \<open>i\<close>; its \<^verbatim>\<open>gateway\<close> is not set, so it is whatever the
  memory held (\<open>junk\<close>), and no destructor is set. An access beyond \<^verbatim>\<open>argv\<close> cannot happen: the terminal always
  passes a command name, and \<^verbatim>\<open>argc\<close> is tested.
\<close>

definition route_cmd :: "nat \<Rightarrow> u32 \<Rightarrow> string list \<Rightarrow> ip_state \<Rightarrow> bool \<times> ip_state" where
  "route_cmd i junk argv st =
     (case argv of
        _ # sub # args \<Rightarrow>
          if args = [] \<and> sub = ''print'' then (True, st)
          else if sub = ''add'' then
            if length argv \<noteq> 4 \<and> length argv \<noteq> 6 then (False, st)
            else
              (case get_route_dest (butlast args) of
                 None \<Rightarrow> (False, st)
               | Some (net, nm) \<Rightarrow>
                   if find_matching_route net nm st \<noteq> None then (False, st)
                   else
                     (case interface_by_name (last args) st of
                        None \<Rightarrow> (False, st)
                      | Some dev \<Rightarrow>
                          (True, st\<lparr>routes := \<lparr>rid = i, network = net, netmask = nm, interface = ifindex dev,
                             gateway = junk, rdestructor = False, rfreed = False\<rparr> # routes st\<rparr>)))
          else if sub = ''del'' then
            (case get_route_dest args of
               None \<Rightarrow> (False, st)
             | Some (net, nm) \<Rightarrow>
                 (case find_matching_route net nm st of
                    None \<Rightarrow> (True, st)
                  | Some r \<Rightarrow> (True, free_route r st)))
          else (False, st)
      | _ \<Rightarrow> (True, st))"

section \<open>The cache is transparent\<close>

text \<open>What the two lookups yield when nothing is cached.\<close>

definition output_entry :: "flowi \<Rightarrow> ip_state \<Rightarrow> rtable option" where
  "output_entry flp st =
     (case find_local (fl4_dst flp) st of
        Some dev \<Rightarrow> Some (local_output_entry dev flp)
      | None \<Rightarrow> map_option (\<lambda>r. route_output_entry st r flp) (find_route (fl4_dst flp) st))"

definition input_entry :: "u32 \<Rightarrow> u32 \<Rightarrow> u8 \<Rightarrow> ip_state \<Rightarrow> rtable option" where
  "input_entry daddr saddr tos st =
     (case find_local daddr st of
        Some dev \<Rightarrow> Some (local_input_entry dev daddr saddr tos)
      | None \<Rightarrow> map_option (\<lambda>r. route_input_entry r daddr saddr tos) (find_route daddr st))"

definition entry_ok :: "ip_state \<Rightarrow> rtable \<Rightarrow> bool" where
  "entry_ok st e \<longleftrightarrow>
     (if iif (rt_fl e) = 0 then output_entry (rt_fl e) st = Some e
      else input_entry (fl4_dst (rt_fl e)) (fl4_src (rt_fl e)) (fl4_tos (rt_fl e)) st = Some e)"

definition cache_ok :: "ip_state \<Rightarrow> bool" where
  "cache_ok st \<longleftrightarrow> (\<forall>r \<in> set (routes st). interface r \<noteq> 0) \<and> (\<forall>e \<in> set (rcache st). entry_ok st e)"

lemma find_first_Some: "find_first P xs = Some x \<Longrightarrow> x \<in> set xs \<and> P x"
  by (induction xs) (auto split: if_splits)

lemma find_first_None: "find_first P xs = None \<longleftrightarrow> (\<forall>x \<in> set xs. \<not> P x)"
  by (induction xs) auto

lemma find_first_filter:
  "find_first P xs = Some x \<Longrightarrow> Q x \<Longrightarrow> find_first P (filter Q xs) = Some x"
  by (induction xs) (auto split: if_splits)

lemma lookups_ignore_cache [simp]:
  "find_local a (st\<lparr>rcache := c\<rparr>) = find_local a st" "find_route a (st\<lparr>rcache := c\<rparr>) = find_route a st"
  "dev_by_index i (st\<lparr>rcache := c\<rparr>) = dev_by_index i st"
  by (simp_all add: find_local_def find_route_def dev_by_index_def)

lemma route_output_entry_cache [simp]:
  "route_output_entry (st\<lparr>rcache := c\<rparr>) r flp = route_output_entry st r flp"
  by (simp add: route_output_entry_def)

lemma entries_ignore_cache [simp]:
  "output_entry flp (st\<lparr>rcache := c\<rparr>) = output_entry flp st"
  "input_entry d s t (st\<lparr>rcache := c\<rparr>) = input_entry d s t st"
  by (simp_all add: output_entry_def input_entry_def split: option.split)

lemma entry_ok_ignore_cache [simp]: "entry_ok (st\<lparr>rcache := c\<rparr>) e = entry_ok st e"
  by (simp add: entry_ok_def)

lemma cache_ok_add: "cache_ok st \<Longrightarrow> entry_ok st e \<Longrightarrow> cache_ok (st\<lparr>rcache := e # rcache st\<rparr>)"
  by (simp add: cache_ok_def)

lemma flowi_eqI:
  "fl4_dst f = fl4_dst g \<Longrightarrow> fl4_src f = fl4_src g \<Longrightarrow> iif f = iif g \<Longrightarrow> oif f = oif g \<Longrightarrow> fl4_tos f = fl4_tos g \<Longrightarrow> f = (g :: flowi)"
  by simp

lemma output_entry_ok:
  assumes "output_entry flp st = Some e" "iif flp = 0"
  shows "entry_ok st e"
  using assms
  by (auto simp: output_entry_def entry_ok_def local_output_entry_def route_output_entry_def split: option.splits)

lemma input_entry_ok:
  assumes "input_entry d s t st = Some e" "find_local d st = None" "cache_ok st"
  shows "entry_ok st e"
proof -
  from assms obtain r where r: "find_route d st = Some r" "e = route_input_entry r d s t"
    by (auto simp: input_entry_def)
  then have "interface r \<noteq> 0"
    using assms(3) find_first_Some by (fastforce simp: cache_ok_def find_route_def)
  then show ?thesis using assms r by (simp add: entry_ok_def route_input_entry_def)
qed

lemma ip_route_output_key_spec:
  assumes "cache_ok st" "iif flp = 0"
  shows "case ip_route_output_key False flp st of (ret, e, st') \<Rightarrow>
            e = output_entry flp st \<and> ret = (if e = None then 1 else 0) \<and> cache_ok st' \<and>
            interfaces st' = interfaces st \<and> routes st' = routes st"
proof (cases "find_first (\<lambda>rth. fl4_dst (rt_fl rth) = fl4_dst flp \<and> fl4_src (rt_fl rth) = fl4_src flp \<and>
    iif (rt_fl rth) = 0 \<and> oif (rt_fl rth) = oif flp \<and> fl4_tos (rt_fl rth) = fl4_tos flp) (rcache st)")
  case (Some e)
  from find_first_Some [OF this] have e: "e \<in> set (rcache st)" "rt_fl e = flp"
    using assms(2) by (auto intro: flowi_eqI)
  have "entry_ok st e" using e(1) assms(1) by (simp add: cache_ok_def)
  then have "output_entry flp st = Some e" using e(2) assms(2) unfolding entry_ok_def by metis
  then show ?thesis using Some assms(1) by (simp add: ip_route_output_key_def)
next
  case None
  then show ?thesis
    using assms(1) cache_ok_add [OF assms(1) output_entry_ok [OF _ assms(2)]]
    by (auto simp: ip_route_output_key_def output_entry_def Let_def split: option.splits)
qed

lemma ip_route_input_spec:
  assumes "cache_ok st" "dev \<noteq> 0"
  shows "case ip_route_input daddr daddr saddr tos dev st of (ret, e, st') \<Rightarrow>
            e = input_entry daddr saddr tos st \<and> ret = (if e = None then 1 else 0) \<and> cache_ok st' \<and>
            interfaces st' = interfaces st \<and> routes st' = routes st"
proof (cases "find_first (\<lambda>rth. fl4_dst (rt_fl rth) = daddr \<and> fl4_src (rt_fl rth) = saddr \<and>
    iif (rt_fl rth) = dev \<and> oif (rt_fl rth) = 0 \<and> fl4_tos (rt_fl rth) = tos) (rcache st)")
  case (Some e)
  from find_first_Some [OF this] have "input_entry daddr saddr tos st = Some e"
    using assms by (auto simp: cache_ok_def entry_ok_def)
  then show ?thesis using Some assms(1) by (simp add: ip_route_input_def)
next
  case None
  then show ?thesis
    using assms(1) cache_ok_add [OF assms(1) input_entry_ok [of daddr saddr tos, OF _ _ assms(1)]]
    by (auto simp: ip_route_input_def input_entry_def Let_def split: option.splits)
qed

text \<open>C8. As long as the tables do not change, the route cache cannot be observed: a lookup for an outgoing packet
  and a lookup for an incoming packet give the same entry, result code and failure as a lookup in an empty
  cache, and both keep the cache in a state where this holds.\<close>

theorem route_cache_transparent:
  assumes "cache_ok st" "iif flp = 0" "dev \<noteq> 0"
  shows "(case ip_route_output_key False flp st of (ret, e, st') \<Rightarrow>
            e = output_entry flp st \<and> ret = (if e = None then 1 else 0) \<and> cache_ok st' \<and>
            interfaces st' = interfaces st \<and> routes st' = routes st) \<and>
         (case ip_route_input daddr daddr saddr tos dev st of (ret, e, st') \<Rightarrow>
            e = input_entry daddr saddr tos st \<and> ret = (if e = None then 1 else 0) \<and> cache_ok st' \<and>
            interfaces st' = interfaces st \<and> routes st' = routes st)"
  using ip_route_output_key_spec [OF assms(1,2)] ip_route_input_spec [OF assms(1,3)] ..

text \<open>Freeing a route that has its destructor keeps the cache faithful to the smaller table.\<close>

lemma free_route_keeps_cache:
  assumes "cache_ok st" "rdestructor r"
  shows "cache_ok (free_route r st)"
proof -
  let ?st = "free_route r st"
  have loc: "find_local a ?st = find_local a st" "dev_by_index i ?st = dev_by_index i st" for a i
    using assms(2) by (simp_all add: free_route_def drop_entries_def find_local_def dev_by_index_def)
  have rt: "find_route a ?st = Some q" if "find_route a st = Some q" "rid q \<noteq> rid r" for a q
    using that assms(2)
    by (simp add: free_route_def drop_entries_def find_route_def destroy_route_def find_first_filter)
  have roe: "route_output_entry ?st q flp = route_output_entry st q flp" for q flp
    by (simp add: route_output_entry_def loc)
  have "entry_ok ?st e" if e: "e \<in> set (rcache ?st)" for e
  proof -
    from e have k: "entry_ok st e" "rt_owner e \<noteq> Of_route (rid r)"
      using assms by (auto simp: free_route_def drop_entries_def cache_ok_def)
    have "output_entry flp ?st = Some e" if "output_entry flp st = Some e" for flp
      using that k(2) rt roe
      by (auto simp: output_entry_def loc local_output_entry_def route_output_entry_def split: option.splits)
    moreover have "input_entry a b t ?st = Some e" if "input_entry a b t st = Some e" for a b t
      using that k(2) rt
      by (auto simp: input_entry_def loc local_input_entry_def route_input_entry_def split: option.splits)
    ultimately show ?thesis using k(1) by (auto simp: entry_ok_def split: if_splits)
  qed
  moreover have "set (routes ?st) \<subseteq> set (routes st)"
    using assms(2) by (auto simp: free_route_def drop_entries_def destroy_route_def)
  ultimately show ?thesis using assms(1) by (auto simp: cache_ok_def)
qed

text \<open>
  A host with two devices and the routes the code gives them, for the examples: eth0 is 192.168.0.1/24 with
  index 2, eth1 is 192.168.1.1/24 with index 3.
\<close>

definition two_devices :: ip_state where
  "two_devices =
     (let d0 = \<lparr>dname = ''eth0'', ifindex = 2, ip_ptr = Some [\<lparr>ifa_local = 0x0100a8c0, ifa_address = 0x0100a8c0,
            ifa_mask = 0x00ffffff, ifa_broadcast = 0xff00a8c0\<rparr>], rxpackets = 0, rxbytes = 0, txpackets = 0, txbytes = 0\<rparr>;
          d1 = \<lparr>dname = ''eth1'', ifindex = 3, ip_ptr = Some [\<lparr>ifa_local = 0x0101a8c0, ifa_address = 0x0101a8c0,
            ifa_mask = 0x00ffffff, ifa_broadcast = 0xff01a8c0\<rparr>], rxpackets = 0, rxbytes = 0, txpackets = 0, txbytes = 0\<rparr>;
          st = \<lparr>interfaces = [d0, d1], routes = [], rcache = []\<rparr>
      in add_route_for_device 2 d1 (add_route_for_device 1 d0 st))"

lemma two_devices_ok: "cache_ok two_devices"
  by (simp add: cache_ok_def two_devices_def add_route_for_device_def)

definition sample_flow :: flowi where
  "sample_flow = \<lparr>fl4_dst = 0x0901a8c0, fl4_src = 0, iif = 0, oif = 0, fl4_tos = 0\<rparr>"

theorem route_cache_transparent_witness:
  "fst (snd (ip_route_output_key False sample_flow two_devices)) = output_entry sample_flow two_devices \<and>
   fst (snd (ip_route_input 5 5 6 0 2 two_devices)) = input_entry 5 6 0 two_devices"
  using route_cache_transparent [OF two_devices_ok, of sample_flow 2 5 6 0]
  by (auto simp: sample_flow_def split: prod.splits)

lemma example_lookup:
  "map_option rt_dev (output_entry sample_flow two_devices) = Some (Dev 3)"
  "map_option rt_src (output_entry sample_flow two_devices) = Some 0x0101a8c0"
  by code_simp+

text \<open>
  Adding a route does not touch the cache. A destination that was looked up before keeps its old entry
  although the new route, put first, would win.
\<close>

lemma route_add_leaves_stale_entries:
  "let st = snd (snd (ip_route_output_key False sample_flow two_devices));
       st = snd (route_cmd 9 0 [''route'', ''add'', ''192.168.1.9/32'', ''eth0''] st)
   in map_option rt_dev (fst (snd (ip_route_output_key False sample_flow st))) = Some (Dev 3) \<and>
      map_option rt_dev (output_entry sample_flow st) = Some (Dev 2)"
  by code_simp

text \<open>A route added by the command has no destructor: deleting it leaves freed memory in the table.\<close>

lemma route_del_dangles:
  "let st = snd (route_cmd 9 0 [''route'', ''add'', ''10.0.0.0/8'', ''eth0''] two_devices);
       st = snd (route_cmd 10 0 [''route'', ''del'', ''10.0.0.0/8''] st)
   in map (\<lambda>r. (rid r, rfreed r)) (routes st) = [(9, True), (1, False), (2, False)]"
  by code_simp

section \<open>Prefixes\<close>

lemma swab32_and: "swab32 (a AND b) = swab32 a AND swab32 b"
  by (rule bit_word_eqI) (simp add: bit_swab32 bit_and_iff)

lemma all_ones: "0xffffffff = (- 1 :: u32)"
  by simp

lemma bits_netmask_bits:
  assumes "b \<le> 32"
  shows "bit (swab32 (bits_netmask b)) n \<longleftrightarrow> n < 32 \<and> 32 - b \<le> n"
  using assms unfolding bits_netmask_def all_ones
  by (auto simp: htonl_def swab32_swab32 bit_not_iff bit_drop_bit_eq bit_mask_iff)

text \<open>A route for \<^verbatim>\<open>address/bits\<close> matches exactly the destinations whose leading bits, in the usual notation,
  are those of the address, for every number of bits from 0 to 32.\<close>

lemma route_prefix_match:
  assumes "b \<le> 32"
  shows "(dst AND bits_netmask b) = (net AND bits_netmask b) \<longleftrightarrow>
         drop_bit (32 - b) (ntohl dst) = drop_bit (32 - b) (ntohl net)"
proof -
  have "(dst AND bits_netmask b) = (net AND bits_netmask b) \<longleftrightarrow>
        swab32 (dst AND bits_netmask b) = swab32 (net AND bits_netmask b)" by (metis swab32_swab32)
  also have "\<dots> \<longleftrightarrow> (\<forall>n. n < 32 \<and> 32 - b \<le> n \<longrightarrow> bit (swab32 dst) n = bit (swab32 net) n)"
    unfolding swab32_and bit_eq_iff by (auto simp: bit_and_iff bits_netmask_bits [OF assms])
  also have "\<dots> \<longleftrightarrow> (\<forall>k. bit (swab32 dst) (32 - b + k) = bit (swab32 net) (32 - b + k))"
  proof (rule iffI; rule allI)
    fix k
    assume "\<forall>n. n < 32 \<and> 32 - b \<le> n \<longrightarrow> bit (swab32 dst) n = bit (swab32 net) n"
    then show "bit (swab32 dst) (32 - b + k) = bit (swab32 net) (32 - b + k)"
      by (cases "32 - b + k < 32") (auto dest: bit_imp_le_length)
  next
    fix n
    assume "\<forall>k. bit (swab32 dst) (32 - b + k) = bit (swab32 net) (32 - b + k)"
    from spec [OF this, of "n - (32 - b)"]
    show "n < 32 \<and> 32 - b \<le> n \<longrightarrow> bit (swab32 dst) n = bit (swab32 net) n" by auto
  qed
  also have "\<dots> \<longleftrightarrow> drop_bit (32 - b) (ntohl dst) = drop_bit (32 - b) (ntohl net)"
  proof -
    have "k < 32" if "bit (w :: u32) (m + k)" for w m k
      using bit_imp_le_length [OF that] by simp
    then show ?thesis unfolding bit_eq_iff bit_drop_bit_eq ntohl_def comp_def by (auto; blast)
  qed
  finally show ?thesis .
qed

end
