(* ===== verification/Jhash.thy ===== *)
theory Jhash
  imports Nfsim_Prelude
begin

text \<open>
  The Jenkins hash of kernelenv/kernelenv.c: the mixing macro, the hash of a byte string, the hash of
  an array of 32-bit words and the hashes of exactly three, two and one words. The lemmas show that
  mixing loses nothing and that the word version is the byte version on the words' little-endian bytes.
\<close>

section \<open>The hash functions\<close>

text \<open>
  One line of \<^verbatim>\<open>__jhash_mix\<close>, \<^verbatim>\<open>x -= y; x -= z; x ^= m\<close>, and the three lines of one round, with their
  shift distances; the macro is three rounds.
\<close>

definition jhash_line :: "u32 \<Rightarrow> u32 \<Rightarrow> u32 \<Rightarrow> u32 \<Rightarrow> u32" where
  "jhash_line x y z m = (x - y - z) XOR m"

definition jhash_round :: "nat \<Rightarrow> nat \<Rightarrow> nat \<Rightarrow> u32 \<times> u32 \<times> u32 \<Rightarrow> u32 \<times> u32 \<times> u32" where
  "jhash_round i j k = (\<lambda>(a, b, c).
     let a = jhash_line a b c (drop_bit i c);
         b = jhash_line b c a (push_bit j a);
         c = jhash_line c a b (drop_bit k b)
     in (a, b, c))"

definition jhash_mix :: "u32 \<times> u32 \<times> u32 \<Rightarrow> u32 \<times> u32 \<times> u32" where
  "jhash_mix abc = jhash_round 3 10 15 (jhash_round 12 16 5 (jhash_round 13 8 13 abc))"

definition JHASH_GOLDEN_RATIO :: u32 where "JHASH_GOLDEN_RATIO = 0x9e3779b9"

definition word_le :: "u8 \<Rightarrow> u8 \<Rightarrow> u8 \<Rightarrow> u8 \<Rightarrow> u32" where
  "word_le k0 k1 k2 k3 =
     ucast k0 + push_bit 8 (ucast k1) + push_bit 16 (ucast k2) + push_bit 24 (ucast k3)"

fun jhash_loop :: "u8 list \<Rightarrow> u32 \<times> u32 \<times> u32 \<Rightarrow> u8 list \<times> u32 \<times> u32 \<times> u32" where
  "jhash_loop (k0 # k1 # k2 # k3 # k4 # k5 # k6 # k7 # k8 # k9 # k10 # k11 # k) (a, b, c) =
     jhash_loop k (jhash_mix (a + word_le k0 k1 k2 k3, b + word_le k4 k5 k6 k7, c + word_le k8 k9 k10 k11))"
| "jhash_loop k abc = (k, abc)"

text \<open>The \<^verbatim>\<open>switch\<close> on the bytes left, with its cases falling through from the largest to the smallest.\<close>

definition jhash_switch :: "u8 list \<Rightarrow> u32 \<times> u32 \<times> u32 \<Rightarrow> u32 \<times> u32 \<times> u32" where
  "jhash_switch k = (\<lambda>(a, b, c).
     let len = length k;
         at = (\<lambda>i s. if i < len then push_bit s (ucast (k ! i)) else 0);
         c = c + at 10 24; c = c + at 9 16; c = c + at 8 8;
         b = b + at 7 24; b = b + at 6 16; b = b + at 5 8; b = b + at 4 0;
         a = a + at 3 24; a = a + at 2 16; a = a + at 1 8; a = a + at 0 0
     in (a, b, c))"

definition jhash :: "u8 list \<Rightarrow> u32 \<Rightarrow> u32" where
  "jhash key initval =
     (let (k, a, b, c) = jhash_loop key (JHASH_GOLDEN_RATIO, JHASH_GOLDEN_RATIO, initval);
          c = c + word_of_nat (length key);
          (a, b, c) = jhash_mix (jhash_switch k (a, b, c))
      in c)"

fun jhash2_loop :: "u32 list \<Rightarrow> u32 \<times> u32 \<times> u32 \<Rightarrow> u32 list \<times> u32 \<times> u32 \<times> u32" where
  "jhash2_loop (k0 # k1 # k2 # k) (a, b, c) = jhash2_loop k (jhash_mix (a + k0, b + k1, c + k2))"
| "jhash2_loop k abc = (k, abc)"

fun jhash2_switch :: "u32 list \<Rightarrow> u32 \<times> u32 \<times> u32 \<Rightarrow> u32 \<times> u32 \<times> u32" where
  "jhash2_switch [k0, k1] (a, b, c) = (a + k0, b + k1, c)"
| "jhash2_switch [k0] (a, b, c) = (a + k0, b, c)"
| "jhash2_switch k (a, b, c) = (a, b, c)"

definition jhash2 :: "u32 list \<Rightarrow> u32 \<Rightarrow> u32" where
  "jhash2 key initval =
     (let (k, a, b, c) = jhash2_loop key (JHASH_GOLDEN_RATIO, JHASH_GOLDEN_RATIO, initval);
          c = c + word_of_nat (length key) * 4;
          (a, b, c) = jhash_mix (jhash2_switch k (a, b, c))
      in c)"

definition jhash_3words :: "u32 \<Rightarrow> u32 \<Rightarrow> u32 \<Rightarrow> u32 \<Rightarrow> u32" where
  "jhash_3words a b c initval =
     (let (a, b, c) = jhash_mix (a + JHASH_GOLDEN_RATIO, b + JHASH_GOLDEN_RATIO, c + initval) in c)"

definition jhash_2words :: "u32 \<Rightarrow> u32 \<Rightarrow> u32 \<Rightarrow> u32" where
  "jhash_2words a b initval = jhash_3words a b 0 initval"

definition jhash_1word :: "u32 \<Rightarrow> u32 \<Rightarrow> u32" where
  "jhash_1word a initval = jhash_3words a 0 0 initval"

section \<open>Mixing is a bijection\<close>

definition jhash_unline :: "u32 \<Rightarrow> u32 \<Rightarrow> u32 \<Rightarrow> u32 \<Rightarrow> u32" where
  "jhash_unline x y z m = (x XOR m) + z + y"

definition jhash_unround :: "nat \<Rightarrow> nat \<Rightarrow> nat \<Rightarrow> u32 \<times> u32 \<times> u32 \<Rightarrow> u32 \<times> u32 \<times> u32" where
  "jhash_unround i j k = (\<lambda>(a, b, c).
     let c = jhash_unline c a b (drop_bit k b);
         b = jhash_unline b c a (push_bit j a);
         a = jhash_unline a b c (drop_bit i c)
     in (a, b, c))"

definition jhash_unmix :: "u32 \<times> u32 \<times> u32 \<Rightarrow> u32 \<times> u32 \<times> u32" where
  "jhash_unmix abc = jhash_unround 13 8 13 (jhash_unround 12 16 5 (jhash_unround 3 10 15 abc))"

lemma jhash_unline_line [simp]: "jhash_unline (jhash_line x y z m) y z m = x"
  by (simp add: jhash_unline_def jhash_line_def xor.assoc)

lemma jhash_line_unline [simp]: "jhash_line (jhash_unline x y z m) y z m = x"
  by (simp add: jhash_unline_def jhash_line_def xor.assoc)

lemma jhash_unround_round [simp]: "jhash_unround i j k (jhash_round i j k s) = s"
  by (cases s) (simp add: jhash_unround_def jhash_round_def Let_def)

lemma jhash_round_unround [simp]: "jhash_round i j k (jhash_unround i j k s) = s"
  by (cases s) (simp add: jhash_unround_def jhash_round_def Let_def)

text \<open>\<open>__jhash_mix\<close> is a bijection on the three state words: undoing the nine lines in reverse order is its
  two-sided inverse, so two different states never collide in the mixing.\<close>

theorem jhash_mix_bijective:
  "jhash_unmix (jhash_mix s) = s \<and> jhash_mix (jhash_unmix s) = s \<and> bij jhash_mix"
proof -
  have u: "jhash_unmix (jhash_mix s) = s" "jhash_mix (jhash_unmix s) = s" for s
    by (simp_all add: jhash_mix_def jhash_unmix_def)
  then have "bij jhash_mix"
    by (intro bijI injI surjI [of _ jhash_unmix]) (metis u(1), rule u(2))
  with u show ?thesis by simp
qed

section \<open>Words and bytes\<close>

definition bytes_le :: "u32 \<Rightarrow> u8 list" where
  "bytes_le w = [ucast w, ucast (drop_bit 8 w), ucast (drop_bit 16 w), ucast (drop_bit 24 w)]"

lemma ucast_ucast_u8: "ucast (ucast w :: u8) = take_bit 8 (w :: u32)"
  by (rule bit_word_eqI) (auto simp: bit_simps)

lemma word_le_bytes [simp]:
  "word_le (ucast w) (ucast (drop_bit 8 w)) (ucast (drop_bit 16 w)) (ucast (drop_bit 24 w)) = w"
proof -
  have split: "take_bit 8 v + push_bit 8 (drop_bit 8 v) = v" for v :: u32
    by (metis add.commute bits_ident)
  have top: "take_bit 8 (drop_bit 24 w) = drop_bit 24 w"
    by (rule bit_word_eqI) (auto simp: bit_simps dest: bit_imp_le_length)
  have "word_le (ucast w) (ucast (drop_bit 8 w)) (ucast (drop_bit 16 w)) (ucast (drop_bit 24 w)) =
      take_bit 8 w + push_bit 8 (take_bit 8 (drop_bit 8 w) + push_bit 8 (take_bit 8 (drop_bit 16 w)
        + push_bit 8 (drop_bit 24 w)))"
    by (simp add: word_le_def ucast_ucast_u8 top push_bit_add)
  also have "\<dots> = w"
    using split [of w] split [of "drop_bit 8 w"] split [of "drop_bit 16 w"] by simp
  finally show ?thesis .
qed

lemma length_concat_bytes_le [simp]: "length (concat (map bytes_le ws)) = 4 * length ws"
  by (induction ws) (simp_all add: bytes_le_def)

lemma jhash_loop_words:
  "jhash_loop (concat (map bytes_le ws)) s =
   (concat (map bytes_le (fst (jhash2_loop ws s))), snd (jhash2_loop ws s))"
proof (induction ws s rule: jhash2_loop.induct)
  case (1 k0 k1 k2 k a b c)
  then show ?case by (simp add: bytes_le_def)
qed (simp_all add: bytes_le_def)

lemma jhash2_loop_rest: "length (fst (jhash2_loop ws s)) < 3"
  by (induction ws s rule: jhash2_loop.induct) simp_all

lemma add_bytes_le:
  "a + push_bit 24 (ucast (ucast (drop_bit 24 w) :: u8)) + push_bit 16 (ucast (ucast (drop_bit 16 w) :: u8))
     + push_bit 8 (ucast (ucast (drop_bit 8 w) :: u8)) + ucast (ucast w :: u8) = a + (w :: u32)"
proof -
  have "a + word_le (ucast w) (ucast (drop_bit 8 w)) (ucast (drop_bit 16 w)) (ucast (drop_bit 24 w)) = a + w"
    by (simp only: word_le_bytes)
  then show ?thesis
    unfolding word_le_def by (simp only: ac_simps)
qed

lemma jhash_switch_words:
  assumes "length ws < 3"
  shows "jhash_switch (concat (map bytes_le ws)) s = jhash2_switch ws s"
proof -
  obtain a b c where s: "s = (a, b, c)" by (cases s)
  consider "ws = []" | k0 where "ws = [k0]" | k0 k1 where "ws = [k0, k1]"
    using assms by (cases ws; cases "tl ws"; auto)
  then show ?thesis
    by cases (simp_all add: s jhash_switch_def bytes_le_def Let_def add_bytes_le [simplified])
qed

text \<open>The optimised \<open>jhash2\<close> over an array of 32-bit words computes the same hash as the generic \<open>jhash\<close>
  over the array's bytes on a little-endian machine.\<close>

theorem jhash2_is_jhash: "jhash2 ws initval = jhash (concat (map bytes_le ws)) initval"
proof -
  let ?s = "(JHASH_GOLDEN_RATIO, JHASH_GOLDEN_RATIO, initval)"
  obtain k a b c where l: "jhash2_loop ws ?s = (k, a, b, c)" by (cases "jhash2_loop ws ?s")
  then have "length k < 3" using jhash2_loop_rest [of ws ?s] by simp
  then show ?thesis
    using l jhash_loop_words [of ws ?s]
    by (simp add: jhash2_def jhash_def jhash_switch_words mult.commute)
qed

lemma jhash_3words_mix: "jhash_3words a b c initval =
  snd (snd (jhash_mix (JHASH_GOLDEN_RATIO + a, JHASH_GOLDEN_RATIO + b, initval + c)))"
  by (simp add: jhash_3words_def case_prod_unfold add.commute)

end
