(* ===== verification/Ipv4.thy ===== *)
theory Ipv4
  imports Route Jhash
begin

text \<open>
  The path of a packet through core/ipv4/ipv4.c and the senders of core/core.c: reception, routing, forwarding,
  local delivery, output, ICMP errors, and the reassembly of fragments. A packet is the bytes from the start of
  the IP header and the number of link-layer bytes still in front of it (\<open>plink\<close>); of a packet that is not linear, \<open>pmaster\<close> holds the
  bytes that the master copy has for the linear part, from the IP header on, and the number of these that may be written. The netfilter hooks are kernel
  code outside the simulator: they are an argument, which
  either answers for the packet or passes on a packet. The descriptions of packets in the log, which check the packet again, are in Describe.
\<close>

section \<open>Headers\<close>

definition get32 :: "nat \<Rightarrow> u8 list \<Rightarrow> u32" where
  "get32 i b = word_le (b ! i) (b ! (i + 1)) (b ! (i + 2)) (b ! (i + 3))"

definition be16 :: "nat \<Rightarrow> u8 list \<Rightarrow> nat" where
  "be16 i b = unat (b ! i) * 256 + unat (b ! (i + 1))"

definition iph_tos :: "u8 list \<Rightarrow> u8" where "iph_tos b = b ! 1"
definition iph_saddr :: "u8 list \<Rightarrow> u32" where "iph_saddr b = get32 12 b"
definition iph_daddr :: "u8 list \<Rightarrow> u32" where "iph_daddr b = get32 16 b"
definition iph_protocol :: "u8 list \<Rightarrow> u8" where "iph_protocol b = b ! 9"
definition iph_tot_len :: "u8 list \<Rightarrow> nat" where "iph_tot_len b = be16 2 b"
definition iph_frag_off :: "u8 list \<Rightarrow> nat" where "iph_frag_off b = be16 6 b"

definition IP_OFFSET :: nat where "IP_OFFSET = 0x1FFF"
definition IP_MF :: nat where "IP_MF = 0x2000"

section \<open>The packet path\<close>

record ippkt =
  pbytes :: "u8 list"
  plink :: nat
  pdev :: dev_ref
  pdst :: "rtable option"
  phost :: bool
  pmaster :: "(u8 list \<times> nat) option"
  pflags :: "string option"

text \<open>\<open>nfsim_check_packet\<close> and \<open>nfsim_update_skb\<close> of kernelenv/kernelenv.c on such a packet.\<close>

definition pkt_intact :: "ippkt \<Rightarrow> bool" where
  "pkt_intact pkt \<longleftrightarrow>
     (case pmaster pkt of
        None \<Rightarrow> True
      | Some (m, wl) \<Rightarrow> \<forall>i \<in> set [wl..<length m]. i < length (pbytes pkt) \<and> pbytes pkt ! i = m ! i)"

definition pkt_checked :: "ippkt \<Rightarrow> 'a outcome \<Rightarrow> 'a outcome" where
  "pkt_checked pkt k = (if pkt_intact pkt then k else Barf ''skb modified without being made writable!'')"

definition pkt_update :: "nat \<Rightarrow> nat \<Rightarrow> ippkt \<Rightarrow> ippkt outcome" where
  "pkt_update off sz pkt =
     (case pmaster pkt of
        None \<Rightarrow> Ok pkt
      | Some (m, wl) \<Rightarrow>
          if off + sz > length (pbytes pkt) then Barf ''Bad nfsim_update_skb''
          else
            let m' = (if off + sz > wl
                      then map (\<lambda>i. if off \<le> i \<and> i < off + sz then pbytes pkt ! i else m ! i) [0..<length m] else m);
                pkt = pkt\<lparr>pmaster := Some (m', wl)\<rparr>
            in pkt_checked pkt (Ok pkt))"

text \<open>
  What the simulator shows of a packet: the hooks it meets, where it is sent, and where it is freed. \<open>pflags\<close> is the extra field with the dump flags, which decides how a
  packet is described when it is sent.
\<close>

datatype ip_event = At_hook nat | Sent dev_ref "u8 list" "string option" | Delivered "u8 list" "string option" | Freed

type_synonym path = "(ip_event list \<times> int \<times> ip_state) outcome"
type_synonym hooks = "nat \<Rightarrow> ippkt \<Rightarrow> int + ippkt"

definition NF_IP_PRE_ROUTING :: nat where "NF_IP_PRE_ROUTING = 0"
definition NF_IP_LOCAL_IN :: nat where "NF_IP_LOCAL_IN = 1"
definition NF_IP_FORWARD :: nat where "NF_IP_FORWARD = 2"
definition NF_IP_LOCAL_OUT :: nat where "NF_IP_LOCAL_OUT = 3"
definition NF_IP_POST_ROUTING :: nat where "NF_IP_POST_ROUTING = 4"

definition then_events :: "ip_event list \<Rightarrow> path \<Rightarrow> path" where
  "then_events es p = bind_outcome p (\<lambda>(es', ret, st). Ok (es @ es', ret, st))"

definition nf_hook :: "hooks \<Rightarrow> nat \<Rightarrow> (ippkt \<Rightarrow> ip_state \<Rightarrow> path) \<Rightarrow> ippkt \<Rightarrow> ip_state \<Rightarrow> path" where
  "nf_hook hook n okfn pkt st =
     (case hook n pkt of
        Inl ret \<Rightarrow> Ok ([At_hook n], ret, st)
      | Inr pkt \<Rightarrow> then_events [At_hook n] (okfn pkt st))"

definition on_dev :: "dev_ref \<Rightarrow> (net_device \<Rightarrow> net_device) \<Rightarrow> ip_state \<Rightarrow> ip_state" where
  "on_dev d f st = st\<lparr>interfaces := map (\<lambda>dev. if d = Dev (ifindex dev) \<or> d = Loopback_dev \<and> dname dev = ''lo''
                                             then f dev else dev) (interfaces st)\<rparr>"

definition count_rx :: "nat \<Rightarrow> net_device \<Rightarrow> net_device" where
  "count_rx len d = d\<lparr>rxpackets := rxpackets d + 1, rxbytes := rxbytes d + len\<rparr>"

definition count_tx :: "nat \<Rightarrow> net_device \<Rightarrow> net_device" where
  "count_tx len d = d\<lparr>txpackets := txpackets d + 1, txbytes := txbytes d + len\<rparr>"

definition nf_send :: "ippkt \<Rightarrow> ip_state \<Rightarrow> path" where
  "nf_send pkt st =
     Ok ([Sent (pdev pkt) (pbytes pkt) (pflags pkt), Freed], 0,
         on_dev (pdev pkt) (count_tx (length (pbytes pkt))) st)"

definition nf_send_local :: "ippkt \<Rightarrow> ip_state \<Rightarrow> path" where
  "nf_send_local pkt st = Ok ([Delivered (pbytes pkt) (pflags pkt), Freed], 0, st)"

definition ip_finish_output :: "hooks \<Rightarrow> ippkt \<Rightarrow> ip_state \<Rightarrow> path" where
  "ip_finish_output hook pkt st =
     (case pdst pkt of
        None \<Rightarrow> Barf ''null dst''
      | Some rt \<Rightarrow> nf_hook hook NF_IP_POST_ROUTING nf_send (pkt\<lparr>pdev := rt_dev rt\<rparr>) st)"

definition ip_output :: "hooks \<Rightarrow> ippkt \<Rightarrow> ip_state \<Rightarrow> path" where
  "ip_output hook pkt st = ip_finish_output hook pkt st"

definition dst_output :: "hooks \<Rightarrow> ippkt \<Rightarrow> ip_state \<Rightarrow> path" where
  "dst_output hook pkt st =
     (case pdst pkt of
        None \<Rightarrow> Barf ''Assertion `skb->dst' failed''
      | Some rt \<Rightarrow> if rt_output rt = Ip_output then ip_output hook pkt st
                   else Barf ''Assertion `skb->dst->output' failed'')"

definition ip_local_deliver :: "hooks \<Rightarrow> ippkt \<Rightarrow> ip_state \<Rightarrow> path" where
  "ip_local_deliver hook pkt st = nf_hook hook NF_IP_LOCAL_IN nf_send_local pkt st"

text \<open>
  \<open>icmp_send\<close>. The flags of a route are never set in the simulator and \<^verbatim>\<open>xrlim_allow\<close> always allows, so
  these tests drop out; the source address of the error is left to the route. The argument \<^verbatim>\<open>info\<close>
  of the source is not used by it. \<open>skb_header_pointer\<close> and \<open>skb_copy_bits\<close>, with which it reads the packet, check it.
\<close>

definition is_icmp_error :: "nat \<Rightarrow> bool" where
  "is_icmp_error type \<longleftrightarrow> (if type < 13 \<and> type \<noteq> 0 \<and> type \<noteq> 8 then True else type > 18)"

definition icmp_packet :: "u8 \<Rightarrow> rtable \<Rightarrow> nat \<Rightarrow> nat \<Rightarrow> u8 list \<Rightarrow> u8 list" where
  "icmp_packet tos rt type code quoted =
     (let len = length quoted + 28;
          iph = [0x45, tos, byte1 (word_of_nat len), byte0 (word_of_nat len), 0, 0, 0, 0, 255, 1, 0, 0]
                @ bytes32 (rt_src rt) @ bytes32 (rt_dst rt);
          iph = set_check iph (ip_fast_csum 0 iph 5);
          icmph = [word_of_nat type, word_of_nat code, 0, 0, 0, 0, 0, 0] @ quoted;
          icmph = put16 2 icmph (ip_compute_csum 0 icmph)
      in iph @ icmph)"

definition icmp_length :: "nat \<Rightarrow> nat" where
  "icmp_length skb_len =
     (let len = skb_len + 28; len = (if len > 1500 then 1500 else len) in if len > 576 then 576 else len)"

definition icmp_send :: "hooks \<Rightarrow> bool \<Rightarrow> bool \<Rightarrow> ippkt \<Rightarrow> nat \<Rightarrow> nat \<Rightarrow> ip_state \<Rightarrow> (ip_event list \<times> ip_state) outcome" where
  "icmp_send hook fail_route fail_alloc skb_in type code st =
     (let b = pbytes skb_in; hl = get_ihl b * 4 in
      if pdst skb_in = None \<or> \<not> phost skb_in \<or> iph_frag_off b mod (IP_OFFSET + 1) \<noteq> 0 \<or> length b < hl + 8 then Ok ([], st)
      else if is_icmp_error type \<and> iph_protocol b = 1 \<and> \<not> pkt_intact skb_in then Barf ''skb modified without being made writable!''
      else if is_icmp_error type \<and> iph_protocol b = 1 \<and> is_icmp_error (unat (b ! hl)) then Ok ([], st)
      else
        let tos = (iph_tos b AND 0x1E) OR 0xc0;
            fl = \<lparr>fl4_dst = iph_saddr b, fl4_src = 0, iif = 0, oif = 0, fl4_tos = tos AND 0x1E\<rparr>
        in case ip_route_output_key fail_route fl st of
             (ret, None, st) \<Rightarrow> Ok ([], st)
           | (ret, Some rt, st) \<Rightarrow>
               if fail_alloc then Ok ([], st)
               else
                 let quoted = take (icmp_length (length b) - 28) b;
                     nskb = \<lparr>pbytes = icmp_packet tos rt type code quoted, plink = 0, pdev = rt_dev rt, pdst = Some rt, phost = True,
                             pmaster = None, pflags = None\<rparr>
                 in pkt_checked skb_in
                      (bind_outcome (nf_hook hook NF_IP_LOCAL_OUT (ip_finish_output hook) nskb st)
                        (\<lambda>(es, _, st). Ok (es, st))))"

definition ICMP_TIME_EXCEEDED :: nat where "ICMP_TIME_EXCEEDED = 11"
definition ICMP_EXC_TTL :: nat where "ICMP_EXC_TTL = 0"

text \<open>
  A time to live that has run out is not passed on to the master copy before \<open>icmp_send\<close> reads the packet; a change that is forwarded is, one field after the
  other.
\<close>

definition ip_forward :: "hooks \<Rightarrow> bool \<Rightarrow> bool \<Rightarrow> ippkt \<Rightarrow> ip_state \<Rightarrow> path" where
  "ip_forward hook fail_route fail_alloc pkt st =
     (case ip_forward_hdr (pbytes pkt) of
        None \<Rightarrow>
          bind_outcome (icmp_send hook fail_route fail_alloc (pkt\<lparr>pbytes := (pbytes pkt)[8 := 0]\<rparr>)
                          ICMP_TIME_EXCEEDED ICMP_EXC_TTL st)
            (\<lambda>(es, st). Ok (es @ [Freed], 1, st))
      | Some b \<Rightarrow>
          bind_outcome (pkt_update 8 1 (pkt\<lparr>pbytes := (pbytes pkt)[8 := pbytes pkt ! 8 - 1]\<rparr>)) (\<lambda>pkt.
          bind_outcome (pkt_update 10 2 (pkt\<lparr>pbytes := b\<rparr>)) (\<lambda>pkt.
            nf_hook hook NF_IP_FORWARD (dst_output hook) pkt st)))"

definition dst_input :: "hooks \<Rightarrow> bool \<Rightarrow> bool \<Rightarrow> ippkt \<Rightarrow> ip_state \<Rightarrow> path" where
  "dst_input hook fail_route fail_alloc pkt st =
     (case pdst pkt of
        None \<Rightarrow> Barf ''Assertion `skb->dst' failed''
      | Some rt \<Rightarrow>
          (case rt_input rt of
             Ip_local_deliver \<Rightarrow> ip_local_deliver hook pkt st
           | Ip_forward \<Rightarrow> ip_forward hook fail_route fail_alloc pkt st
           | _ \<Rightarrow> Barf ''Assertion `skb->dst->input' failed''))"

definition dev_index :: "dev_ref \<Rightarrow> ip_state \<Rightarrow> int" where
  "dev_index d st =
     (case d of
        Dev i \<Rightarrow> i
      | Loopback_dev \<Rightarrow> (case interface_by_name ''lo'' st of None \<Rightarrow> 0 | Some l \<Rightarrow> ifindex l))"

text \<open>\<^verbatim>\<open>skb->dev->name\<close>.\<close>

definition dev_name :: "dev_ref \<Rightarrow> ip_state \<Rightarrow> string" where
  "dev_name d st =
     (case d of
        Dev i \<Rightarrow> (case dev_by_index i st of None \<Rightarrow> [] | Some dev \<Rightarrow> dname dev)
      | Loopback_dev \<Rightarrow> ''lo'')"

definition ip_rcv_finish :: "hooks \<Rightarrow> bool \<Rightarrow> bool \<Rightarrow> ippkt \<Rightarrow> ip_state \<Rightarrow> path" where
  "ip_rcv_finish hook fail_route fail_alloc pkt st =
     (if pdst pkt = None then
        let b = pbytes pkt; da = iph_daddr b in
        case ip_route_input da da (iph_saddr b) (iph_tos b) (dev_index (pdev pkt) st) st of
          (ret, e, st) \<Rightarrow>
            if ret \<noteq> 0 then Ok ([Freed], -1, st)
            else dst_input hook fail_route fail_alloc (pkt\<lparr>pdst := e\<rparr>) st
      else dst_input hook fail_route fail_alloc pkt st)"

definition ip_rcv :: "hooks \<Rightarrow> bool \<Rightarrow> bool \<Rightarrow> ippkt \<Rightarrow> ip_state \<Rightarrow> path" where
  "ip_rcv hook fail_route fail_alloc pkt st =
     (let st = on_dev (pdev pkt) (count_rx (plink pkt + length (pbytes pkt))) st;
          pkt = pkt\<lparr>plink := 0\<rparr>
      in nf_hook hook NF_IP_PRE_ROUTING (ip_rcv_finish hook fail_route fail_alloc) pkt st)"

definition ip_rcv_local :: "hooks \<Rightarrow> bool \<Rightarrow> ippkt \<Rightarrow> ip_state \<Rightarrow> path" where
  "ip_rcv_local hook fail_route pkt st =
     (let pkt = pkt\<lparr>plink := 0\<rparr>;
          routed = (\<lambda>pkt st. case pdst pkt of
                      None \<Rightarrow> Barf ''null dst''
                    | Some rt \<Rightarrow> nf_hook hook NF_IP_LOCAL_OUT (dst_output hook) (pkt\<lparr>pdev := rt_dev rt\<rparr>) st)
      in case pdst pkt of
           Some _ \<Rightarrow> routed pkt st
         | None \<Rightarrow>
             let b = pbytes pkt;
                 fl = \<lparr>fl4_dst = iph_daddr b, fl4_src = iph_saddr b, iif = 0, oif = 0, fl4_tos = iph_tos b\<rparr>
             in case ip_route_output_key fail_route fl st of
                  (ret, e, st) \<Rightarrow> if ret \<noteq> 0 then Ok ([Freed], 1, st) else routed (pkt\<lparr>pdst := e\<rparr>) st)"

section \<open>Reassembly of fragments\<close>

text \<open>
  \<open>gather_frag\<close> on the fragments received so far, each the bytes of a packet. The two arrays of 70000 bytes
  are functions: which offsets are filled, and with what (\<open>stale\<close> where nothing was written). A length that
  does not fit the arrays is not checked by the code; the overrun of the stack is \<open>Barf\<close>.
\<close>

record frag_arrays =
  filled :: "nat \<Rightarrow> bool"
  fdata :: "nat \<Rightarrow> u8"
  fmax :: nat
  fended :: bool

definition frag_hl :: "u8 list \<Rightarrow> nat" where "frag_hl b = get_ihl b * 4"
definition frag_offset :: "u8 list \<Rightarrow> nat" where "frag_offset b = iph_frag_off b mod (IP_OFFSET + 1) * 8"
definition frag_length :: "u8 list \<Rightarrow> nat" where
  "frag_length b =
     (if frag_hl b \<le> iph_tot_len b then iph_tot_len b - frag_hl b else iph_tot_len b + 2 ^ 32 - frag_hl b)"

definition place_frag :: "u8 list \<Rightarrow> frag_arrays \<Rightarrow> frag_arrays outcome" where
  "place_frag b a =
     (let off = frag_offset b; len = frag_length b; hl = frag_hl b in
      if int (off + len) > 70000 then Barf ''stack overrun''
      else Ok \<lparr>filled = (\<lambda>j. off \<le> j \<and> j < off + len \<or> filled a j),
               fdata = (if hl + len \<le> length b
                        then (\<lambda>j. if off \<le> j \<and> j < off + len then b ! (hl + (j - off)) else fdata a j)
                        else fdata a),
               fmax = max (fmax a) (len + off),
               fended = (fended a \<or> iph_frag_off b div IP_MF mod 2 = 0)\<rparr>)"

fun place_frags :: "u8 list list \<Rightarrow> frag_arrays \<Rightarrow> frag_arrays outcome" where
  "place_frags [] a = Ok a"
| "place_frags (b # bs) a = bind_outcome (place_frag b a) (place_frags bs)"

definition gather_result :: "u8 list \<Rightarrow> frag_arrays \<Rightarrow> u8 list" where
  "gather_result first a =
     (let tot = word_of_nat (fmax a + frag_hl first) :: u16
      in first[6 := 0, 7 := 0, 2 := byte1 tot, 3 := byte0 tot] @ map (fdata a) [0..<fmax a])"

definition gather_frag :: "u8 \<Rightarrow> u8 list list \<Rightarrow> u8 list \<Rightarrow> (u8 list list \<times> u8 list option) outcome" where
  "gather_frag stale frags skb =
     (if length frags \<ge> 20 then
        bind_outcome (place_frags frags \<lparr>filled = \<lambda>_. False, fdata = \<lambda>_. stale, fmax = 0, fended = False\<rparr>)
          (\<lambda>_. Barf ''Can't handle 20 frags!'')
      else
        let frags = frags @ [skb] in
        bind_outcome (place_frags frags \<lparr>filled = \<lambda>_. False, fdata = \<lambda>_. stale, fmax = 0, fended = False\<rparr>)
          (\<lambda>a. if \<not> fended a \<or> (\<exists>j \<in> set [0..<fmax a]. \<not> filled a j) then Ok (frags, None)
               else Ok ([], Some (gather_result (hd frags) a))))"

text \<open>
  \<open>ip_defrag_user\<close> on the seven queues of \<^verbatim>\<open>fraglist\<close>. A queue holds the incomplete packets, newest
  first; a new fragment joins the first one with its addresses and protocol.
\<close>

definition same_datagram :: "u8 list \<Rightarrow> u8 list \<Rightarrow> bool" where
  "same_datagram a b \<longleftrightarrow> iph_saddr a = iph_saddr b \<and> iph_daddr a = iph_daddr b \<and> iph_protocol a = iph_protocol b"

fun defrag_queue :: "u8 \<Rightarrow> u8 list list list \<Rightarrow> u8 list \<Rightarrow> (u8 list list list \<times> u8 list option) option outcome" where
  "defrag_queue stale [] skb = Ok None"
| "defrag_queue stale (fs # q) skb =
     (if same_datagram (hd fs) skb then
        bind_outcome (gather_frag stale fs skb) (\<lambda>(fs, r). Ok (Some (if r = None then fs # q else q, r)))
      else bind_outcome (defrag_queue stale q skb)
             (\<lambda>r. Ok (map_option (\<lambda>(q, r). (fs # q, r)) r)))"

definition IP_DEFRAG_VS_FWD :: nat where "IP_DEFRAG_VS_FWD = 7"

definition ip_defrag :: "u8 \<Rightarrow> u8 list list list list \<Rightarrow> u8 list \<Rightarrow> nat \<Rightarrow> (u8 list list list list \<times> u8 list option) outcome" where
  "ip_defrag stale fraglist skb user =
     (if user \<ge> length fraglist then Barf ''fraglist out of range''
      else
        bind_outcome (defrag_queue stale (fraglist ! user) skb)
          (\<lambda>r. case r of
                 Some (q, res) \<Rightarrow> Ok (fraglist[user := q], res)
               | None \<Rightarrow> Ok (fraglist[user := [skb] # fraglist ! user], None)))"

definition init_fraglist :: "u8 list list list list" where
  "init_fraglist = replicate IP_DEFRAG_VS_FWD []"

section \<open>Which hooks a packet meets\<close>

lemma ip_forward_hdr_append:
  assumes "12 \<le> length h"
  shows "ip_forward_hdr (h @ p) = map_option (\<lambda>h'. h' @ p) (ip_forward_hdr h)"
proof -
  have "(h @ p) ! 8 = h ! 8" "(h @ p)[8 := v] = h[8 := v] @ p" for v
    using assms by (simp_all add: nth_append list_update_append)
  moreover have "get_check (g @ p) = get_check g" "set_check (g @ p) c = set_check g c @ p" if "12 \<le> length g" for g c
    using that by (simp_all add: get_check_def set_check_def put16_def nth_append list_update_append)
  ultimately show ?thesis
    using assms by (simp add: ip_forward_hdr_def Let_def)
qed

lemma find_first_map: "find_first P (map f xs) = map_option f (find_first (P \<circ> f) xs)"
  by (induction xs) auto

lemma find_first_cong: "(\<And>x. x \<in> set xs \<Longrightarrow> P x = Q x) \<Longrightarrow> find_first P xs = find_first Q xs"
  by (induction xs) auto

text \<open>What a packet leaves as it was: the cache stays right, routes lead where they led, and devices keep their names.\<close>

definition same_routing :: "ip_state \<Rightarrow> ip_state \<Rightarrow> bool" where
  "same_routing st st' \<longleftrightarrow>
     (cache_ok st \<longrightarrow> cache_ok st') \<and> (\<forall>d s t. input_entry d s t st' = input_entry d s t st) \<and>
     (\<forall>n. map_option ifindex (interface_by_name n st') = map_option ifindex (interface_by_name n st)) \<and>
     (\<forall>d. dev_name d st' = dev_name d st)"

lemma same_routing_tables: "interfaces st' = interfaces st \<Longrightarrow> routes st' = routes st \<Longrightarrow> cache_ok st' \<Longrightarrow> same_routing st st'"
proof -
  assume a: "interfaces st' = interfaces st" "routes st' = routes st" "cache_ok st'"
  then have t: "find_local d st' = find_local d st" "find_route d st' = find_route d st" "dev_by_index i st' = dev_by_index i st" for d i
    by (simp_all add: find_local_def find_route_def dev_by_index_def)
  have "input_entry d s t st' = input_entry d s t st" "dev_name r st' = dev_name r st" for d s t r
    unfolding input_entry_def dev_name_def t by (rule refl)+
  then show ?thesis using a by (simp add: same_routing_def interface_by_name_def)
qed

lemma same_routing_trans: "same_routing st st' \<Longrightarrow> same_routing st' st'' \<Longrightarrow> same_routing st st''"
  by (simp add: same_routing_def)

text \<open>Counting packets on a device changes nothing that routing looks at.\<close>

locale stats_only =
  fixes f :: "net_device \<Rightarrow> net_device"
  assumes same: "ip_ptr (f d) = ip_ptr d" "ifindex (f d) = ifindex d" "dname (f d) = dname d"
begin

lemma find_local_stats:
  "map_option ifindex (find_local a (on_dev r f st)) = map_option ifindex (find_local a st)"
proof -
  have "find_first ((\<lambda>dev. case ip_ptr dev of None \<Rightarrow> False | Some ifas \<Rightarrow> \<exists>ifa\<in>set ifas. ifa_local ifa = a)
      \<circ> (\<lambda>dev. if c dev then f dev else dev)) xs =
    find_first (\<lambda>dev. case ip_ptr dev of None \<Rightarrow> False | Some ifas \<Rightarrow> \<exists>ifa\<in>set ifas. ifa_local ifa = a) xs" for c xs
    by (rule find_first_cong) (simp add: same)
  then show ?thesis
    by (simp add: find_local_def on_dev_def find_first_map option.map_comp comp_def same cong: if_cong)
      (cases "find_first (\<lambda>dev. case ip_ptr dev of None \<Rightarrow> False | Some ifas \<Rightarrow> \<exists>ifa\<in>set ifas. ifa_local ifa = a) (interfaces st)"; simp add: same)
qed

lemma select_addr_stats:
  "inet_select_addr (dev_by_index i (on_dev r f st)) a = inet_select_addr (dev_by_index i st) a"
proof -
  have "find_first ((\<lambda>d. ifindex d = i) \<circ> (\<lambda>dev. if c dev then f dev else dev)) xs = find_first (\<lambda>d. ifindex d = i) xs" for c xs
    by (rule find_first_cong) (simp add: same)
  then show ?thesis
    by (simp add: dev_by_index_def on_dev_def find_first_map)
      (cases "find_first (\<lambda>d. ifindex d = i) (interfaces st)"; simp add: inet_select_addr_def same)
qed

lemma routes_stats [simp]: "routes (on_dev r f st) = routes st" "rcache (on_dev r f st) = rcache st"
  "find_route a (on_dev r f st) = find_route a st"
  by (simp_all add: on_dev_def find_route_def)

lemma find_local_cases:
  obtains (none) "find_local a st = None" "find_local a (on_dev r f st) = None"
  | (some) d d' where "find_local a st = Some d" "find_local a (on_dev r f st) = Some d'" "ifindex d' = ifindex d"
  using find_local_stats [of a r st]
  by (cases "find_local a st"; cases "find_local a (on_dev r f st)"; simp)

lemma input_entry_stats: "input_entry a b t (on_dev r f st) = input_entry a b t st"
  by (rule find_local_cases [of a st r]) (simp_all add: input_entry_def local_input_entry_def)

lemma output_entry_stats: "output_entry flp (on_dev r f st) = output_entry flp st"
proof -
  have "route_output_entry (on_dev r f st) q flp = route_output_entry st q flp" for q
    by (simp add: route_output_entry_def select_addr_stats)
  then show ?thesis
    by (cases rule: find_local_cases [of "fl4_dst flp" st r]) (simp_all add: output_entry_def local_output_entry_def)
qed

lemma dev_index_stats: "dev_index d (on_dev r f st) = dev_index d st"
proof -
  let ?P = "\<lambda>d. take IFNAMSIZ (dname d) = take IFNAMSIZ ''lo''"
  have "find_first (?P \<circ> (\<lambda>dev. if c dev then f dev else dev)) xs = find_first ?P xs" for c xs
    by (rule find_first_cong) (simp add: same)
  moreover have "interfaces (on_dev r f st) =
      map (\<lambda>dev. if r = Dev (ifindex dev) \<or> r = Loopback_dev \<and> dname dev = ''lo'' then f dev else dev) (interfaces st)"
    by (simp add: on_dev_def)
  ultimately have "find_first ?P (interfaces (on_dev r f st)) =
      map_option (\<lambda>dev. if r = Dev (ifindex dev) \<or> r = Loopback_dev \<and> dname dev = ''lo'' then f dev else dev)
        (find_first ?P (interfaces st))"
    by (simp only: find_first_map)
  then show ?thesis
    by (cases d; cases "find_first ?P (interfaces st)") (simp_all add: dev_index_def interface_by_name_def same)
qed

lemma interface_stats:
  "map_option ifindex (interface_by_name n (on_dev r f st)) = map_option ifindex (interface_by_name n st)"
proof -
  have "find_first ((\<lambda>d. take IFNAMSIZ (dname d) = take IFNAMSIZ n) \<circ> (\<lambda>dev. if c dev then f dev else dev)) xs =
      find_first (\<lambda>d. take IFNAMSIZ (dname d) = take IFNAMSIZ n) xs" for c xs
    by (rule find_first_cong) (simp add: same)
  then show ?thesis
    by (cases "find_first (\<lambda>d. take IFNAMSIZ (dname d) = take IFNAMSIZ n) (interfaces st)")
      (simp_all add: interface_by_name_def on_dev_def find_first_map same)
qed

lemma dev_name_stats: "dev_name d (on_dev r f st) = dev_name d st"
proof -
  have "find_first ((\<lambda>d. ifindex d = i) \<circ> (\<lambda>dev. if c dev then f dev else dev)) xs = find_first (\<lambda>d. ifindex d = i) xs" for c xs i
    by (rule find_first_cong) (simp add: same)
  then show ?thesis
    by (cases d) (auto simp: dev_name_def dev_by_index_def on_dev_def find_first_map same split: option.splits)
qed

lemma cache_ok_stats: "cache_ok (on_dev r f st) \<longleftrightarrow> cache_ok st"
  by (simp add: cache_ok_def entry_ok_def input_entry_stats output_entry_stats)

lemma same_routing_stats: "same_routing st (on_dev r f st') \<longleftrightarrow> same_routing st st'"
  by (simp add: same_routing_def cache_ok_stats input_entry_stats interface_stats dev_name_stats)

end

interpretation rx: stats_only "count_rx n"
  for n
  by unfold_locales (simp_all add: count_rx_def)

interpretation tx: stats_only "count_tx n"
  for n
  by unfold_locales (simp_all add: count_tx_def)

definition accept_all :: hooks where
  "accept_all n pkt = Inr pkt"

lemmas path_defs = nf_hook_def then_events_def accept_all_def nf_send_def nf_send_local_def ip_finish_output_def
  ip_output_def dst_output_def ip_local_deliver_def dst_input_def

text \<open>A header in which at most the time to live and the checksum have changed.\<close>

definition header_kept :: "u8 list \<Rightarrow> u8 list \<Rightarrow> bool" where
  "header_kept h h' \<longleftrightarrow> length h' = length h \<and> (\<forall>i. i \<notin> {8, 10, 11} \<longrightarrow> h' ! i = h ! i)"

lemma ip_forward_hdr_kept: "ip_forward_hdr h = Some h' \<Longrightarrow> header_kept h h'"
  by (auto simp: ip_forward_hdr_def header_kept_def set_check_def put16_def Let_def split: if_splits)

lemma pkt_intact_fields [simp]:
  "pkt_intact (pkt\<lparr>plink := n\<rparr>) = pkt_intact pkt" "pkt_intact (pkt\<lparr>pdst := e\<rparr>) = pkt_intact pkt" "pkt_intact (pkt\<lparr>pdev := d\<rparr>) = pkt_intact pkt"
  by (cases "pmaster pkt"; simp add: pkt_intact_def split_beta)+

lemma pkt_update_ok:
  assumes "pkt_intact pkt" "length b = length (pbytes pkt)" "off + sz \<le> length b"
    and "\<And>i. i < off \<or> off + sz \<le> i \<Longrightarrow> b ! i = pbytes pkt ! i"
  obtains pm where "pkt_update off sz (pkt\<lparr>pbytes := b\<rparr>) = Ok (pkt\<lparr>pbytes := b, pmaster := pm\<rparr>)" "pkt_intact (pkt\<lparr>pbytes := b, pmaster := pm\<rparr>)"
proof (cases "pmaster pkt")
  case None
  then show thesis using that [of None] by (simp add: pkt_update_def pkt_intact_def)
next
  case (Some mw)
  obtain m wl where m: "pmaster pkt = Some (m, wl)" using Some by (cases mw) simp
  let ?m = "if off + sz > wl then map (\<lambda>i. if off \<le> i \<and> i < off + sz then b ! i else m ! i) [0..<length m] else m"
  have "pkt_intact (pkt\<lparr>pbytes := b, pmaster := Some (?m, wl)\<rparr>)"
    using assms m by (auto simp: pkt_intact_def not_less)
  moreover have "pkt_update off sz (pkt\<lparr>pbytes := b\<rparr>) =
      pkt_checked (pkt\<lparr>pbytes := b, pmaster := Some (?m, wl)\<rparr>) (Ok (pkt\<lparr>pbytes := b, pmaster := Some (?m, wl)\<rparr>))"
    using m assms(3) by (simp add: pkt_update_def Let_def cong: if_cong)
  ultimately show thesis using that [of "Some (?m, wl)"] by (simp only: pkt_checked_def if_True)
qed

text \<open>Both updates of a forwarded header succeed on a packet that was not tampered with.\<close>

lemma ip_forward_intact:
  assumes "pkt_intact pkt" "12 \<le> length (pbytes pkt)" "ip_forward_hdr (pbytes pkt) = Some b"
  obtains pm where "pkt_intact (pkt\<lparr>pbytes := b, pmaster := pm\<rparr>)"
    "ip_forward hook fr fa pkt st = nf_hook hook NF_IP_FORWARD (dst_output hook) (pkt\<lparr>pbytes := b, pmaster := pm\<rparr>) st"
proof -
  let ?b = "(pbytes pkt)[8 := pbytes pkt ! 8 - 1]"
  obtain p1 where 1: "pkt_update 8 1 (pkt\<lparr>pbytes := ?b\<rparr>) = Ok (pkt\<lparr>pbytes := ?b, pmaster := p1\<rparr>)" "pkt_intact (pkt\<lparr>pbytes := ?b, pmaster := p1\<rparr>)"
    by (rule pkt_update_ok [OF assms(1), of ?b 8 1]) (use assms(2) in auto)
  obtain c where "b = set_check ?b c" using assms(3) by (auto simp: ip_forward_hdr_def Let_def split: if_splits)
  then have "length b = length ?b" "\<And>i. i < 10 \<or> 12 \<le> i \<Longrightarrow> b ! i = ?b ! i" by (auto simp: set_check_def put16_def)
  then obtain p2 where 2: "pkt_update 10 2 ((pkt\<lparr>pbytes := ?b, pmaster := p1\<rparr>)\<lparr>pbytes := b\<rparr>) = Ok (pkt\<lparr>pbytes := b, pmaster := p2\<rparr>)"
      "pkt_intact (pkt\<lparr>pbytes := b, pmaster := p2\<rparr>)"
    using pkt_update_ok [OF 1(2), of b 10 2] assms(2) by auto
  show thesis by (rule that [of p2]) (use 1(1) 2 assms(3) in \<open>simp_all add: ip_forward_def\<close>)
qed

lemma ip_rcv_finish_route:
  assumes "cache_ok st" "dev_index (pdev pkt) st \<noteq> 0" "pdst pkt = None"
  defines "b \<equiv> pbytes pkt"
  shows "case input_entry (iph_daddr b) (iph_saddr b) (iph_tos b) st of
           None \<Rightarrow> \<exists>st'. ip_rcv_finish hook fr fa pkt st = Ok ([Freed], -1, st') \<and> same_routing st st'
         | Some e \<Rightarrow> \<exists>st'. ip_rcv_finish hook fr fa pkt st = dst_input hook fr fa (pkt\<lparr>pdst := Some e\<rparr>) st' \<and> same_routing st st'"
  using ip_route_input_spec [OF assms(1,2), of "iph_daddr b" "iph_saddr b" "iph_tos b"] assms(3)
  by (auto simp: ip_rcv_finish_def b_def Let_def same_routing_tables split: option.splits prod.splits if_splits)

lemma ip_rcv_spec:
  assumes "cache_ok st" "dev_index (pdev pkt) st \<noteq> 0" "pdst pkt = None"
    and "pbytes pkt = h @ payload" "20 \<le> length h" "length h \<le> 60" "csum_partial 0 h 0 = 0xFFFF" "2 \<le> unat (h ! 8)" "pkt_intact pkt"
  shows "case input_entry (iph_daddr (h @ payload)) (iph_saddr (h @ payload)) (iph_tos (h @ payload)) st of
           None \<Rightarrow> \<exists>st'. ip_rcv accept_all fr fa pkt st = Ok ([At_hook NF_IP_PRE_ROUTING, Freed], -1, st') \<and> same_routing st st'
         | Some e \<Rightarrow>
             if rt_input e = Ip_local_deliver
             then \<exists>st'. ip_rcv accept_all fr fa pkt st =
                    Ok ([At_hook NF_IP_PRE_ROUTING, At_hook NF_IP_LOCAL_IN, Delivered (h @ payload) (pflags pkt), Freed], 0, st') \<and> same_routing st st'
             else \<exists>st' h'. ip_rcv accept_all fr fa pkt st =
                    Ok ([At_hook NF_IP_PRE_ROUTING, At_hook NF_IP_FORWARD, At_hook NF_IP_POST_ROUTING,
                         Sent (rt_dev e) (h' @ payload) (pflags pkt), Freed], 0, st') \<and> same_routing st st' \<and>
                    csum_partial 0 h' 0 = 0xFFFF \<and> unat (h' ! 8) = unat (h ! 8) - 1 \<and> header_kept h h'"
proof -
  let ?b = "h @ payload"
  define st1 where "st1 = on_dev (pdev pkt) (count_rx (plink pkt + length (pbytes pkt))) st"
  let ?p = "pkt\<lparr>plink := 0\<rparr>"
  let ?E = "input_entry (iph_daddr ?b) (iph_saddr ?b) (iph_tos ?b)"
  have ok: "cache_ok st1" "dev_index (pdev pkt) st1 \<noteq> 0"
    using assms(1,2) by (simp_all add: st1_def rx.cache_ok_stats rx.dev_index_stats)
  have E: "?E st1 = ?E st" unfolding st1_def by (rule rx.input_entry_stats)
  have same: "same_routing st st'" if "same_routing st1 st'" for st'
    using that rx.same_routing_stats [of st _ _ st] unfolding st1_def by (auto simp: same_routing_def intro: same_routing_trans)
  have rcv: "ip_rcv accept_all fr fa pkt st = then_events [At_hook NF_IP_PRE_ROUTING] (ip_rcv_finish accept_all fr fa ?p st1)"
    by (simp add: ip_rcv_def nf_hook_def accept_all_def Let_def st1_def)
  have p: "pdev ?p = pdev pkt" "pdst ?p = None" "pbytes ?p = ?b" using assms(3,4) by simp_all
  note r = ip_rcv_finish_route [of st1 ?p, unfolded p(1), OF ok p(2), of accept_all fr fa, unfolded p(3) E]
  show ?thesis
  proof (cases "?E st")
    case None
    then show ?thesis using r rcv same by (auto simp: then_events_def)
  next
    case (Some e)
    then obtain st' where f: "ip_rcv_finish accept_all fr fa ?p st1 = dst_input accept_all fr fa (?p\<lparr>pdst := Some e\<rparr>) st'" "same_routing st st'"
      using r same by auto
    show ?thesis
    proof (cases "rt_input e = Ip_local_deliver")
      case True
      then show ?thesis using Some rcv f assms(4) by (simp add: path_defs)
    next
      case False
      then have e: "rt_input e = Ip_forward" "rt_output e = Ip_output"
        using Some by (auto simp: input_entry_def local_input_entry_def route_input_entry_def split: option.splits)
      obtain h' where h': "ip_forward_hdr h = Some h'" "csum_partial 0 h' 0 = 0xFFFF" "unat (h' ! 8) = unat (h ! 8) - 1"
        using ip_forward_valid [of h] assms(5-8) by auto
      let ?q = "?p\<lparr>pdst := Some e\<rparr>"
      have "ip_forward_hdr (pbytes ?q) = Some (h' @ payload)"
        using h'(1) assms(4,5) by (simp add: ip_forward_hdr_append)
      moreover have "pkt_intact ?q" "12 \<le> length (pbytes ?q)" using assms(4,5,9) by simp_all
      ultimately obtain pm where "ip_forward accept_all fr fa ?q st' =
          nf_hook accept_all NF_IP_FORWARD (dst_output accept_all) (?q\<lparr>pbytes := h' @ payload, pmaster := pm\<rparr>) st'"
        using ip_forward_intact by blast
      then show ?thesis
        using False Some rcv f e h'(2,3) ip_forward_hdr_kept [OF h'(1)] by (auto simp: path_defs tx.same_routing_stats)
    qed
  qed
qed

text \<open>C1. When every hook accepts and the route cache is right (\<open>cache_ok\<close>), a packet that arrives on a device, with a header that verifies, a
  time to live of at least 2 and no byte changed behind the back of its master copy, takes one of three paths. Without a route it meets
  the pre-routing hook and is freed; for a
  local address it meets pre-routing and local-in and is delivered unchanged; otherwise it meets
  pre-routing, forward and post-routing, in this order, and leaves on the device of the route with its time to
  live one lower, a header that still verifies and is otherwise the same, and its payload unchanged. Routes, interfaces and the correctness of the cache are as before. (For a time to live of 0 or 1 see
  \<open>ip_forward_ttl_zero\<close> and \<open>ttl_expired\<close>.)\<close>

theorem ip_rcv_paths:
  assumes "cache_ok st" "dev_index (pdev pkt) st \<noteq> 0" "pdst pkt = None"
    and "pbytes pkt = h @ payload" "20 \<le> length h" "length h \<le> 60" "csum_partial 0 h 0 = 0xFFFF" "2 \<le> unat (h ! 8)" "pkt_intact pkt"
  shows "case input_entry (iph_daddr (h @ payload)) (iph_saddr (h @ payload)) (iph_tos (h @ payload)) st of
           None \<Rightarrow> \<exists>st'. ip_rcv accept_all fr fa pkt st = Ok ([At_hook NF_IP_PRE_ROUTING, Freed], -1, st') \<and> same_routing st st'
         | Some e \<Rightarrow>
             if rt_input e = Ip_local_deliver
             then \<exists>st'. ip_rcv accept_all fr fa pkt st =
                    Ok ([At_hook NF_IP_PRE_ROUTING, At_hook NF_IP_LOCAL_IN, Delivered (h @ payload) (pflags pkt), Freed], 0, st') \<and> same_routing st st'
             else \<exists>st' h'. ip_rcv accept_all fr fa pkt st =
                    Ok ([At_hook NF_IP_PRE_ROUTING, At_hook NF_IP_FORWARD, At_hook NF_IP_POST_ROUTING,
                         Sent (rt_dev e) (h' @ payload) (pflags pkt), Freed], 0, st') \<and> same_routing st st' \<and>
                    csum_partial 0 h' 0 = 0xFFFF \<and> unat (h' ! 8) = unat (h ! 8) - 1 \<and> header_kept h h'"
  using assms by (rule ip_rcv_spec)

definition sample_pkt :: ippkt where
  "sample_pkt = \<lparr>pbytes = sample_hdr @ [8, 0, 1, 2], plink = 16, pdev = Dev 2, pdst = None, phost = True,
     pmaster = Some (sample_hdr, 0), pflags = None\<rparr>"

theorem ip_rcv_paths_witness:
  "\<exists>st' h'. ip_rcv accept_all False False sample_pkt two_devices =
     Ok ([At_hook NF_IP_PRE_ROUTING, At_hook NF_IP_FORWARD, At_hook NF_IP_POST_ROUTING,
          Sent (Dev 3) (h' @ [8, 0, 1, 2]) None, Freed], 0, st') \<and> csum_partial 0 h' 0 = 0xFFFF \<and> unat (h' ! 8) = 63 \<and> header_kept sample_hdr h'"
proof -
  let ?b = "sample_hdr @ [8, 0, 1, 2]"
  have "map_option (\<lambda>e. (rt_input e, rt_dev e)) (input_entry (iph_daddr ?b) (iph_saddr ?b) (iph_tos ?b) two_devices)
      = Some (Ip_forward, Dev 3)" by code_simp
  then obtain e where e: "input_entry (iph_daddr ?b) (iph_saddr ?b) (iph_tos ?b) two_devices = Some e"
    "rt_input e = Ip_forward" "rt_dev e = Dev 3" by auto
  have h: "length sample_hdr = 20" "unat (sample_hdr ! 8) = 64" by (simp_all add: sample_hdr_def)
  have c: "csum_partial 0 sample_hdr 0 = 0xFFFF" by code_simp
  have d: "dev_index (pdev sample_pkt) two_devices \<noteq> 0" "pdst sample_pkt = None" "pbytes sample_pkt = ?b"
    by (simp_all add: sample_pkt_def dev_index_def)
  have fl: "pflags sample_pkt = None" by (simp add: sample_pkt_def)
  have i: "pkt_intact sample_pkt" by (simp add: pkt_intact_def sample_pkt_def nth_append)
  from ip_rcv_paths [OF two_devices_ok d, of False False] h c e i fl show ?thesis by auto
qed

text \<open>
  A packet whose time to live runs out. If it is linear, an ICMP error is sent and the packet is freed. If it is not, which is the default, and no hook has made
  its header writable, reading it for the error finds it modified, and the simulator ends.
\<close>

definition expiring :: "(u8 list \<times> nat) option \<Rightarrow> ippkt" where
  "expiring pm = \<lparr>pbytes = sample_hdr[8 := 1] @ replicate 8 0, plink = 16, pdev = Dev 2, pdst = None, phost = True, pmaster = pm, pflags = None\<rparr>"

lemma ttl_expired:
  "case ip_rcv accept_all False False (expiring None) two_devices of
     Ok (es, r, st) \<Rightarrow> r = 1 \<and> last es = Freed \<and> At_hook NF_IP_LOCAL_OUT \<in> set es \<and> At_hook NF_IP_FORWARD \<notin> set es
   | Barf m \<Rightarrow> False"
  "case ip_rcv accept_all False False (expiring (Some (sample_hdr[8 := 1], 0))) two_devices of
     Ok _ \<Rightarrow> False | Barf m \<Rightarrow> m = ''skb modified without being made writable!''"
  by code_simp+

section \<open>What reassembly yields\<close>

definition covers :: "nat \<Rightarrow> u8 list \<Rightarrow> bool" where
  "covers j b \<longleftrightarrow> frag_offset b \<le> j \<and> j < frag_offset b + frag_length b"

definition frag_end :: "u8 list \<Rightarrow> nat" where
  "frag_end b = frag_offset b + frag_length b"

definition last_frag :: "u8 list \<Rightarrow> bool" where
  "last_frag b \<longleftrightarrow> iph_frag_off b div IP_MF mod 2 = 0"

text \<open>A fragment whose header is truthful about its length, within the 70000 bytes of the arrays.\<close>

definition frag_ok :: "u8 list \<Rightarrow> bool" where
  "frag_ok b \<longleftrightarrow> frag_hl b + frag_length b \<le> length b \<and> frag_end b \<le> 70000"

text \<open>The byte at an offset, from the fragment received last of those that cover it.\<close>

definition byte_at :: "u8 list list \<Rightarrow> u8 \<Rightarrow> nat \<Rightarrow> u8" where
  "byte_at fs dflt j =
     (case find_first (covers j) (rev fs) of
        None \<Rightarrow> dflt
      | Some b \<Rightarrow> b ! (frag_hl b + (j - frag_offset b)))"

lemma find_first_append: "find_first P (xs @ ys) = (case find_first P xs of None \<Rightarrow> find_first P ys | Some x \<Rightarrow> Some x)"
  by (induction xs) auto

lemma place_frags_ok:
  assumes "\<forall>b \<in> set fs. frag_ok b"
  shows "\<exists>a'. place_frags fs a = Ok a' \<and> (\<forall>j. filled a' j \<longleftrightarrow> filled a j \<or> (\<exists>b \<in> set fs. covers j b)) \<and>
           (\<forall>j. fdata a' j = byte_at fs (fdata a j) j) \<and> fmax a' = fold (\<lambda>b m. max m (frag_end b)) fs (fmax a) \<and>
           (fended a' \<longleftrightarrow> fended a \<or> (\<exists>b \<in> set fs. last_frag b))"
  using assms
proof (induction fs arbitrary: a)
  case Nil
  then show ?case by (simp add: byte_at_def)
next
  case (Cons b fs)
  obtain a1 where a1: "place_frag b a = Ok a1" "\<And>j. filled a1 j \<longleftrightarrow> covers j b \<or> filled a j"
    "\<And>j. fdata a1 j = (if covers j b then b ! (frag_hl b + (j - frag_offset b)) else fdata a j)"
    "fmax a1 = max (fmax a) (frag_end b)" "fended a1 \<longleftrightarrow> fended a \<or> last_frag b"
    using Cons.prems by (simp add: place_frag_def frag_ok_def frag_end_def covers_def last_frag_def Let_def add.commute)
  have "byte_at fs (fdata a1 j) j = byte_at (b # fs) (fdata a j) j" for j
    by (simp add: byte_at_def a1(3) find_first_append split: option.splits)
  then show ?case
    using Cons.IH [of a1] Cons.prems a1(1,2,4,5) by auto
qed

lemma fold_max_ge: "m \<le> fold (\<lambda>b m. max m (frag_end b)) fs m \<and> (\<forall>b \<in> set fs. frag_end b \<le> fold (\<lambda>b m. max m (frag_end b)) fs m)"
proof (induction fs arbitrary: m)
  case (Cons b fs)
  from Cons.IH [of "max m (frag_end b)"] show ?case by auto
qed simp

lemma fold_max_in: "fold (\<lambda>b m. max m (frag_end b)) fs m = m \<or> (\<exists>b \<in> set fs. frag_end b = fold (\<lambda>b m. max m (frag_end b)) fs m)"
proof (induction fs arbitrary: m)
  case (Cons b fs)
  from Cons.IH [of "max m (frag_end b)"] show ?case by (auto simp: max_def split: if_splits)
qed simp

text \<open>C9. When the fragments of a packet, in whatever order and with whatever overlaps, include a last one and leave no
  gap below the greatest end, reassembly yields one packet, otherwise it waits. The packet consists of all
  bytes of the fragment received first, with the fragment field cleared and the total length set for header
  and payload, followed by the whole payload, each byte from the latest fragment that covers it: the payload of the
  first fragment is in it twice, and the packet is longer than its header says by just that.\<close>

theorem gather_frag_reassembles:
  assumes "\<forall>b \<in> set (fs @ [skb]). frag_ok b" "length fs < 20"
  shows "\<exists>n. (\<forall>b \<in> set (fs @ [skb]). frag_end b \<le> n) \<and> (n = 0 \<or> (\<exists>b \<in> set (fs @ [skb]). frag_end b = n)) \<and>
    gather_frag stale fs skb =
      Ok (if (\<exists>b \<in> set (fs @ [skb]). last_frag b) \<and> (\<forall>j < n. \<exists>b \<in> set (fs @ [skb]). covers j b)
          then ([], Some (let first = hd (fs @ [skb]); tot = word_of_nat (n + frag_hl first) :: u16
                          in first[6 := 0, 7 := 0, 2 := byte1 tot, 3 := byte0 tot]
                             @ map (byte_at (fs @ [skb]) stale) [0..<n]))
          else (fs @ [skb], None))"
proof -
  let ?fs = "fs @ [skb]" and ?n = "fold (\<lambda>b m. max m (frag_end b)) (fs @ [skb]) 0"
  obtain a where a: "place_frags ?fs \<lparr>filled = \<lambda>_. False, fdata = \<lambda>_. stale, fmax = 0, fended = False\<rparr> = Ok a"
    "\<And>j. filled a j \<longleftrightarrow> (\<exists>b \<in> set ?fs. covers j b)" "\<And>j. fdata a j = byte_at ?fs stale j" "fmax a = ?n"
    "fended a \<longleftrightarrow> (\<exists>b \<in> set ?fs. last_frag b)"
    using place_frags_ok [OF assms(1), of "\<lparr>filled = \<lambda>_. False, fdata = \<lambda>_. stale, fmax = 0, fended = False\<rparr>"] by auto
  have d: "fdata a = byte_at ?fs stale" using a(3) by blast
  have g: "gather_result (hd ?fs) a = (let first = hd ?fs; tot = word_of_nat (?n + frag_hl first) :: u16
      in first[6 := 0, 7 := 0, 2 := byte1 tot, 3 := byte0 tot] @ map (byte_at ?fs stale) [0..<?n])"
    unfolding gather_result_def Let_def a(4) d ..
  have "gather_frag stale fs skb =
      Ok (if (\<exists>b \<in> set ?fs. last_frag b) \<and> (\<forall>j < ?n. \<exists>b \<in> set ?fs. covers j b)
          then ([], Some (gather_result (hd ?fs) a)) else (?fs, None))"
    using assms(2) a(1,2,4,5) by (auto simp: gather_frag_def Let_def)
  then show ?thesis
    using fold_max_ge [of 0 ?fs] fold_max_in [of ?fs 0] unfolding g by (intro exI [of _ ?n] conjI) blast+
qed

text \<open>Two fragments of a UDP packet with sixteen bytes of payload, the first with its first eight.\<close>

definition frag1 :: "u8 list" where
  "frag1 = [0x45, 0, 0, 28, 0, 0, 0x20, 0, 64, 17, 0, 0, 192, 168, 0, 2, 192, 168, 1, 2, 1, 2, 3, 4, 5, 6, 7, 8]"

definition frag2 :: "u8 list" where
  "frag2 = [0x45, 0, 0, 28, 0, 0, 0x00, 1, 64, 17, 0, 0, 192, 168, 0, 2, 192, 168, 1, 2, 9, 10, 11, 12, 13, 14, 15, 16]"

lemma frag_examples:
  "frag_ok frag1" "frag_ok frag2" "frag_end frag1 = 8" "frag_end frag2 = 16" "last_frag frag2" "frag_hl frag1 = 20"
  "covers j frag1 \<longleftrightarrow> j < 8" "covers j frag2 \<longleftrightarrow> 8 \<le> j \<and> j < 16"
  by (auto simp: frag1_def frag2_def frag_ok_def frag_end_def last_frag_def frag_hl_def frag_length_def
      frag_offset_def iph_frag_off_def iph_tot_len_def be16_def get_ihl_def IP_OFFSET_def IP_MF_def covers_def)

theorem gather_frag_reassembles_witness:
  "\<exists>n. (\<forall>b \<in> set ([frag1] @ [frag2]). frag_end b \<le> n) \<and> (n = 0 \<or> (\<exists>b \<in> set ([frag1] @ [frag2]). frag_end b = n)) \<and>
    gather_frag 0 [frag1] frag2 =
      Ok (if (\<exists>b \<in> set ([frag1] @ [frag2]). last_frag b) \<and> (\<forall>j < n. \<exists>b \<in> set ([frag1] @ [frag2]). covers j b)
          then ([], Some (let first = hd ([frag1] @ [frag2]); tot = word_of_nat (n + frag_hl first) :: u16
                          in first[6 := 0, 7 := 0, 2 := byte1 tot, 3 := byte0 tot]
                             @ map (byte_at ([frag1] @ [frag2]) 0) [0..<n]))
          else ([frag1] @ [frag2], None))"
  by (rule gather_frag_reassembles) (simp_all add: frag_examples)

text \<open>The bytes of that packet: the first eight bytes of payload come twice.\<close>

lemma reassembled_payload:
  "bind_outcome (gather_frag 0 [frag1] frag2) (\<lambda>(_, r). Ok (map_option (drop 20) r)) =
   Ok (Some [1, 2, 3, 4, 5, 6, 7, 8, 1, 2, 3, 4, 5, 6, 7, 8, 9, 10, 11, 12, 13, 14, 15, 16])"
  by code_simp

text \<open>The last of the users that the enumeration of defragmentation users names has no queue.\<close>

lemma defrag_last_user: "ip_defrag stale init_fraglist skb IP_DEFRAG_VS_FWD = Barf ''fraglist out of range''"
  by (simp add: ip_defrag_def init_fraglist_def)

text \<open>
  A fragment with the greatest offset and a length beyond 4472 overruns the arrays on the stack.
\<close>

lemma frag_overrun:
  "frag_offset b = 65528 \<Longrightarrow> frag_length b > 4472 \<Longrightarrow> place_frag b a = Barf ''stack overrun''"
  by (simp add: place_frag_def Let_def)

lemma csum_message:
  assumes "4 \<le> length m" "length m \<le> 65536" "put16 2 m 0 = m"
  shows "csum_partial 0 (put16 2 m (ip_compute_csum 0 m)) 0 = 0xFFFF"
proof -
  have "unat (csum_partial 0 m 0) = oc (wsum m)"
    using assms(2) by (simp add: csum_partial_def unat_do_csum_u32)
  then have "unat (ip_compute_csum 0 m) = 65535 - oc (wsum m)"
    using oc_unique [OF oc_eq_refl, of "oc (wsum m)"] oc_le [of "wsum m"]
    by (simp add: ip_compute_csum_def unat_csum_fold)
  then have "oc (wsum (put16 2 m (ip_compute_csum 0 m))) = 65535"
    using icmphdr.complement_verifies [of m "ip_compute_csum 0 m"] assms(1,3) by simp
  then show ?thesis using assms(2) by (simp add: csum_partial_valid)
qed

lemma csum_ip_header:
  assumes "length h = 20" "set_check h 0 = h"
  shows "csum_partial 0 (set_check h (ip_fast_csum 0 h 5)) 0 = 0xFFFF"
proof -
  have "unat (ip_fast_csum 0 h 5) = 65535 - oc (wsum h)"
    using unat_ip_fast_csum [of 5 h] assms(1) by simp
  then have "oc (wsum (set_check h (ip_fast_csum 0 h 5))) = 65535"
    using iphdr.complement_verifies [of h "ip_fast_csum 0 h 5"] assms by simp
  then show ?thesis using assms(1) by (simp add: csum_partial_valid set_check_def)
qed

section \<open>ICMP errors\<close>

lemma icmp_packet_parts:
  assumes "length q \<le> 548"
  shows "\<exists>h m. icmp_packet tos rt type code q = h @ m \<and> length h = 20 \<and> csum_partial 0 h 0 = 0xFFFF \<and>
           csum_partial 0 m 0 = 0xFFFF \<and> drop 8 m = q \<and> length m = length q + 8 \<and>
           be16 2 h = length q + 28 \<and> get32 12 h = rt_src rt \<and> get32 16 h = rt_dst rt"
proof -
  let ?len = "length q + 28"
  define h where "h = [0x45, tos, byte1 (word_of_nat ?len), byte0 (word_of_nat ?len), 0, 0, 0, 0, 255, 1, 0, 0]
    @ bytes32 (rt_src rt) @ bytes32 (rt_dst rt)"
  define m where "m = [word_of_nat type, word_of_nat code, 0, 0, 0, 0, 0, 0] @ q"
  have z: "byte0 0 = 0" "byte1 0 = 0" by (simp_all add: byte0_def byte1_def)
  have h1: "length h = 20" by (simp add: h_def bytes32_def)
  have "h ! 10 = 0" "h ! 11 = 0" by (simp_all add: h_def)
  then have h2: "set_check h 0 = h" using h1 by (simp add: set_check_def put16_def z) (metis list_update_id)
  have m1: "4 \<le> length m" "length m \<le> 65536" using assms by (simp_all add: m_def)
  have "m ! 2 = 0" "m ! 3 = 0" by (simp_all add: m_def)
  then have m2: "put16 2 m 0 = m" by (simp add: put16_def z) (metis list_update_id)
  have "unat (word_of_nat ?len :: u16) = ?len"
    using assms unfolding unat_of_nat by (simp add: take_bit_nat_eq_self)
  then have "be16 2 h = ?len"
    by (simp add: be16_def h_def unat_byte0 unat_byte1 mult.commute [of _ 256])
  moreover have "get32 12 h = rt_src rt" "get32 16 h = rt_dst rt"
    by (simp_all add: get32_def h_def bytes32_def)
  moreover have "drop 8 (put16 2 m c) = q" for c
    by (simp add: m_def put16_def drop_update_cancel)
  moreover have "icmp_packet tos rt type code q = set_check h (ip_fast_csum 0 h 5) @ put16 2 m (ip_compute_csum 0 m)"
    by (simp only: icmp_packet_def Let_def h_def m_def)
  moreover have "length m = length q + 8" by (simp add: m_def)
  ultimately show ?thesis
    using csum_ip_header [OF h1 h2] csum_message [OF m1 m2] h1
    by (intro exI conjI) (assumption | simp add: set_check_def be16_def get32_def nth_put16)+
qed

text \<open>C36. An ICMP error that the simulator builds for a packet is well formed: its IP header and its ICMP message verify, the
  total length of its header is its length, at most 576 bytes, it quotes the packet from its first byte
  on, and it goes to the destination and from the source that the route gives.\<close>

theorem icmp_packet_well_formed:
  fixes b :: "u8 list"
  defines "q \<equiv> take (icmp_length (length b) - 28) b"
  defines "p \<equiv> \<lambda>tos rt type code. icmp_packet tos rt type code q"
  shows "csum_partial 0 (take 20 (p tos rt type code)) 0 = 0xFFFF \<and>
         csum_partial 0 (drop 20 (p tos rt type code)) 0 = 0xFFFF \<and>
         iph_tot_len (p tos rt type code) = length (p tos rt type code) \<and>
         length (p tos rt type code) \<le> 576 \<and> drop 28 (p tos rt type code) = q \<and>
         iph_saddr (p tos rt type code) = rt_src rt \<and> iph_daddr (p tos rt type code) = rt_dst rt"
proof -
  have len: "length q \<le> 548" by (simp add: q_def icmp_length_def Let_def)
  obtain h m where p: "p tos rt type code = h @ m" "length h = 20" "csum_partial 0 h 0 = 0xFFFF" "csum_partial 0 m 0 = 0xFFFF"
    "drop 8 m = q" "length m = length q + 8" "be16 2 h = length q + 28" "get32 12 h = rt_src rt" "get32 16 h = rt_dst rt"
    using icmp_packet_parts [OF len, of tos rt type code] unfolding p_def by blast
  have "be16 2 (h @ m) = be16 2 h" "get32 12 (h @ m) = get32 12 h" "get32 16 (h @ m) = get32 16 h"
    using p(2) by (simp_all add: be16_def get32_def nth_append)
  then show ?thesis
    using p len by (simp add: iph_tot_len_def iph_saddr_def iph_daddr_def)
qed

end
