(* ===== verification/Clist.thy ===== *)
theory Clist
  imports Nfsim_Prelude
begin

text \<open>
  The intrusive lists of core/list.h, on an explicit store: \<open>lheap\<close> gives the \<^verbatim>\<open>next\<close> and
  \<^verbatim>\<open>prev\<close> fields of the \<^verbatim>\<open>struct list_head\<close> at every address, \<open>hheap\<close> the cells of the
  single-pointer hash lists. The representation predicates \<open>clist\<close> and \<open>hlist\<close> say which list
  of entries a head stands for; every operation is shown to implement the operation on lists it is
  named after and to leave disjoint lists alone. The contract of a circular list is the locale
  \<open>ring\<close>, interpreted on the plain and on the RCU operations.
\<close>

section \<open>The circular lists\<close>

type_synonym addr = u64

record lheap =
  lnext :: "addr \<Rightarrow> addr"
  lprev :: "addr \<Rightarrow> addr"

definition LIST_POISON1 :: addr where "LIST_POISON1 = 0x00100100"
definition LIST_POISON2 :: addr where "LIST_POISON2 = 0x00200200"

definition set_next :: "addr \<Rightarrow> addr \<Rightarrow> lheap \<Rightarrow> lheap" where
  "set_next p q h = h\<lparr>lnext := (lnext h)(p := q)\<rparr>"

definition set_prev :: "addr \<Rightarrow> addr \<Rightarrow> lheap \<Rightarrow> lheap" where
  "set_prev p q h = h\<lparr>lprev := (lprev h)(p := q)\<rparr>"

definition INIT_LIST_HEAD :: "addr \<Rightarrow> lheap \<Rightarrow> lheap" where
  "INIT_LIST_HEAD ptr h = set_prev ptr ptr (set_next ptr ptr h)"

definition list_add_between :: "addr \<Rightarrow> addr \<Rightarrow> addr \<Rightarrow> lheap \<Rightarrow> lheap" where
  "list_add_between new prev next h =
     (let h = set_prev next new h;
          h = set_next new next h;
          h = set_prev new prev h
      in set_next prev new h)"

definition list_add :: "addr \<Rightarrow> addr \<Rightarrow> lheap \<Rightarrow> lheap" where
  "list_add new head h = list_add_between new head (lnext h head) h"

definition list_add_tail :: "addr \<Rightarrow> addr \<Rightarrow> lheap \<Rightarrow> lheap" where
  "list_add_tail new head h = list_add_between new (lprev h head) head h"

definition list_add_between_rcu :: "addr \<Rightarrow> addr \<Rightarrow> addr \<Rightarrow> lheap \<Rightarrow> lheap" where
  "list_add_between_rcu new prev next h =
     (let h = set_next new next h;
          h = set_prev new prev h;
          h = set_prev next new h
      in set_next prev new h)"

definition list_add_rcu :: "addr \<Rightarrow> addr \<Rightarrow> lheap \<Rightarrow> lheap" where
  "list_add_rcu new head h = list_add_between_rcu new head (lnext h head) h"

definition list_add_tail_rcu :: "addr \<Rightarrow> addr \<Rightarrow> lheap \<Rightarrow> lheap" where
  "list_add_tail_rcu new head h = list_add_between_rcu new (lprev h head) head h"

definition list_del_between :: "addr \<Rightarrow> addr \<Rightarrow> lheap \<Rightarrow> lheap" where
  "list_del_between prev next h = set_next prev next (set_prev next prev h)"

definition list_del :: "addr \<Rightarrow> lheap \<Rightarrow> lheap" where
  "list_del entry h =
     (let h = list_del_between (lprev h entry) (lnext h entry) h;
          h = set_next entry LIST_POISON1 h
      in set_prev entry LIST_POISON2 h)"

definition list_del_rcu :: "addr \<Rightarrow> lheap \<Rightarrow> lheap" where
  "list_del_rcu entry h =
     (let h = list_del_between (lprev h entry) (lnext h entry) h
      in set_prev entry LIST_POISON2 h)"

definition list_del_init :: "addr \<Rightarrow> lheap \<Rightarrow> lheap" where
  "list_del_init entry h =
     INIT_LIST_HEAD entry (list_del_between (lprev h entry) (lnext h entry) h)"

definition list_move :: "addr \<Rightarrow> addr \<Rightarrow> lheap \<Rightarrow> lheap" where
  "list_move entry head h =
     list_add entry head (list_del_between (lprev h entry) (lnext h entry) h)"

definition list_move_tail :: "addr \<Rightarrow> addr \<Rightarrow> lheap \<Rightarrow> lheap" where
  "list_move_tail entry head h =
     list_add_tail entry head (list_del_between (lprev h entry) (lnext h entry) h)"

definition list_empty :: "addr \<Rightarrow> lheap \<Rightarrow> bool" where
  "list_empty head h \<longleftrightarrow> lnext h head = head"

definition list_splice_at :: "addr \<Rightarrow> addr \<Rightarrow> lheap \<Rightarrow> lheap" where
  "list_splice_at l head h =
     (let first = lnext h l; last = lprev h l; at = lnext h head;
          h = set_prev first head h;
          h = set_next head first h;
          h = set_next last at h
      in set_prev at last h)"

definition list_splice :: "addr \<Rightarrow> addr \<Rightarrow> lheap \<Rightarrow> lheap" where
  "list_splice l head h = (if \<not> list_empty l h then list_splice_at l head h else h)"

definition list_splice_init :: "addr \<Rightarrow> addr \<Rightarrow> lheap \<Rightarrow> lheap" where
  "list_splice_init l head h =
     (if \<not> list_empty l h then INIT_LIST_HEAD l (list_splice_at l head h) else h)"

text \<open>
  The iteration macros. The loop stops when it meets the head again, which on a corrupt list it
  never does: the walk has fuel, and \<open>None\<close> is a walk that did not end within it. The safe
  iteration runs a body on every entry, having read the entry's successor first.
\<close>

fun list_walk :: "(addr \<Rightarrow> addr) \<Rightarrow> addr \<Rightarrow> nat \<Rightarrow> addr \<Rightarrow> addr list option" where
  "list_walk step head 0 pos = None"
| "list_walk step head (Suc fuel) pos =
     (if pos = head then Some [] else map_option (Cons pos) (list_walk step head fuel (step pos)))"

definition list_for_each :: "nat \<Rightarrow> addr \<Rightarrow> lheap \<Rightarrow> addr list option" where
  "list_for_each fuel head h = list_walk (lnext h) head fuel (lnext h head)"

definition list_for_each_prev :: "nat \<Rightarrow> addr \<Rightarrow> lheap \<Rightarrow> addr list option" where
  "list_for_each_prev fuel head h = list_walk (lprev h) head fuel (lprev h head)"

fun safe_walk :: "(addr \<Rightarrow> lheap \<Rightarrow> lheap) \<Rightarrow> addr \<Rightarrow> nat \<Rightarrow> addr \<Rightarrow> addr \<Rightarrow> lheap \<Rightarrow> lheap option" where
  "safe_walk body head 0 pos n h = None"
| "safe_walk body head (Suc fuel) pos n h =
     (if pos = head then Some h
      else let h = body pos h in safe_walk body head fuel n (lnext h n) h)"

definition list_for_each_safe :: "(addr \<Rightarrow> lheap \<Rightarrow> lheap) \<Rightarrow> nat \<Rightarrow> addr \<Rightarrow> lheap \<Rightarrow> lheap option" where
  "list_for_each_safe body fuel head h =
     (let pos = lnext h head in safe_walk body head fuel pos (lnext h pos) h)"

section \<open>The hash lists\<close>

text \<open>
  \<^verbatim>\<open>struct hlist_head\<close> is one pointer, \<^verbatim>\<open>struct hlist_node\<close> has \<^verbatim>\<open>next\<close> and \<^verbatim>\<open>pprev\<close>, the
  address of the pointer that points to the node: the \<^verbatim>\<open>first\<close> of a head, the \<^verbatim>\<open>next\<close> of a node, or
  a wild pointer. The null pointer is 0, a null \<^verbatim>\<open>pprev\<close> is \<open>None\<close>, and an operation that stores through a
  null \<^verbatim>\<open>pprev\<close> crashes (\<open>None\<close>).
\<close>

datatype hslot = First addr | Next addr | Wild addr

record hheap =
  slot :: "hslot \<Rightarrow> addr"
  pprev :: "addr \<Rightarrow> hslot option"

definition set_slot :: "hslot \<Rightarrow> addr \<Rightarrow> hheap \<Rightarrow> hheap" where
  "set_slot s p h = h\<lparr>slot := (slot h)(s := p)\<rparr>"

definition set_pprev :: "addr \<Rightarrow> hslot option \<Rightarrow> hheap \<Rightarrow> hheap" where
  "set_pprev n s h = h\<lparr>pprev := (pprev h)(n := s)\<rparr>"

definition INIT_HLIST_HEAD :: "addr \<Rightarrow> hheap \<Rightarrow> hheap" where
  "INIT_HLIST_HEAD ptr h = set_slot (First ptr) 0 h"

definition INIT_HLIST_NODE :: "addr \<Rightarrow> hheap \<Rightarrow> hheap" where
  "INIT_HLIST_NODE ptr h = set_pprev ptr None (set_slot (Next ptr) 0 h)"

definition hlist_unhashed :: "addr \<Rightarrow> hheap \<Rightarrow> bool" where
  "hlist_unhashed n h \<longleftrightarrow> pprev h n = None"

definition hlist_empty :: "addr \<Rightarrow> hheap \<Rightarrow> bool" where
  "hlist_empty a h \<longleftrightarrow> slot h (First a) = 0"

definition hlist_unlink :: "addr \<Rightarrow> hheap \<Rightarrow> hheap option" where
  "hlist_unlink n h =
     (let next = slot h (Next n) in
      case pprev h n of
        None \<Rightarrow> None
      | Some pp \<Rightarrow>
          let h = set_slot pp next h
          in Some (if next \<noteq> 0 then set_pprev next (Some pp) h else h))"

definition hlist_del :: "addr \<Rightarrow> hheap \<Rightarrow> hheap option" where
  "hlist_del n h =
     map_option (\<lambda>h. set_pprev n (Some (Wild LIST_POISON2)) (set_slot (Next n) LIST_POISON1 h))
       (hlist_unlink n h)"

definition hlist_del_rcu :: "addr \<Rightarrow> hheap \<Rightarrow> hheap option" where
  "hlist_del_rcu n h = map_option (set_pprev n (Some (Wild LIST_POISON2))) (hlist_unlink n h)"

definition hlist_del_init :: "addr \<Rightarrow> hheap \<Rightarrow> hheap option" where
  "hlist_del_init n h =
     (if pprev h n \<noteq> None then map_option (INIT_HLIST_NODE n) (hlist_unlink n h) else Some h)"

definition hlist_add_head :: "addr \<Rightarrow> addr \<Rightarrow> hheap \<Rightarrow> hheap" where
  "hlist_add_head n a h =
     (let first = slot h (First a);
          h = set_slot (Next n) first h;
          h = (if first \<noteq> 0 then set_pprev first (Some (Next n)) h else h);
          h = set_slot (First a) n h
      in set_pprev n (Some (First a)) h)"

definition hlist_add_head_rcu :: "addr \<Rightarrow> addr \<Rightarrow> hheap \<Rightarrow> hheap" where
  "hlist_add_head_rcu n a h =
     (let first = slot h (First a);
          h = set_slot (Next n) first h;
          h = set_pprev n (Some (First a)) h;
          h = (if first \<noteq> 0 then set_pprev first (Some (Next n)) h else h)
      in set_slot (First a) n h)"

definition hlist_add_before :: "addr \<Rightarrow> addr \<Rightarrow> hheap \<Rightarrow> hheap option" where
  "hlist_add_before n next h =
     (let h = set_pprev n (pprev h next) h;
          h = set_slot (Next n) next h;
          h = set_pprev next (Some (Next n)) h
      in case pprev h n of None \<Rightarrow> None | Some pp \<Rightarrow> Some (set_slot pp n h))"

definition hlist_add_after :: "addr \<Rightarrow> addr \<Rightarrow> hheap \<Rightarrow> hheap option" where
  "hlist_add_after n next h =
     (let h = set_slot (Next next) (slot h (Next n)) h
      in case pprev h next of
           None \<Rightarrow> None
         | Some pp \<Rightarrow> Some (set_slot (Next n) next (set_slot pp n h)))"

fun hlist_for_each :: "nat \<Rightarrow> addr \<Rightarrow> hheap \<Rightarrow> addr list option" where
  "hlist_for_each 0 pos h = None"
| "hlist_for_each (Suc fuel) pos h =
     (if pos = 0 then Some [] else map_option (Cons pos) (hlist_for_each fuel (slot h (Next pos)) h))"

section \<open>What a list head represents\<close>

fun seg :: "lheap \<Rightarrow> addr \<Rightarrow> addr list \<Rightarrow> addr \<Rightarrow> bool" where
  "seg h a [] b \<longleftrightarrow> lnext h a = b \<and> lprev h b = a"
| "seg h a (x # xs) b \<longleftrightarrow> lnext h a = x \<and> lprev h x = a \<and> seg h x xs b"

definition clist :: "lheap \<Rightarrow> addr \<Rightarrow> addr list \<Rightarrow> bool" where
  "clist h head xs \<longleftrightarrow> distinct (head # xs) \<and> seg h head xs head"

named_theorems list_defs \<open>the definitions of the operations on circular lists\<close>

declare INIT_LIST_HEAD_def [list_defs] list_add_between_def [list_defs] list_add_def [list_defs]
  list_add_tail_def [list_defs] list_add_between_rcu_def [list_defs] list_add_rcu_def [list_defs]
  list_add_tail_rcu_def [list_defs] list_del_between_def [list_defs] list_del_def [list_defs]
  list_del_rcu_def [list_defs] list_del_init_def [list_defs] list_move_def [list_defs]
  list_move_tail_def [list_defs]

lemma lnext_set_next [simp]: "lnext (set_next p q h) = (lnext h)(p := q)"
  by (simp add: set_next_def)

lemma lprev_set_next [simp]: "lprev (set_next p q h) = lprev h"
  by (simp add: set_next_def)

lemma lnext_set_prev [simp]: "lnext (set_prev p q h) = lnext h"
  by (simp add: set_prev_def)

lemma lprev_set_prev [simp]: "lprev (set_prev p q h) = (lprev h)(p := q)"
  by (simp add: set_prev_def)

lemma seg_append: "seg h a (xs @ x # ys) b \<longleftrightarrow> seg h a xs x \<and> seg h x ys b"
  by (induction xs arbitrary: a) auto

lemma seg_frame:
  assumes "seg h a xs b"
    and "\<And>p. p \<in> insert a (set xs) \<Longrightarrow> lnext h' p = lnext h p"
    and "\<And>p. p \<in> insert b (set xs) \<Longrightarrow> lprev h' p = lprev h p"
  shows "seg h' a xs b"
  using assms by (induction xs arbitrary: a) auto

lemma seg_first: "seg h a xs b \<Longrightarrow> lnext h a = hd (xs @ [b])"
  by (cases xs) auto

lemma seg_last: "seg h a xs b \<Longrightarrow> lprev h b = last (a # xs)"
  by (induction xs arbitrary: a) auto

lemma clist_next: "clist h head xs \<Longrightarrow> lnext h head = hd (xs @ [head])"
  by (simp add: clist_def seg_first)

lemma clist_prev: "clist h head xs \<Longrightarrow> lprev h head = last (head # xs)"
  unfolding clist_def by (blast dest: seg_last)

lemma clist_Nil: "clist h head [] \<longleftrightarrow> lnext h head = head \<and> lprev h head = head"
  by (auto simp: clist_def)

text \<open>A list keeps what it represents when no pointer of its own cells changes.\<close>

lemma clist_frame:
  assumes "clist h head xs"
    and "\<And>p. p \<in> set (head # xs) \<Longrightarrow> lnext h' p = lnext h p \<and> lprev h' p = lprev h p"
  shows "clist h' head xs"
  using assms unfolding clist_def by (auto intro: seg_frame)

text \<open>Every cell of a list has its neighbours in the list.\<close>

lemma seg_neighbours:
  assumes "seg h a (xs @ e # ys) b"
  shows "lprev h e = last (a # xs)" "lnext h e = hd (ys @ [b])"
  using assms by (auto simp: seg_append dest: seg_last seg_first)

lemma list_add_clist:
  assumes "clist h head xs" "new \<notin> set (head # xs)"
  shows "clist (list_add new head h) head (new # xs)"
proof (cases xs)
  case Nil
  then show ?thesis using assms by (auto simp: clist_def list_defs)
next
  case (Cons y ys)
  then have "seg h y ys head" "lnext h head = y" using assms(1) by (auto simp: clist_def)
  moreover have "distinct (new # head # y # ys)" using assms Cons by (auto simp: clist_def)
  ultimately have "seg (list_add new head h) y ys head"
    by (intro seg_frame [OF \<open>seg h y ys head\<close>]) (auto simp: list_defs)
  then show ?thesis
    using \<open>lnext h head = y\<close> \<open>distinct (new # head # y # ys)\<close> Cons by (auto simp: clist_def list_defs)
qed

lemma list_add_tail_clist:
  assumes "clist h head xs" "new \<notin> set (head # xs)"
  shows "clist (list_add_tail new head h) head (xs @ [new])"
proof (cases xs rule: rev_cases)
  case Nil
  then show ?thesis using assms by (auto simp: clist_def list_defs)
next
  case (snoc ys y)
  then have "seg h head ys y" "lprev h head = y"
    using assms(1) by (auto simp: clist_def seg_append)
  moreover have "distinct (new # head # y # ys)" using assms snoc by (auto simp: clist_def)
  ultimately have "seg (list_add_tail new head h) head ys y"
    by (intro seg_frame [OF \<open>seg h head ys y\<close>]) (auto simp: list_defs)
  then show ?thesis
    using \<open>lprev h head = y\<close> \<open>distinct (new # head # y # ys)\<close> snoc
    by (auto simp: clist_def list_defs seg_append)
qed

lemma list_del_between_clist:
  assumes "clist h head (xs @ e # ys)"
  shows "clist (list_del_between (lprev h e) (lnext h e) h) head (xs @ ys)"
proof -
  let ?h = "list_del_between (lprev h e) (lnext h e) h"
  from assms have s: "seg h head xs e" "seg h e ys head"
    and d: "distinct (head # xs @ e # ys)" by (auto simp: clist_def seg_append)
  have n: "lprev h e = last (head # xs)" "lnext h e = hd (ys @ [head])"
    using s seg_last seg_first by blast+
  have "seg ?h head (xs @ ys) head"
  proof (cases ys)
    case Nil
    show ?thesis
    proof (cases xs rule: rev_cases)
      case Nil
      then show ?thesis using n \<open>ys = []\<close> by (simp add: list_defs)
    next
      case (snoc zs z)
      then have "seg h head zs z" using s by (simp add: seg_append)
      then have "seg ?h head zs z"
        by (rule seg_frame) (use d n snoc Nil in \<open>auto simp: list_defs\<close>)
      then show ?thesis using n Nil snoc by (simp add: list_defs seg_append)
    qed
  next
    case (Cons y zs)
    then have "seg h y zs head" using s by simp
    have l: "xs \<noteq> [] \<Longrightarrow> last xs \<notin> set zs" using d Cons last_in_set [of xs] by (simp add: disjoint_iff)
    have r: "seg ?h y zs head"
      using \<open>seg h y zs head\<close> by (rule seg_frame) (use d n Cons l in \<open>auto simp: list_defs\<close>)
    have "seg ?h head xs y"
    proof (cases xs rule: rev_cases)
      case Nil
      then show ?thesis using n Cons by (simp add: list_defs)
    next
      case (snoc ws w)
      then have "seg h head ws w" using s by (simp add: seg_append)
      then have "seg ?h head ws w"
        by (rule seg_frame) (use d n Cons snoc in \<open>auto simp: list_defs\<close>)
      then show ?thesis using n Cons snoc by (simp add: list_defs seg_append)
    qed
    then show ?thesis using r Cons by (simp add: seg_append)
  qed
  then show ?thesis using d by (auto simp: clist_def)
qed

lemma clist_split: "clist h head xs \<Longrightarrow> e \<in> set xs \<Longrightarrow> \<exists>ys zs. xs = ys @ e # zs"
  by (meson split_list)

lemma clist_distinct: "clist h head xs \<Longrightarrow> distinct (head # xs)"
  by (simp add: clist_def)

text \<open>Cells outside a list that an operation is applied to keep both pointers.\<close>

definition untouched :: "addr set \<Rightarrow> lheap \<Rightarrow> lheap \<Rightarrow> bool" where
  "untouched S h h' \<longleftrightarrow> (\<forall>p. p \<notin> S \<longrightarrow> lnext h' p = lnext h p \<and> lprev h' p = lprev h p)"

lemma clist_untouched:
  "clist h head xs \<Longrightarrow> untouched S h h' \<Longrightarrow> set (head # xs) \<inter> S = {} \<Longrightarrow> clist h' head xs"
  by (erule clist_frame) (auto simp: untouched_def)

lemma list_neighbours_in:
  assumes "clist h head xs"
  shows "lnext h head \<in> set (head # xs)" "lprev h head \<in> set (head # xs)"
    and "e \<in> set xs \<Longrightarrow> lprev h e \<in> set (head # xs)" "e \<in> set xs \<Longrightarrow> lnext h e \<in> set (head # xs)"
proof -
  show "lnext h head \<in> set (head # xs)" using clist_next [OF assms] by (cases xs) auto
  show "lprev h head \<in> set (head # xs)"
    using clist_prev [OF assms] last_in_set [of "head # xs"] by simp
  assume "e \<in> set xs"
  then obtain ys zs where x: "xs = ys @ e # zs" by (meson split_list)
  then have "seg h head (ys @ e # zs) head" using assms by (simp add: clist_def)
  note n = seg_neighbours [OF this]
  show "lprev h e \<in> set (head # xs)" using n(1) x last_in_set [of ys] by auto
  show "lnext h e \<in> set (head # xs)" using n(2) x by (cases zs) auto
qed

lemma untouched_list_add:
  "clist h head xs \<Longrightarrow> untouched (set (new # head # xs)) h (list_add new head h)"
  using list_neighbours_in(1) [of h head xs] by (auto simp: untouched_def list_defs)

lemma untouched_list_add_tail:
  "clist h head xs \<Longrightarrow> untouched (set (new # head # xs)) h (list_add_tail new head h)"
  using list_neighbours_in(2) [of h head xs] by (auto simp: untouched_def list_defs)

definition list_unlink :: "addr \<Rightarrow> lheap \<Rightarrow> lheap" where
  "list_unlink e h = list_del_between (lprev h e) (lnext h e) h"

lemma untouched_list_unlink:
  assumes "clist h head xs" "e \<in> set xs"
  shows "untouched (set (head # xs)) h (list_unlink e h)"
  using list_neighbours_in(3,4) [OF assms(1) assms(2)]
  by (auto simp: untouched_def list_unlink_def list_del_between_def)

section \<open>The contract of a circular list\<close>

text \<open>
  The laws the clients of core/list.h rely on: insertion at either end, removal of any entry, and
  that a list disjoint from the one worked on is not affected.
\<close>

locale ring =
  fixes rep :: "'h \<Rightarrow> addr \<Rightarrow> addr list \<Rightarrow> bool"
    and push :: "addr \<Rightarrow> addr \<Rightarrow> 'h \<Rightarrow> 'h"
    and push_back :: "addr \<Rightarrow> addr \<Rightarrow> 'h \<Rightarrow> 'h"
    and remove :: "addr \<Rightarrow> 'h \<Rightarrow> 'h"
  assumes rep_distinct: "rep h a xs \<Longrightarrow> distinct (a # xs)"
    and push_rep: "rep h a xs \<Longrightarrow> x \<notin> set (a # xs) \<Longrightarrow> rep (push x a h) a (x # xs)"
    and push_back_rep: "rep h a xs \<Longrightarrow> x \<notin> set (a # xs) \<Longrightarrow> rep (push_back x a h) a (xs @ [x])"
    and remove_rep: "rep h a (xs @ x # ys) \<Longrightarrow> rep (remove x h) a (xs @ ys)"
    and push_frame: "rep h a xs \<Longrightarrow> rep h b ys \<Longrightarrow> set (x # a # xs) \<inter> set (b # ys) = {} \<Longrightarrow>
      rep (push x a h) b ys"
    and push_back_frame: "rep h a xs \<Longrightarrow> rep h b ys \<Longrightarrow> set (x # a # xs) \<inter> set (b # ys) = {} \<Longrightarrow>
      rep (push_back x a h) b ys"
    and remove_frame: "rep h a xs \<Longrightarrow> x \<in> set xs \<Longrightarrow> rep h b ys \<Longrightarrow>
      set (a # xs) \<inter> set (b # ys) = {} \<Longrightarrow> rep (remove x h) b ys"
begin

lemma push_back_all:
  "rep h a xs \<Longrightarrow> distinct ys \<Longrightarrow> set ys \<inter> set (a # xs) = {} \<Longrightarrow>
   rep (fold (\<lambda>y. push_back y a) ys h) a (xs @ ys)"
proof (induction ys arbitrary: h xs)
  case (Cons y ys)
  have "rep (push_back y a h) a (xs @ [y])" using Cons.prems by (intro push_back_rep) auto
  then show ?case using Cons.IH [of "push_back y a h" "xs @ [y]"] Cons.prems by auto
qed simp

lemma push_all:
  "rep h a xs \<Longrightarrow> distinct ys \<Longrightarrow> set ys \<inter> set (a # xs) = {} \<Longrightarrow>
   rep (fold (\<lambda>y. push y a) ys h) a (rev ys @ xs)"
proof (induction ys arbitrary: h xs)
  case (Cons y ys)
  have "rep (push y a h) a (y # xs)" using Cons.prems by (intro push_rep) auto
  then show ?case using Cons.IH [of "push y a h" "y # xs"] Cons.prems by auto
qed simp

lemma remove_all: "rep h a (xs @ ys) \<Longrightarrow> rep (fold remove xs h) a ys"
proof (induction xs arbitrary: h)
  case (Cons x xs)
  then show ?case using remove_rep [of h a "[]" x "xs @ ys"] by simp
qed simp

lemma move_rep:
  assumes "rep h a (xs @ e # ys)" "rep h b zs" "set (a # xs @ e # ys) \<inter> set (b # zs) = {}"
  shows "rep (push e b (remove e h)) a (xs @ ys) \<and> rep (push e b (remove e h)) b (e # zs)"
    and "rep (push_back e b (remove e h)) a (xs @ ys) \<and> rep (push_back e b (remove e h)) b (zs @ [e])"
proof -
  have d: "distinct (a # xs @ e # ys)" using rep_distinct [OF assms(1)] .
  have a: "rep (remove e h) a (xs @ ys)" using assms(1) by (rule remove_rep)
  have b: "rep (remove e h) b zs" using assms by (intro remove_frame [OF assms(1)]) auto
  show "rep (push e b (remove e h)) a (xs @ ys) \<and> rep (push e b (remove e h)) b (e # zs)"
    using assms(3) d by (intro conjI push_frame [OF b a] push_rep [OF b]) auto
  show "rep (push_back e b (remove e h)) a (xs @ ys) \<and> rep (push_back e b (remove e h)) b (zs @ [e])"
    using assms(3) d by (intro conjI push_back_frame [OF b a] push_back_rep [OF b]) auto
qed

lemma push_remove: "rep h a xs \<Longrightarrow> x \<notin> set (a # xs) \<Longrightarrow> rep (remove x (push x a h)) a xs"
  using remove_rep [of "push x a h" a "[]" x xs] push_rep by simp

end

lemma list_unlink_clist: "clist h head (xs @ e # ys) \<Longrightarrow> clist (list_unlink e h) head (xs @ ys)"
  unfolding list_unlink_def by (rule list_del_between_clist)

lemma unlink_ring: "ring clist list_add list_add_tail list_unlink"
proof (unfold_locales)
  fix h a xs x b ys
  assume "clist h a xs" "clist h b ys" "set (x # a # xs) \<inter> set (b # ys) = {}"
  then show "clist (list_add x a h) b ys" "clist (list_add_tail x a h) b ys"
    by (metis clist_untouched inf_commute untouched_list_add untouched_list_add_tail)+
next
  fix h a xs x b ys
  assume "clist h a xs" "x \<in> set xs" "clist h b ys" "set (a # xs) \<inter> set (b # ys) = {}"
  then show "clist (list_unlink x h) b ys"
    by (metis clist_untouched inf_commute untouched_list_unlink)
qed (use clist_distinct list_add_clist list_add_tail_clist list_unlink_clist in \<open>auto simp del: set_simps\<close>)

interpretation ul: ring clist list_add list_add_tail list_unlink
  by (rule unlink_ring)

text \<open>A removal that unlinks the entry and then only writes to the entry itself keeps the contract.\<close>

lemma unlink_variant:
  assumes "\<And>x h. untouched {x} (list_unlink x h) (del x h)"
  shows "ring clist list_add list_add_tail del"
proof (unfold_locales)
  fix h a xs x ys
  assume r: "clist h a (xs @ x # ys)"
  then have "set (a # xs @ ys) \<inter> {x} = {}" by (auto dest: clist_distinct)
  with ul.remove_rep [OF r] show "clist (del x h) a (xs @ ys)"
    using assms by (metis clist_untouched)
next
  fix h a xs x b ys
  assume r: "clist h a xs" "x \<in> set xs" "clist h b ys" "set (a # xs) \<inter> set (b # ys) = {}"
  then have "set (b # ys) \<inter> {x} = {}" by auto
  with ul.remove_frame [OF r] show "clist (del x h) b ys"
    using assms by (metis clist_untouched)
qed (fact ul.rep_distinct ul.push_rep ul.push_back_rep ul.push_frame ul.push_back_frame)+

lemma list_del_unlink: "list_del x h = set_prev x LIST_POISON2 (set_next x LIST_POISON1 (list_unlink x h))"
  by (simp add: list_del_def list_unlink_def Let_def)

lemma list_del_init_unlink: "list_del_init x h = INIT_LIST_HEAD x (list_unlink x h)"
  by (simp add: list_del_init_def list_unlink_def)

lemma list_del_rcu_unlink: "list_del_rcu x h = set_prev x LIST_POISON2 (list_unlink x h)"
  by (simp add: list_del_rcu_def list_unlink_def Let_def)

interpretation dl: ring clist list_add list_add_tail list_del
  by (rule unlink_variant) (simp add: untouched_def list_del_unlink)

interpretation di: ring clist list_add list_add_tail list_del_init
  by (rule unlink_variant) (simp add: untouched_def list_del_init_unlink INIT_LIST_HEAD_def)

text \<open>The RCU insertions do the same four stores in another order.\<close>

lemma lheap_eqI: "lnext h = lnext h' \<Longrightarrow> lprev h = lprev h' \<Longrightarrow> h = (h' :: lheap)"
  by simp

lemma list_add_between_rcu_eq:
  "new \<noteq> next \<Longrightarrow> list_add_between_rcu new prev next h = list_add_between new prev next h"
  by (rule lheap_eqI) (auto simp: list_defs)

lemma list_add_rcu_eq:
  assumes "clist h head xs" "new \<notin> set (head # xs)"
  shows "list_add_rcu new head h = list_add new head h"
    and "list_add_tail_rcu new head h = list_add_tail new head h"
proof -
  have "new \<noteq> lnext h head" "new \<noteq> head" using list_neighbours_in(1) [OF assms(1)] assms(2) by auto
  then show "list_add_rcu new head h = list_add new head h"
    and "list_add_tail_rcu new head h = list_add_tail new head h"
    by (simp_all add: list_add_rcu_def list_add_def list_add_tail_rcu_def list_add_tail_def
        list_add_between_rcu_eq)
qed

lemma untouched_list_add_rcu:
  assumes "clist h head xs"
  shows "untouched (set (new # head # xs)) h (list_add_rcu new head h)"
    and "untouched (set (new # head # xs)) h (list_add_tail_rcu new head h)"
  using list_neighbours_in(1,2) [OF assms] by (auto simp: untouched_def list_defs)

lemma untouched_list_del_rcu: "untouched {x} (list_unlink x h) (list_del_rcu x h)"
  by (simp add: untouched_def list_del_rcu_unlink)

lemmas rcu_del = ring.remove_rep [OF unlink_variant [OF untouched_list_del_rcu]]
  ring.remove_frame [OF unlink_variant [OF untouched_list_del_rcu]]

interpretation rcu: ring clist list_add_rcu list_add_tail_rcu list_del_rcu
proof (unfold_locales)
  fix h a xs x b ys
  assume "clist h a xs" "clist h b ys" "set (x # a # xs) \<inter> set (b # ys) = {}"
  then show "clist (list_add_rcu x a h) b ys" "clist (list_add_tail_rcu x a h) b ys"
    by (metis clist_untouched inf_commute untouched_list_add_rcu)+
qed (use rcu_del in \<open>auto simp: list_add_rcu_eq dest: clist_distinct intro: list_add_clist list_add_tail_clist\<close>)

section \<open>Iteration, moving and splicing\<close>

lemma list_walk_next:
  "seg h a xs b \<Longrightarrow> b \<notin> set xs \<Longrightarrow> length xs < fuel \<Longrightarrow>
   list_walk (lnext h) b fuel (lnext h a) = Some xs"
proof (induction xs arbitrary: a fuel)
  case Nil
  then show ?case by (cases fuel) auto
next
  case (Cons x xs)
  then obtain f where "fuel = Suc f" by (cases fuel) auto
  then show ?case using Cons by auto
qed

lemma list_walk_prev:
  "seg h a xs b \<Longrightarrow> a \<notin> set xs \<Longrightarrow> length xs < fuel \<Longrightarrow>
   list_walk (lprev h) a fuel (lprev h b) = Some (rev xs)"
proof (induction xs arbitrary: b fuel rule: rev_induct)
  case Nil
  then show ?case by (cases fuel) auto
next
  case (snoc x xs)
  then obtain f where "fuel = Suc f" by (cases fuel) auto
  then show ?case using snoc by (auto simp: seg_append)
qed

lemma list_for_each_clist:
  assumes "clist h head xs" "length xs < fuel"
  shows "list_for_each fuel head h = Some xs" "list_for_each_prev fuel head h = Some (rev xs)"
  using assms by (auto simp: clist_def list_for_each_def list_for_each_prev_def
      intro: list_walk_next list_walk_prev)

lemma list_walk_frame:
  "list_walk f a fuel pos = Some xs \<Longrightarrow> (\<And>p. p \<in> set xs \<Longrightarrow> g p = f p) \<Longrightarrow> list_walk g a fuel pos = Some xs"
proof (induction fuel arbitrary: pos xs)
  case (Suc fuel)
  show ?case
  proof (cases "pos = a")
    case False
    then obtain ys where "xs = pos # ys" "list_walk f a fuel (f pos) = Some ys"
      using Suc.prems(1) by auto
    then show ?thesis using False Suc.IH [of "f pos" ys] Suc.prems(2) by simp
  qed (use Suc.prems in simp)
qed simp

lemma list_empty_clist: "clist h head xs \<Longrightarrow> list_empty head h \<longleftrightarrow> xs = []"
  by (cases xs) (auto simp: list_empty_def clist_def)

text \<open>Two concrete lists, 1 with entries 2 and 3, and 4 with entry 5, for the examples below.\<close>

definition two_lists :: lheap where
  "two_lists =
     list_add_tail 5 4 (INIT_LIST_HEAD 4 (list_add_tail 3 1 (list_add_tail 2 1 (INIT_LIST_HEAD 1
       \<lparr>lnext = \<lambda>_. 0, lprev = \<lambda>_. 0\<rparr>))))"

lemma two_lists_clist: "clist two_lists 1 [2, 3]" "clist two_lists 4 [5]"
  by (simp_all add: two_lists_def clist_def list_defs)

text \<open>C27. \<open>list_move\<close> and \<open>list_move_tail\<close> take an entry out of the list it is on and put it at the front,
  or at the back, of another list; both heads then represent, forwards and backwards, exactly the lists
  this describes.\<close>

theorem list_move_lists:
  assumes "clist h a (xs @ e # ys)" "clist h b zs" "set (a # xs @ e # ys) \<inter> set (b # zs) = {}"
    and "length xs + length ys + length zs + 1 < fuel"
  shows "list_for_each fuel a (list_move e b h) = Some (xs @ ys) \<and>
         list_for_each fuel b (list_move e b h) = Some (e # zs) \<and>
         list_for_each_prev fuel b (list_move e b h) = Some (rev (e # zs)) \<and>
         list_for_each fuel b (list_move_tail e b h) = Some (zs @ [e]) \<and>
         list_for_each_prev fuel a (list_move_tail e b h) = Some (rev (xs @ ys))"
proof -
  have m: "list_move e b h = list_add e b (list_unlink e h)"
    "list_move_tail e b h = list_add_tail e b (list_unlink e h)"
    by (simp_all add: list_move_def list_move_tail_def list_unlink_def)
  note r = ul.move_rep [OF assms(1-3)]
  show ?thesis
    using r assms(4) unfolding m by (intro conjI list_for_each_clist; simp)
qed

theorem list_move_lists_witness:
  "list_for_each 9 1 (list_move 2 4 two_lists) = Some [3] \<and>
   list_for_each 9 4 (list_move 2 4 two_lists) = Some [2, 5]"
  using list_move_lists [of two_lists 1 "[]" 2 "[3]" 4 "[5]" 9] two_lists_clist by simp

lemma splice_seg:
  assumes "seg h l xs l" "seg h head ys head" "distinct (l # head # xs @ ys)" "xs \<noteq> []"
  shows "seg (list_splice_at l head h) head (xs @ ys) head"
proof -
  obtain vs y where xs: "xs = vs @ [y]" using assms(4) by (meson rev_exhaust)
  let ?h = "list_splice_at l head h" and ?at = "hd (ys @ [head])"
  have n: "lnext h l = hd xs" "lprev h l = y" "lnext h head = ?at"
    using seg_first [OF assms(1)] seg_last [OF assms(1)] seg_first [OF assms(2)] xs assms(4)
    by (auto simp: hd_append)
  have tail: "seg ?h y ys head"
  proof (cases ys)
    case Nil
    then show ?thesis using n assms(3) xs by (auto simp: list_splice_at_def Let_def)
  next
    case (Cons w ws)
    then have "seg h w ws head" using assms(2) by simp
    then have "seg ?h w ws head"
      by (rule seg_frame) (use n assms(3) xs Cons in \<open>cases vs; auto simp: list_splice_at_def Let_def\<close>)+
    then show ?thesis using Cons n assms(3) xs by (auto simp: list_splice_at_def Let_def)
  qed
  have "seg ?h head vs y"
  proof (cases vs)
    case Nil
    then show ?thesis using n assms(3) xs by (cases ys) (auto simp: list_splice_at_def Let_def)
  next
    case (Cons w ws)
    then have "seg h w ws y" using assms(1) xs by (simp add: seg_append)
    then have "seg ?h w ws y"
      by (rule seg_frame) (use n assms(3) xs Cons in \<open>cases ys; auto simp: list_splice_at_def Let_def\<close>)+
    then show ?thesis using Cons n assms(3) xs by (cases ys) (auto simp: list_splice_at_def Let_def)
  qed
  then show ?thesis using tail xs by (simp add: seg_append)
qed

lemma splice_clist:
  assumes "clist h l xs" "clist h head ys" "set (l # xs) \<inter> set (head # ys) = {}"
  shows "clist (list_splice_init l head h) head (xs @ ys) \<and> clist (list_splice_init l head h) l []"
proof (cases "xs = []")
  case True
  then show ?thesis using assms by (simp add: list_splice_init_def list_empty_clist)
next
  case False
  have d: "distinct (l # head # xs @ ys)" using assms by (auto simp: clist_def)
  then have c: "clist (list_splice_at l head h) head (xs @ ys)"
    using assms False by (auto simp: clist_def intro: splice_seg)
  have i: "list_splice_init l head h = INIT_LIST_HEAD l (list_splice_at l head h)"
    using assms(1) False by (simp add: list_splice_init_def list_empty_clist)
  have "untouched {l} (list_splice_at l head h) (INIT_LIST_HEAD l (list_splice_at l head h))"
    by (simp add: untouched_def INIT_LIST_HEAD_def)
  then show ?thesis
    using clist_untouched [OF c] d unfolding i by (auto simp: clist_Nil INIT_LIST_HEAD_def)
qed

text \<open>\<open>list_splice_init\<close> puts the whole of one list in front of another and leaves the first one empty and
  usable; both walks over the joined list give the concatenation.\<close>

theorem list_splice_init_joins:
  assumes "clist h l xs" "clist h head ys" "set (l # xs) \<inter> set (head # ys) = {}"
    and "length xs + length ys < fuel"
  shows "list_for_each fuel head (list_splice_init l head h) = Some (xs @ ys) \<and>
         list_for_each_prev fuel head (list_splice_init l head h) = Some (rev ys @ rev xs) \<and>
         list_empty l (list_splice_init l head h)"
proof -
  from splice_clist [OF assms(1-3)] have r: "clist (list_splice_init l head h) head (xs @ ys)"
    "clist (list_splice_init l head h) l []" by blast+
  show ?thesis
    using list_for_each_clist [OF r(1)] list_empty_clist [OF r(2)] assms(4) by simp
qed

theorem list_splice_init_joins_witness:
  "list_for_each 9 1 (list_splice_init 4 1 two_lists) = Some [5, 2, 3] \<and>
   list_empty 4 (list_splice_init 4 1 two_lists)"
  using list_splice_init_joins [of two_lists 4 "[5]" 1 "[2, 3]" 9] two_lists_clist by simp

lemma flush_clist:
  assumes "ring clist add add_tail del" "clist h head xs" "length xs < fuel"
  shows "\<exists>h'. safe_walk del head fuel (lnext h head) (lnext h (lnext h head)) h = Some h' \<and> clist h' head []"
  using assms(2,3)
proof (induction fuel arbitrary: h xs)
  case (Suc fuel)
  show ?case
  proof (cases xs)
    case Nil
    then show ?thesis using Suc.prems by (simp add: clist_Nil)
  next
    case (Cons x ys)
    then have c: "clist (del x h) head ys"
      using Suc.prems(1) ring.remove_rep [OF assms(1), of h head "[]" x ys] by simp
    have "lnext h head = x" "x \<noteq> head" "lnext h x = hd (ys @ [head])"
      using Suc.prems(1) Cons by (auto simp: clist_def dest: seg_first)
    moreover have "lnext (del x h) head = hd (ys @ [head])" using clist_next [OF c] .
    ultimately show ?thesis using Suc.IH [OF c] Suc.prems(2) Cons by (simp add: Let_def)
  qed
qed simp

text \<open>
  The stores of \<open>list_add_rcu\<close> one by one, as a reader that does not take the lock may see them.
\<close>

definition list_add_rcu_states :: "addr \<Rightarrow> addr \<Rightarrow> lheap \<Rightarrow> lheap list" where
  "list_add_rcu_states new head h =
     (let next = lnext h head;
          h1 = set_next new next h;
          h2 = set_prev new head h1;
          h3 = set_prev next new h2;
          h4 = set_next head new h3
      in [h, h1, h2, h3, h4])"

lemma last_list_add_rcu_states: "last (list_add_rcu_states new head h) = list_add_rcu new head h"
  by (simp add: list_add_rcu_states_def list_add_rcu_def list_add_between_rcu_def Let_def)

text \<open>C26. At every moment of \<open>list_add_rcu\<close>, a reader that walks the list, in either direction, sees the
  list either without the new entry or with it at the front: never a broken list.\<close>

theorem list_add_rcu_readers:
  assumes "clist h head xs" "new \<notin> set (head # xs)" "Suc (length xs) < fuel"
    and "h' \<in> set (list_add_rcu_states new head h)"
  shows "list_for_each fuel head h' \<in> {Some xs, Some (new # xs)} \<and>
         list_for_each_prev fuel head h' \<in> {Some (rev xs), Some (rev xs @ [new])}"
proof -
  let ?h = "\<lambda>k. list_add_rcu_states new head h ! k"
  have u: "untouched {new} h (?h 1)" "untouched {new} h (?h 2)"
    by (auto simp: untouched_def list_add_rcu_states_def Let_def)
  have old: "clist (?h 0) head xs" "clist (?h 1) head xs" "clist (?h 2) head xs"
    using assms(1,2) clist_untouched [OF assms(1) u(1)] clist_untouched [OF assms(1) u(2)]
    by (auto simp: list_add_rcu_states_def Let_def)
  have "?h 4 = list_add_rcu new head h"
    by (simp add: list_add_rcu_states_def list_add_rcu_def list_add_between_rcu_def Let_def)
  then have new: "clist (?h 4) head (new # xs)"
    using rcu.push_rep [OF assms(1,2)] by simp
  have "lnext (?h 3) = lnext (?h 2)" "lprev (?h 3) = lprev (?h 4)"
    by (simp_all add: list_add_rcu_states_def Let_def)
  then have mid: "list_for_each fuel head (?h 3) = Some xs"
    "list_for_each_prev fuel head (?h 3) = Some (rev xs @ [new])"
    using list_for_each_clist(1) [OF old(3)] list_for_each_clist(2) [OF new] assms(3)
    by (simp_all add: list_for_each_def list_for_each_prev_def)
  have "h' \<in> {?h 0, ?h 1, ?h 2, ?h 3, ?h 4}"
    using assms(4) by (auto simp: list_add_rcu_states_def Let_def)
  then show ?thesis
    using mid list_for_each_clist [OF old(1)] list_for_each_clist [OF old(2)]
      list_for_each_clist [OF old(3)] list_for_each_clist [OF new] assms(3) by auto
qed

theorem list_add_rcu_readers_witness:
  "list_for_each 9 1 (list_add_rcu_states 7 1 two_lists ! 3) \<in> {Some [2, 3], Some [7, 2, 3]} \<and>
   list_for_each_prev 9 1 (list_add_rcu_states 7 1 two_lists ! 3) \<in> {Some [3, 2], Some [3, 2, 7]}"
  using list_add_rcu_readers [of two_lists 1 "[2, 3]" 7 9 "list_add_rcu_states 7 1 two_lists ! 3"]
    two_lists_clist by (simp add: list_add_rcu_states_def Let_def)

text \<open>The safe iteration that deletes what it visits, as \<^verbatim>\<open>field_exit\<close> and the module and hook tools do.\<close>

lemma list_for_each_safe_flush:
  assumes "clist h head xs" "length xs < fuel"
  shows "\<exists>h'. list_for_each_safe list_del fuel head h = Some h' \<and> list_empty head h'"
  using flush_clist [OF dl.ring_axioms assms]
  by (auto simp: list_for_each_safe_def list_empty_def clist_Nil Let_def)

section \<open>Hash lists\<close>

fun hseg :: "hheap \<Rightarrow> hslot \<Rightarrow> addr list \<Rightarrow> bool" where
  "hseg h s [] \<longleftrightarrow> slot h s = 0"
| "hseg h s (x # xs) \<longleftrightarrow> x \<noteq> 0 \<and> slot h s = x \<and> pprev h x = Some s \<and> hseg h (Next x) xs"

definition hlist :: "hheap \<Rightarrow> addr \<Rightarrow> addr list \<Rightarrow> bool" where
  "hlist h a xs \<longleftrightarrow> distinct xs \<and> hseg h (First a) xs"

lemma slot_set_slot [simp]: "slot (set_slot s p h) = (slot h)(s := p)"
  by (simp add: set_slot_def)

lemma slot_set_pprev [simp]: "slot (set_pprev n s h) = slot h"
  by (simp add: set_pprev_def)

lemma pprev_set_slot [simp]: "pprev (set_slot s p h) = pprev h"
  by (simp add: set_slot_def)

lemma pprev_set_pprev [simp]: "pprev (set_pprev n s h) = (pprev h)(n := s)"
  by (simp add: set_pprev_def)

lemma hseg_frame:
  assumes "hseg h s xs" "slot h' s = slot h s"
    and "\<And>x. x \<in> set xs \<Longrightarrow> slot h' (Next x) = slot h (Next x) \<and> pprev h' x = pprev h x"
  shows "hseg h' s xs"
  using assms by (induction xs arbitrary: s) auto

text \<open>The slot that points at the entries after a prefix.\<close>

definition slot_after :: "addr \<Rightarrow> addr list \<Rightarrow> hslot" where
  "slot_after a xs = (if xs = [] then First a else Next (last xs))"

fun hpath :: "hheap \<Rightarrow> hslot \<Rightarrow> addr list \<Rightarrow> bool" where
  "hpath h s [] \<longleftrightarrow> True"
| "hpath h s (x # xs) \<longleftrightarrow> x \<noteq> 0 \<and> slot h s = x \<and> pprev h x = Some s \<and> hpath h (Next x) xs"

lemma hseg_split:
  "hseg h s (xs @ ys) \<longleftrightarrow> hpath h s xs \<and> hseg h (if xs = [] then s else Next (last xs)) ys"
  by (induction xs arbitrary: s) auto

lemma hpath_frame:
  assumes "hpath h s xs" "xs \<noteq> [] \<Longrightarrow> slot h' s = slot h s"
    and "\<And>x. x \<in> set xs \<Longrightarrow> pprev h' x = pprev h x"
    and "\<And>x. x \<in> set (butlast xs) \<Longrightarrow> slot h' (Next x) = slot h (Next x)"
  shows "hpath h' s xs"
  using assms
proof (induction xs arbitrary: s)
  case (Cons x xs)
  have "hpath h' (Next x) xs"
    by (rule Cons.IH) (use Cons.prems in \<open>cases xs; auto\<close>)+
  then show ?case using Cons.prems by simp
qed simp

lemma hpath_nonnull: "hpath h s xs \<Longrightarrow> x \<in> set xs \<Longrightarrow> x \<noteq> 0"
  by (induction xs arbitrary: s) auto

lemma hlist_split: "hlist h a (xs @ ys) \<longleftrightarrow>
  distinct (xs @ ys) \<and> hpath h (First a) xs \<and> hseg h (slot_after a xs) ys"
  by (auto simp: hlist_def hseg_split slot_after_def)

lemma slot_after_butlast: "distinct xs \<Longrightarrow> x \<in> set (butlast xs) \<Longrightarrow> Next x \<noteq> slot_after a xs"
  by (induction xs) (auto simp: slot_after_def split: if_splits dest: in_set_butlastD)

lemma hlist_add_head_hlist:
  assumes "hlist h a xs" "n \<noteq> 0" "n \<notin> set xs"
  shows "hlist (hlist_add_head n a h) a (n # xs)"
proof (cases xs)
  case Nil
  then show ?thesis using assms by (simp add: hlist_def hlist_add_head_def)
next
  case (Cons y ys)
  then have "hseg h (Next y) ys" using assms by (simp add: hlist_def)
  then have "hseg (hlist_add_head n a h) (Next y) ys"
    by (rule hseg_frame) (use assms Cons in \<open>auto simp: hlist_def hlist_add_head_def\<close>)
  then show ?thesis using assms Cons by (auto simp: hlist_def hlist_add_head_def)
qed

lemma hlist_add_head_rcu_eq: "slot h (First a) \<noteq> n \<Longrightarrow> hlist_add_head_rcu n a h = hlist_add_head n a h"
  by (auto simp: hlist_add_head_rcu_def hlist_add_head_def Let_def set_slot_def set_pprev_def fun_upd_twist)

lemma hlist_unlink_hlist:
  assumes "hlist h a (xs @ x # ys)"
  shows "\<exists>h'. hlist_unlink x h = Some h' \<and> hlist h' a (xs @ ys)"
proof -
  let ?s = "slot_after a xs"
  from assms have p: "distinct (xs @ x # ys)" "hpath h (First a) xs" "slot h ?s = x" "pprev h x = Some ?s"
    "hseg h (Next x) ys" by (auto simp: hlist_split)
  let ?h1 = "set_slot ?s (slot h (Next x)) h"
  let ?h' = "if slot h (Next x) \<noteq> 0 then set_pprev (slot h (Next x)) (Some ?s) ?h1 else ?h1"
  have u: "hlist_unlink x h = Some ?h'" using p(4) by (simp add: hlist_unlink_def Let_def)
  have d: "Next z \<noteq> ?s" if "z \<in> set ys" for z
    using that p(1) last_in_set [of xs] by (auto simp: slot_after_def disjoint_iff simp del: last_in_set split: if_splits)
  have s: "hseg ?h' ?s ys"
  proof (cases ys)
    case Nil
    then show ?thesis using p(5) by simp
  next
    case (Cons y zs)
    then have "hseg h (Next y) zs" using p(5) by simp
    then have "hseg ?h' (Next y) zs"
      by (rule hseg_frame) (use p Cons d in \<open>auto simp: hlist_split\<close>)
    then show ?thesis using Cons p(5) by simp
  qed
  have n: "slot h (Next x) \<notin> set xs" using p(1,5) by (cases ys) (auto dest: hpath_nonnull [OF p(2)])
  have "hpath ?h' (First a) xs"
    using p(2) by (rule hpath_frame)
      (use p(1) n slot_after_butlast [of xs _ a] in \<open>auto simp: slot_after_def\<close>)
  then show ?thesis using u s p(1) by (simp add: hlist_split)
qed

lemma hlist_frame:
  assumes "hlist h a xs" "slot h' (First a) = slot h (First a)"
    and "\<And>x. x \<in> set xs \<Longrightarrow> slot h' (Next x) = slot h (Next x) \<and> pprev h' x = pprev h x"
  shows "hlist h' a xs"
  using assms by (auto simp: hlist_def intro: hseg_frame)

lemma hlist_for_each_hseg: "hseg h s xs \<Longrightarrow> length xs < fuel \<Longrightarrow> hlist_for_each fuel (slot h s) h = Some xs"
proof (induction xs arbitrary: s fuel)
  case Nil
  then show ?case by (cases fuel) auto
next
  case (Cons x xs)
  then obtain f where "fuel = Suc f" by (cases fuel) auto
  then show ?case using Cons by auto
qed

lemma hlist_for_each_hlist:
  "hlist h a xs \<Longrightarrow> length xs < fuel \<Longrightarrow> hlist_for_each fuel (slot h (First a)) h = Some xs"
  by (simp add: hlist_def hlist_for_each_hseg)

text \<open>The three deletions differ only in what they leave in the deleted node.\<close>

lemma hlist_del_hlist:
  assumes "hlist h a (xs @ x # ys)"
  shows "\<exists>h'. hlist_del x h = Some h' \<and> hlist h' a (xs @ ys)"
    and "\<exists>h'. hlist_del_rcu x h = Some h' \<and> hlist h' a (xs @ ys)"
    and "\<exists>h'. hlist_del_init x h = Some h' \<and> hlist h' a (xs @ ys) \<and> hlist_unhashed x h'"
proof -
  obtain h1 where h1: "hlist_unlink x h = Some h1" "hlist h1 a (xs @ ys)"
    using hlist_unlink_hlist [OF assms] by blast
  have x: "x \<notin> set (xs @ ys)" and p: "pprev h x \<noteq> None"
    using assms by (auto simp: hlist_split)
  show "\<exists>h'. hlist_del x h = Some h' \<and> hlist h' a (xs @ ys)"
    using h1 x by (auto simp: hlist_del_def intro!: hlist_frame [OF h1(2)])
  show "\<exists>h'. hlist_del_rcu x h = Some h' \<and> hlist h' a (xs @ ys)"
    using h1 x by (auto simp: hlist_del_rcu_def intro!: hlist_frame [OF h1(2)])
  show "\<exists>h'. hlist_del_init x h = Some h' \<and> hlist h' a (xs @ ys) \<and> hlist_unhashed x h'"
    using h1 x p by (auto simp: hlist_del_init_def INIT_HLIST_NODE_def hlist_unhashed_def
        intro!: hlist_frame [OF h1(2)])
qed

text \<open>
  \<open>hlist_add_after\<close> stores through the \<^verbatim>\<open>pprev\<close> of the node it is to insert, which is null in an
  initialised node that is on no list: it cannot insert one.
\<close>

lemma hlist_add_after_crashes: "hlist_unhashed next h \<Longrightarrow> hlist_add_after n next h = None"
  by (simp add: hlist_add_after_def hlist_unhashed_def)

text \<open>A node that is put at the head of a hash list and taken off again with any of the deletions leaves a
  walk of the list as it was, and the walk in between starts with the node; the deletion never stores
  through a null pointer.\<close>

theorem hlist_add_del:
  assumes "hlist h a xs" "n \<noteq> 0" "n \<notin> set xs" "Suc (length xs) < fuel"
  shows "hlist_for_each fuel (slot (hlist_add_head n a h) (First a)) (hlist_add_head n a h) = Some (n # xs) \<and>
         (\<forall>del \<in> {hlist_del, hlist_del_rcu, hlist_del_init}.
            \<exists>h'. del n (hlist_add_head n a h) = Some h' \<and>
                 hlist_for_each fuel (slot h' (First a)) h' = Some xs)"
proof -
  let ?h = "hlist_add_head n a h"
  have c: "hlist ?h a ([] @ n # xs)" using hlist_add_head_hlist [OF assms(1-3)] by simp
  have f: "length xs < fuel" using assms(4) by simp
  have "hlist_for_each fuel (slot ?h (First a)) ?h = Some (n # xs)"
    using c assms(4) by (intro hlist_for_each_hlist) auto
  moreover have "\<exists>h'. del n ?h = Some h' \<and> hlist_for_each fuel (slot h' (First a)) h' = Some xs"
    if "del \<in> {hlist_del, hlist_del_rcu, hlist_del_init}" for del
    using hlist_del_hlist [OF c] that hlist_for_each_hlist [OF _ f] by fastforce
  ultimately show ?thesis by blast
qed

theorem hlist_add_del_witness:
  "hlist_for_each 3 (slot (hlist_add_head 7 1 \<lparr>slot = \<lambda>_. 0, pprev = \<lambda>_. None\<rparr>) (First 1))
     (hlist_add_head 7 1 \<lparr>slot = \<lambda>_. 0, pprev = \<lambda>_. None\<rparr>) = Some [7]"
  using hlist_add_del [of "\<lparr>slot = \<lambda>_. 0, pprev = \<lambda>_. None\<rparr>" 1 "[]" 7 3] by (simp add: hlist_def)

end
