(* ===== verification/Timers.thy ===== *)
theory Timers
  imports Clist Cstring "HOL-Library.Multiset"
begin

text \<open>
  The kernel timers of kernelenv/kernelenv.c and the time command of tools/time.c. Timers live on the
  circular lists of Clist, ordered by expiry with the wrap-around comparison of \<^verbatim>\<open>time_after\<close>; the
  handlers are an argument of the operations that call them. The insertion into an ordered list
  is an interface of its own, the locale \<open>stable_insert\<close>, which the notifier chains use too.
\<close>

section \<open>The operations\<close>

record ktimers =
  theap :: lheap
  expires :: "addr \<Rightarrow> u64"
  tmagic :: "addr \<Rightarrow> u64"
  towner :: "addr \<Rightarrow> string"
  townerfunction :: "addr \<Rightarrow> string"
  tuse :: "addr \<Rightarrow> string option"
  jiffies :: u64

text \<open>The addresses of the list heads \<^verbatim>\<open>__timers\<close> and \<^verbatim>\<open>__running_timers\<close>.\<close>

definition timers_head :: addr where "timers_head = 1"
definition running_head :: addr where "running_head = 2"

text \<open>\<^verbatim>\<open>(long)(b) - (long)(a) < 0\<close>, at the width of \<^verbatim>\<open>unsigned long\<close>.\<close>

definition time_after :: "u64 \<Rightarrow> u64 \<Rightarrow> bool" where
  "time_after a b \<longleftrightarrow> sint (b - a) < 0"

definition time_before :: "u64 \<Rightarrow> u64 \<Rightarrow> bool" where
  "time_before a b = time_after b a"

definition TIMER_MAGIC :: u64 where "TIMER_MAGIC = 0x4b87ad6e"

definition init_timer :: "addr \<Rightarrow> string \<Rightarrow> string \<Rightarrow> ktimers \<Rightarrow> ktimers" where
  "init_timer t owner function s =
     s\<lparr>tmagic := (tmagic s)(t := TIMER_MAGIC), towner := (towner s)(t := owner),
       townerfunction := (townerfunction s)(t := function), tuse := (tuse s)(t := None)\<rparr>"

text \<open>The search of \<open>__add_timer\<close>: the first entry that expires later, or the head.\<close>

fun find_later :: "nat \<Rightarrow> u64 \<Rightarrow> ktimers \<Rightarrow> addr \<Rightarrow> addr option" where
  "find_later 0 e s t = None"
| "find_later (Suc fuel) e s t =
     (if t = timers_head then Some t
      else if time_after (expires s t) e then Some t
      else find_later fuel e s (lnext (theap s) t))"

definition add_timer :: "nat \<Rightarrow> addr \<Rightarrow> string \<Rightarrow> ktimers \<Rightarrow> ktimers option" where
  "add_timer fuel timer location s =
     (case find_later fuel (expires s timer) s (lnext (theap s) timers_head) of
        None \<Rightarrow> None
      | Some t \<Rightarrow> Some (s\<lparr>theap := list_add_tail timer t (theap s),
                         tuse := (tuse s)(timer := Some location)\<rparr>))"

text \<open>The answer of \<^verbatim>\<open>should_i_fail_once\<close> is an argument.\<close>

definition del_timer :: "bool \<Rightarrow> addr \<Rightarrow> ktimers \<Rightarrow> int \<times> ktimers" where
  "del_timer fail_once timer s =
     (if tuse s timer = None then (0, s)
      else if fail_once then
        (0, s\<lparr>theap := list_add timer running_head (list_del timer (theap s))\<rparr>)
      else
        (1, s\<lparr>theap := list_del timer (theap s), tuse := (tuse s)(timer := None)\<rparr>))"

fun running_loop :: "(addr \<Rightarrow> ktimers \<Rightarrow> ktimers) \<Rightarrow> nat \<Rightarrow> addr \<Rightarrow> addr \<Rightarrow> bool \<Rightarrow> ktimers \<Rightarrow> (bool \<times> ktimers) option" where
  "running_loop handler 0 t next ret s = None"
| "running_loop handler (Suc fuel) t next ret s =
     (if t = running_head then Some (ret, s)
      else
        let s = s\<lparr>theap := list_del t (theap s)\<rparr>;
            s = handler t s
        in running_loop handler fuel next (lnext (theap s) next) True s)"

definition do_running_timers :: "(addr \<Rightarrow> ktimers \<Rightarrow> ktimers) \<Rightarrow> nat \<Rightarrow> ktimers \<Rightarrow> (bool \<times> ktimers) option" where
  "do_running_timers handler fuel s =
     (let t = lnext (theap s) running_head
      in running_loop handler fuel t (lnext (theap s) t) False s)"

definition schedule :: "(addr \<Rightarrow> ktimers \<Rightarrow> ktimers) \<Rightarrow> nat \<Rightarrow> ktimers \<Rightarrow> ktimers outcome option" where
  "schedule handler fuel s =
     (case do_running_timers handler fuel s of
        None \<Rightarrow> None
      | Some (fired, s) \<Rightarrow>
          Some (if \<not> fired then Barf ''Call to schedule with no running timers'' else Ok s))"

definition timer_pending :: "addr \<Rightarrow> ktimers \<Rightarrow> bool" where
  "timer_pending t s \<longleftrightarrow> expires s t > jiffies s"

text \<open>
  The loop of \<open>increment_time\<close>; the first component is the sequence of timers whose handler ran, which
  the code logs.
\<close>

fun timer_loop :: "(addr \<Rightarrow> ktimers \<Rightarrow> ktimers) \<Rightarrow> nat \<Rightarrow> addr \<Rightarrow> ktimers \<Rightarrow> (addr list \<times> ktimers) option" where
  "timer_loop handler 0 i s = None"
| "timer_loop handler (Suc fuel) i s =
     (if i = timers_head then Some ([], s)
      else
        let t = i in
        if time_before (jiffies s) (expires s t) then Some ([], s)
        else
          let i = lnext (theap s) i;
              s = s\<lparr>theap := list_del t (theap s), tuse := (tuse s)(t := None)\<rparr>;
              s = handler t s
          in map_option (\<lambda>(fired, s). (t # fired, s)) (timer_loop handler fuel i s))"

definition increment_time :: "(addr \<Rightarrow> ktimers \<Rightarrow> ktimers) \<Rightarrow> nat \<Rightarrow> u32 \<Rightarrow> ktimers \<Rightarrow> (addr list \<times> ktimers) option" where
  "increment_time handler fuel inc s =
     (let s = s\<lparr>jiffies := jiffies s + ucast inc\<rparr>
      in timer_loop handler fuel (lnext (theap s) timers_head) s)"

text \<open>tools/time.c: the expiry is returned as an \<^verbatim>\<open>int\<close>, the difference passed as an \<^verbatim>\<open>unsigned int\<close>.\<close>

definition find_last_timer :: "ktimers \<Rightarrow> u32" where
  "find_last_timer s =
     (if list_empty timers_head (theap s) then 0
      else ucast (expires s (lprev (theap s) timers_head)))"

text \<open>
  What the arguments of the time command ask for. \<^verbatim>\<open>atoi(..) * HZ\<close> is an \<^verbatim>\<open>int\<close>; compared with or subtracted
  from \<^verbatim>\<open>jiffies\<close> it is sign-extended to \<^verbatim>\<open>unsigned long\<close>, and the argument of \<open>increment_time\<close> is truncated
  to \<^verbatim>\<open>unsigned int\<close>.
\<close>

datatype time_action = Show_time u64 | Advance u32 | Refuse string | Usage

definition time_action :: "string list \<Rightarrow> ktimers \<Rightarrow> time_action" where
  "time_action argv s =
     (case argv of
        [_] \<Rightarrow> Show_time (jiffies s div ucast HZ)
      | [_, arg] \<Rightarrow>
          if arg = ''+infinity'' then Advance (ucast (scast (find_last_timer s) - jiffies s))
          else if strstarts arg ''+'' then Advance (atoi (drop 1 arg) * HZ)
          else if strstarts arg ''-'' then Refuse ''Backwards time travel not implemented''
          else if atoi arg = 0 then Refuse ''Bad time argument''
          else if scast (atoi arg * HZ) < jiffies s then Refuse ''Flares alert: Backwards time travel not implemented''
          else Advance (ucast (scast (atoi arg * HZ) - jiffies s))
      | _ \<Rightarrow> Usage)"

definition time_cmd :: "(addr \<Rightarrow> ktimers \<Rightarrow> ktimers) \<Rightarrow> nat \<Rightarrow> string list \<Rightarrow> ktimers \<Rightarrow> (bool \<times> addr list \<times> ktimers) option" where
  "time_cmd handler fuel argv s =
     (case time_action argv s of
        Show_time _ \<Rightarrow> Some (True, [], s)
      | Advance inc \<Rightarrow> map_option (\<lambda>(fired, s). (True, fired, s)) (increment_time handler fuel inc s)
      | Refuse _ \<Rightarrow> Some (False, [], s)
      | Usage \<Rightarrow> Some (False, [], s))"

section \<open>Insertion into an ordered list\<close>

text \<open>
  The contract of an insertion that keeps a list in rank order and puts a new entry behind those of
  equal rank.
\<close>

locale stable_insert =
  fixes rank :: "'a \<Rightarrow> 'r::linorder"
    and ins :: "'a \<Rightarrow> 'a list \<Rightarrow> 'a list"
  assumes ins_split: "ins x xs = takeWhile (\<lambda>y. rank y \<le> rank x) xs @ x # dropWhile (\<lambda>y. rank y \<le> rank x) xs"
begin

lemma ins_mset: "mset (ins x xs) = add_mset x (mset xs)"
proof -
  have "mset (takeWhile (\<lambda>y. rank y \<le> rank x) xs @ dropWhile (\<lambda>y. rank y \<le> rank x) xs) = mset xs"
    by (simp only: takeWhile_dropWhile_id)
  then show ?thesis unfolding ins_split mset_append by simp
qed

lemma ins_set: "set (ins x xs) = insert x (set xs)"
  by (metis ins_mset list.set(2) mset.simps(2) mset_eq_setD)

lemma ins_distinct: "distinct (ins x xs) \<longleftrightarrow> x \<notin> set xs \<and> distinct xs"
  by (metis distinct.simps(2) ins_mset mset.simps(2) mset_eq_imp_distinct_iff)

lemma sorted_tail_larger:
  assumes "sorted (map rank xs)" "y \<in> set (dropWhile (\<lambda>y. rank y \<le> rank x) xs)"
  shows "rank x < rank y"
proof -
  let ?d = "dropWhile (\<lambda>y. rank y \<le> rank x) xs"
  have s: "sorted (map rank ?d)" using assms(1) by (metis dropWhile_eq_drop drop_map sorted_wrt_drop)
  obtain z zs where d: "?d = z # zs" using assms(2) by (cases ?d) auto
  then have "\<not> rank z \<le> rank x" by (metis dropWhile_eq_Cons_conv)
  then show ?thesis using s d assms(2) by auto
qed

lemma ins_sorted:
  assumes "sorted (map rank xs)"
  shows "sorted (map rank (ins x xs))"
proof -
  have between: "sorted (map rank (t @ d)) \<Longrightarrow> \<forall>y\<in>set t. rank y \<le> rank x \<Longrightarrow> \<forall>y\<in>set d. rank x < rank y \<Longrightarrow>
    sorted (map rank (t @ x # d))" for t d
    by (auto simp: sorted_append less_imp_le)
  show ?thesis unfolding ins_split
    by (rule between) (use assms sorted_tail_larger [OF assms] in \<open>auto simp: takeWhile_dropWhile_id dest: set_takeWhileD\<close>)
qed

lemma ins_stable:
  assumes "sorted (map rank xs)"
  shows "filter (\<lambda>y. rank y = k) (ins x xs) = filter (\<lambda>y. rank y = k) xs @ (if rank x = k then [x] else [])"
proof -
  let ?t = "takeWhile (\<lambda>y. rank y \<le> rank x) xs" and ?d = "dropWhile (\<lambda>y. rank y \<le> rank x) xs"
  have x: "filter (\<lambda>y. rank y = k) xs = filter (\<lambda>y. rank y = k) ?t @ filter (\<lambda>y. rank y = k) ?d"
    by (metis filter_append takeWhile_dropWhile_id)
  have "rank x = k \<Longrightarrow> filter (\<lambda>y. rank y = k) ?d = []"
    using sorted_tail_larger [OF assms] by (fastforce simp: filter_empty_conv)
  then show ?thesis unfolding x ins_split by auto
qed

end

section \<open>The wrap-around comparison inside a window\<close>

text \<open>
  Within any window of less than \<open>2 ^ 63\<close> ticks \<open>time_after\<close> orders times by their distance from the
  window's start.
\<close>

definition in_window :: "u64 \<Rightarrow> u64 \<Rightarrow> bool" where
  "in_window base e \<longleftrightarrow> unat (e - base) < 9223372036854775808"

lemma len64_pow: "2 ^ LENGTH(64) = (18446744073709551616 :: nat)"
  by simp

lemma sint_negative: "sint (w :: u64) < 0 \<longleftrightarrow> 9223372036854775808 \<le> unat w"
proof -
  have "sint w < 0 \<longleftrightarrow> bit (uint w) 63" by (simp add: sint_uint)
  also have "\<dots> \<longleftrightarrow> bit (unat w) 63" by (simp only: uint_nat bit_of_nat_iff_bit)
  also have "\<dots> \<longleftrightarrow> odd (unat w div 9223372036854775808)" by (simp add: bit_iff_odd)
  also have "\<dots> \<longleftrightarrow> 9223372036854775808 \<le> unat w"
  proof -
    have "unat w div 9223372036854775808 < 2"
      using unat_u64_less [of w] by (intro less_mult_imp_div_less) simp
    then have "unat w div 9223372036854775808 = 0 \<or> unat w div 9223372036854775808 = 1" by linarith
    then show ?thesis by (auto simp: div_eq_0_iff)
  qed
  finally show ?thesis .
qed

lemma time_after_window:
  assumes "in_window base a" "in_window base b"
  shows "time_after a b \<longleftrightarrow> unat (b - base) < unat (a - base)"
proof -
  define x y where "x = unat (a - base)" "y = unat (b - base)"
  have "unat (b - a) = unat ((b - base) - (a - base))" by simp
  also have "\<dots> = (if x \<le> y then y - x else y + 18446744073709551616 - x)"
    unfolding x_y_def by (simp only: unat_sub_if' len64_pow)
  finally show ?thesis
    using assms unfolding time_after_def in_window_def sint_negative x_y_def [symmetric] by auto
qed

section \<open>The timer list\<close>

text \<open>
  The abstract view of the timer list: the timers in the order of \<^verbatim>\<open>__timers\<close>, with the rank of a timer its
  distance from the start of the window.
\<close>

definition timer_rank :: "u64 \<Rightarrow> ktimers \<Rightarrow> addr \<Rightarrow> nat" where
  "timer_rank base s t = unat (expires s t - base)"

definition timer_insert :: "u64 \<Rightarrow> ktimers \<Rightarrow> addr \<Rightarrow> addr list \<Rightarrow> addr list" where
  "timer_insert base s t xs =
     takeWhile (\<lambda>y. timer_rank base s y \<le> timer_rank base s t) xs @ t #
     dropWhile (\<lambda>y. timer_rank base s y \<le> timer_rank base s t) xs"

interpretation ti: stable_insert "timer_rank base s" "timer_insert base s"
  for base s
  by unfold_locales (simp add: timer_insert_def)

definition timers_ok :: "u64 \<Rightarrow> ktimers \<Rightarrow> addr list \<Rightarrow> bool" where
  "timers_ok base s xs \<longleftrightarrow>
     clist (theap s) timers_head xs \<and> (\<forall>t \<in> set xs. in_window base (expires s t)) \<and>
     sorted (map (timer_rank base s) xs)"

lemma clist_rotate: "clist h a (xs @ y # ys) \<longleftrightarrow> clist h y (ys @ a # xs)"
  by (auto simp: clist_def seg_append)

text \<open>\<open>list_add_tail\<close> on an entry of a list puts the new entry in front of it.\<close>

lemma list_add_tail_before:
  assumes "clist h a (xs @ ys)" "new \<notin> set (a # xs @ ys)"
  shows "clist (list_add_tail new (hd (ys @ [a])) h) a (xs @ new # ys)"
proof (cases ys)
  case Nil
  then show ?thesis using assms list_add_tail_clist [of h a xs new] by simp
next
  case (Cons z zs)
  then have "clist h z (zs @ a # xs)" using assms(1) clist_rotate by simp
  then have "clist (list_add_tail new z h) z (zs @ a # (xs @ [new]))"
    using list_add_tail_clist [of h z "zs @ a # xs" new] assms(2) Cons by auto
  then show ?thesis using Cons clist_rotate [of _ a "xs @ [new]" z zs] by simp
qed

lemma find_later_seg:
  assumes "seg (theap s) a xs timers_head" "timers_head \<notin> set xs" "length xs < fuel"
  shows "find_later fuel e s (lnext (theap s) a) =
    Some (hd (dropWhile (\<lambda>t. \<not> time_after (expires s t) e) xs @ [timers_head]))"
  using assms
proof (induction xs arbitrary: a fuel)
  case Nil
  then show ?case by (cases fuel) auto
next
  case (Cons x xs)
  then obtain f where "fuel = Suc f" by (cases fuel) auto
  then show ?case using Cons by auto
qed

lemma takeWhile_rank:
  assumes "\<forall>t \<in> set (timer # xs). in_window base (expires s t)"
  shows "takeWhile (\<lambda>t. \<not> time_after (expires s t) (expires s timer)) xs =
           takeWhile (\<lambda>t. timer_rank base s t \<le> timer_rank base s timer) xs"
    and "dropWhile (\<lambda>t. \<not> time_after (expires s t) (expires s timer)) xs =
           dropWhile (\<lambda>t. timer_rank base s t \<le> timer_rank base s timer) xs"
  using assms by (auto intro!: takeWhile_cong dropWhile_cong
      simp: timer_rank_def time_after_window [of base] not_less)

lemma add_timer_refines:
  assumes "timers_ok base s xs" "in_window base (expires s timer)" "timer \<notin> set (timers_head # xs)"
    and "length xs < fuel"
  shows "\<exists>s'. add_timer fuel timer loc s = Some s' \<and> timers_ok base s' (timer_insert base s timer xs) \<and>
              expires s' = expires s \<and> jiffies s' = jiffies s \<and> tuse s' timer = Some loc"
proof -
  let ?P = "\<lambda>t. \<not> time_after (expires s t) (expires s timer)"
  let ?t = "hd (dropWhile ?P xs @ [timers_head])"
  let ?s' = "s\<lparr>theap := list_add_tail timer ?t (theap s), tuse := (tuse s)(timer := Some loc)\<rparr>"
  have c: "clist (theap s) timers_head xs" and w: "\<forall>t \<in> set (timer # xs). in_window base (expires s t)"
    and srt: "sorted (map (timer_rank base s) xs)"
    using assms(1,2) by (auto simp: timers_ok_def)
  have "find_later fuel (expires s timer) s (lnext (theap s) timers_head) = Some ?t"
    using c assms(4) by (intro find_later_seg) (auto simp: clist_def)
  then have e: "add_timer fuel timer loc s = Some ?s'" by (simp add: add_timer_def)
  have i: "timer_insert base s timer xs = takeWhile ?P xs @ timer # dropWhile ?P xs"
    by (simp add: timer_insert_def takeWhile_rank [OF w])
  have "clist (theap ?s') timers_head (timer_insert base s timer xs)"
    unfolding i using list_add_tail_before [of "theap s" timers_head "takeWhile ?P xs" "dropWhile ?P xs" timer]
      c assms(3) by (simp add: takeWhile_dropWhile_id flip: set_append)
  moreover have "timer_rank base ?s' = timer_rank base s" by (simp add: timer_rank_def fun_eq_iff)
  ultimately have "timers_ok base ?s' (timer_insert base s timer xs)"
    using ti.ins_sorted [OF srt] w by (auto simp: timers_ok_def ti.ins_set)
  then show ?thesis using e by auto
qed

text \<open>C28. \<open>__add_timer\<close> keeps the timer list ordered by expiry, puts the new timer behind those that expire at the
  same tick, changes no other timer's order and marks the timer as in use, for any list of timers whose
  expiries lie within one window of \<open>2 ^ 63\<close> ticks, wherever that window wraps.\<close>

theorem add_timer_sorted:
  assumes "timers_ok base s xs" "in_window base (expires s timer)" "timer \<notin> set (timers_head # xs)"
    and "length xs < fuel"
  shows "\<exists>s' ys zs. add_timer fuel timer loc s = Some s' \<and> xs = ys @ zs \<and>
           list_for_each (Suc fuel) timers_head (theap s') = Some (ys @ timer # zs) \<and>
           (\<forall>t \<in> set ys. \<not> time_after (expires s t) (expires s timer)) \<and>
           (\<forall>t \<in> set zs. time_after (expires s t) (expires s timer)) \<and>
           timers_ok base s' (ys @ timer # zs) \<and> tuse s' timer = Some loc"
proof -
  let ?P = "\<lambda>y. timer_rank base s y \<le> timer_rank base s timer"
  obtain s' where s': "add_timer fuel timer loc s = Some s'" "timers_ok base s' (timer_insert base s timer xs)"
    "tuse s' timer = Some loc" using add_timer_refines [OF assms] by blast
  have w: "\<forall>t \<in> set xs. in_window base (expires s t)" "sorted (map (timer_rank base s) xs)"
    using assms(1) by (auto simp: timers_ok_def)
  have "list_for_each (Suc fuel) timers_head (theap s') = Some (timer_insert base s timer xs)"
    using s'(2) assms(4) ti.ins_mset [of base s timer xs]
    by (intro list_for_each_clist(1)) (auto simp: timers_ok_def dest: arg_cong [of _ _ size])
  moreover have "\<not> time_after (expires s t) (expires s timer)" if "t \<in> set (takeWhile ?P xs)" for t
    using that w(1) assms(2) by (auto dest!: set_takeWhileD simp: time_after_window [of base] timer_rank_def)
  moreover have "time_after (expires s t) (expires s timer)" if "t \<in> set (dropWhile ?P xs)" for t
    using ti.sorted_tail_larger [OF w(2) that] w(1) assms(2) set_dropWhileD [OF that]
    by (simp add: time_after_window [of base] timer_rank_def)
  ultimately show ?thesis
    using s' unfolding timer_insert_def
    by (intro exI [of _ s'] exI [of _ "takeWhile ?P xs"] exI [of _ "dropWhile ?P xs"])
      (simp add: takeWhile_dropWhile_id)
qed

text \<open>Handlers that neither add nor delete timers nor change the time.\<close>

definition quiet :: "(addr \<Rightarrow> ktimers \<Rightarrow> ktimers) \<Rightarrow> bool" where
  "quiet handler \<longleftrightarrow> (\<forall>t s. theap (handler t s) = theap s \<and> expires (handler t s) = expires s \<and>
                          jiffies (handler t s) = jiffies s)"

lemma timer_loop_clist:
  assumes "quiet handler" "clist (theap s) timers_head xs" "length xs < fuel"
  shows "\<exists>s'. timer_loop handler fuel (lnext (theap s) timers_head) s =
           Some (takeWhile (\<lambda>t. \<not> time_before (jiffies s) (expires s t)) xs, s') \<and>
         clist (theap s') timers_head (dropWhile (\<lambda>t. \<not> time_before (jiffies s) (expires s t)) xs) \<and>
         expires s' = expires s \<and> jiffies s' = jiffies s"
  using assms(2,3)
proof (induction fuel arbitrary: s xs)
  case (Suc fuel)
  show ?case
  proof (cases xs)
    case Nil
    then show ?thesis using Suc.prems by (simp add: clist_Nil)
  next
    case (Cons x ys)
    have x: "lnext (theap s) timers_head = x" "x \<noteq> timers_head"
      using Suc.prems(1) Cons by (auto simp: clist_def)
    show ?thesis
    proof (cases "time_before (jiffies s) (expires s x)")
      case True
      then show ?thesis using Suc.prems x Cons by simp
    next
      case False
      let ?s1 = "s\<lparr>theap := list_del x (theap s), tuse := (tuse s)(x := None)\<rparr>"
      let ?s2 = "handler x ?s1"
      have q: "theap ?s2 = list_del x (theap s)" "expires ?s2 = expires s" "jiffies ?s2 = jiffies s"
        using assms(1) by (auto simp: quiet_def)
      have c: "clist (theap ?s2) timers_head ys"
        using dl.remove_rep [of "theap s" timers_head "[]" x ys] Suc.prems(1) Cons q(1) by simp
      have "lnext (theap s) x = lnext (theap ?s2) timers_head"
        using clist_next [OF c] Suc.prems(1) Cons by (auto simp: clist_def dest: seg_first)
      then show ?thesis
        using Suc.IH [OF c] Suc.prems(2) False x Cons q by (auto simp: Let_def)
    qed
  qed
qed simp

lemma sorted_split_at:
  fixes n :: "'b::linorder"
  assumes "sorted (map f xs)"
  shows "takeWhile (\<lambda>t. f t \<le> n) xs = filter (\<lambda>t. f t \<le> n) xs"
    and "dropWhile (\<lambda>t. f t \<le> n) xs = filter (\<lambda>t. \<not> f t \<le> n) xs"
proof -
  have "takeWhile (\<lambda>t. f t \<le> n) xs = filter (\<lambda>t. f t \<le> n) xs \<and>
        dropWhile (\<lambda>t. f t \<le> n) xs = filter (\<lambda>t. \<not> f t \<le> n) xs"
    using assms
  proof (induction xs)
    case (Cons x xs)
    show ?case
    proof (cases "f x \<le> n")
      case False
      then have "\<forall>t \<in> set xs. \<not> f t \<le> n" using Cons.prems by fastforce
      then show ?thesis using False by (simp add: filter_empty_conv)
    qed (use Cons in simp)
  qed simp
  then show "takeWhile (\<lambda>t. f t \<le> n) xs = filter (\<lambda>t. f t \<le> n) xs"
    and "dropWhile (\<lambda>t. f t \<le> n) xs = filter (\<lambda>t. \<not> f t \<le> n) xs" by blast+
qed

lemma sorted_due:
  assumes "timers_ok base s xs" "in_window base now"
  shows "takeWhile (\<lambda>t. \<not> time_before now (expires s t)) xs = filter (\<lambda>t. \<not> time_before now (expires s t)) xs"
    and "dropWhile (\<lambda>t. \<not> time_before now (expires s t)) xs = filter (\<lambda>t. time_before now (expires s t)) xs"
proof -
  let ?D = "\<lambda>t. timer_rank base s t \<le> unat (now - base)"
  have r: "time_before now (expires s t) \<longleftrightarrow> \<not> ?D t" if "t \<in> set xs" for t
    using assms that
    by (auto simp: timers_ok_def time_before_def timer_rank_def time_after_window [of base] not_le)
  have s: "sorted (map (timer_rank base s) xs)" using assms(1) by (simp add: timers_ok_def)
  have "takeWhile (\<lambda>t. \<not> time_before now (expires s t)) xs = takeWhile ?D xs"
    using r by (intro takeWhile_cong) auto
  also have "\<dots> = filter (\<lambda>t. \<not> time_before now (expires s t)) xs"
    unfolding sorted_split_at(1) [OF s] using r by (intro filter_cong) auto
  finally show "takeWhile (\<lambda>t. \<not> time_before now (expires s t)) xs = \<dots>" .
  have "dropWhile (\<lambda>t. \<not> time_before now (expires s t)) xs = dropWhile ?D xs"
    using r by (intro dropWhile_cong) auto
  also have "\<dots> = filter (\<lambda>t. time_before now (expires s t)) xs"
    unfolding sorted_split_at(2) [OF s] using r by (intro filter_cong) auto
  finally show "dropWhile (\<lambda>t. \<not> time_before now (expires s t)) xs = \<dots>" .
qed

lemma increment_time_spec:
  assumes "quiet handler" "timers_ok base s xs" "in_window base (jiffies s + ucast inc)" "length xs < fuel"
  shows "\<exists>s'. increment_time handler fuel inc s =
           Some (filter (\<lambda>t. \<not> time_before (jiffies s + ucast inc) (expires s t)) xs, s') \<and>
         timers_ok base s' (filter (\<lambda>t. time_before (jiffies s + ucast inc) (expires s t)) xs) \<and>
         jiffies s' = jiffies s + ucast inc"
proof -
  let ?s = "s\<lparr>jiffies := jiffies s + ucast inc\<rparr>" and ?now = "jiffies s + ucast inc"
  have ok: "timers_ok base ?s xs" using assms(2) by (simp add: timers_ok_def timer_rank_def [abs_def])
  then have "clist (theap ?s) timers_head xs" by (simp add: timers_ok_def)
  from timer_loop_clist [OF assms(1) this assms(4)] obtain s' where
    s': "increment_time handler fuel inc s = Some (takeWhile (\<lambda>t. \<not> time_before ?now (expires s t)) xs, s')"
      "clist (theap s') timers_head (dropWhile (\<lambda>t. \<not> time_before ?now (expires s t)) xs)"
      "expires s' = expires s" "jiffies s' = ?now"
    by (auto simp: increment_time_def)
  have "timers_ok base s' (filter (\<lambda>t. time_before ?now (expires s t)) xs)"
    using s'(2,3) assms(2) sorted_due(2) [OF assms(2,3)]
    by (auto simp: timers_ok_def timer_rank_def [abs_def] sorted_filter)
  then show ?thesis using s' sorted_due(1) [OF assms(2,3)] by auto
qed

text \<open>C29. With handlers that neither arm nor delete timers nor change the time, advancing the time runs
  the handlers of exactly the timers that are then due, in the order of the list, takes those timers off it and leaves the others on it, in
  order; the loop ends. The expiries and the new time lie within one window of \<open>2 ^ 63\<close> ticks. (A handler that deletes a due
  timer may find it run all the same, see \<open>deleted_timer_still_runs\<close>.)\<close>

theorem increment_time_runs_due:
  assumes "quiet handler" "timers_ok base s xs" "in_window base (jiffies s + ucast inc)" "length xs < fuel"
  shows "\<exists>s'. increment_time handler fuel inc s =
           Some (filter (\<lambda>t. \<not> time_before (jiffies s + ucast inc) (expires s t)) xs, s') \<and>
         timers_ok base s' (filter (\<lambda>t. time_before (jiffies s + ucast inc) (expires s t)) xs) \<and>
         jiffies s' = jiffies s + ucast inc"
  using assms by (rule increment_time_spec)

text \<open>Three timers, armed in the order of their addresses, for the examples.\<close>

definition no_timers :: ktimers where
  "no_timers = \<lparr>theap = INIT_LIST_HEAD running_head (INIT_LIST_HEAD timers_head \<lparr>lnext = \<lambda>_. 0, lprev = \<lambda>_. 0\<rparr>),
     expires = (\<lambda>t. if t = 10 then 7 else if t = 11 then 5 else 9),
     tmagic = \<lambda>_. 0, towner = \<lambda>_. [], townerfunction = \<lambda>_. [], tuse = \<lambda>_. None, jiffies = 0\<rparr>"

lemma no_timers_ok: "timers_ok 0 no_timers []"
  by (simp add: timers_ok_def no_timers_def clist_Nil INIT_LIST_HEAD_def timers_head_def running_head_def)

definition one_timer :: ktimers where
  "one_timer = no_timers\<lparr>theap := list_add_tail 10 timers_head (theap no_timers), tuse := (\<lambda>_. None)(10 := Some ''a'')\<rparr>"

lemma one_timer_ok: "timers_ok 0 one_timer [10]"
  by (simp add: timers_ok_def one_timer_def no_timers_def clist_def list_defs timers_head_def
      running_head_def in_window_def)

theorem add_timer_sorted_witness:
  "\<exists>s' ys zs. add_timer 5 11 ''b'' one_timer = Some s' \<and> [10] = ys @ zs \<and>
     list_for_each 6 timers_head (theap s') = Some (ys @ 11 # zs) \<and>
     (\<forall>t \<in> set ys. \<not> time_after (expires one_timer t) (expires one_timer 11)) \<and>
     (\<forall>t \<in> set zs. time_after (expires one_timer t) (expires one_timer 11)) \<and>
     timers_ok 0 s' (ys @ 11 # zs) \<and> tuse s' 11 = Some ''b''"
  using add_timer_sorted [OF one_timer_ok, of 11 5 "''b''"]
  by (simp add: in_window_def one_timer_def no_timers_def timers_head_def)

theorem increment_time_runs_due_witness:
  "\<exists>s'. increment_time (\<lambda>t s. s) 5 8 one_timer = Some ([10], s') \<and> timers_ok 0 s' []"
  using increment_time_runs_due [OF _ one_timer_ok, of "\<lambda>t s. s" 8 5]
  by (auto simp: quiet_def in_window_def one_timer_def no_timers_def time_before_def time_after_def)

text \<open>
  \<open>do_running_timers\<close> frees \<^verbatim>\<open>t->use\<close> but does not clear it, so a timer that was run from there still
  looks armed: a later \<open>__del_timer\<close> takes it off a list it is no longer on.
\<close>

lemma running_timer_stays_marked:
  assumes "\<And>t s. tuse (handler t s) = tuse s" "running_loop handler fuel t n ret s = Some (r, s')"
  shows "tuse s' = tuse s"
  using assms(2)
proof (induction fuel arbitrary: t n ret s)
  case (Suc fuel)
  show ?case
  proof (cases "t = running_head")
    case False
    then show ?thesis using Suc.IH Suc.prems assms(1) by (fastforce simp: Let_def)
  qed (use Suc.prems in simp)
qed simp

text \<open>
  \<open>increment_time\<close> has read the successor of a timer before it calls the timer's handler. A handler that
  deletes that successor does not stop it from being run.
\<close>

definition two_timers :: ktimers where
  "two_timers = the (add_timer 5 10 ''b'' (the (add_timer 5 11 ''a'' no_timers)))"

lemma deleted_timer_still_runs:
  "map_option fst (increment_time (\<lambda>t s. if t = 11 then snd (del_timer False 10 s) else s) 5 8 two_timers)
   = Some [11, 10]"
  by code_simp

lemma take_bit_31: "e < 0x80000000 \<Longrightarrow> take_bit 31 (e :: u64) = e"
  by (simp add: word_eq_iff_unsigned [where ?'a = nat] unsigned_take_bit_eq take_bit_nat_eq_self word_less_nat_alt)

lemma scast_ucast_int:
  assumes "e < 0x80000000"
  shows "scast (ucast (e :: u64) :: u32) = e"
proof -
  have high: "n < 31" if "bit e n" for n
    using that take_bit_31 [OF assms] by (metis bit_take_bit_iff)
  then have "\<not> bit e 31" by blast
  then show ?thesis using high by (intro bit_word_eqI) (auto simp: bit_simps min_def not_less dest: high)
qed

lemma ucast_ucast_small:
  assumes "e < 0x80000000"
  shows "ucast (ucast (e :: u64) :: u32) = e"
proof -
  have "bit e n \<Longrightarrow> n < 31" for n
    using take_bit_31 [OF assms] by (metis bit_take_bit_iff)
  then show ?thesis by (intro bit_word_eqI) (fastforce simp: bit_simps)
qed

lemma find_last_timer_clist:
  "clist (theap s) timers_head xs \<Longrightarrow> xs \<noteq> [] \<Longrightarrow> find_last_timer s = ucast (expires s (last xs))"
  by (simp add: find_last_timer_def list_empty_clist clist_prev)

text \<open>C40. With handlers that neither arm nor delete timers nor change the time, and while the simulated time fits an \<^verbatim>\<open>int\<close>: if there is a
  pending timer and the last one to expire is not overdue, the command \<^verbatim>\<open>time +infinity\<close> runs every pending timer, in order, and leaves the
  timer list empty and the clock at the last expiry.\<close>

theorem time_infinity_runs_all:
  assumes "quiet handler" "timers_ok 0 s xs" "xs \<noteq> []" "length xs < fuel"
    and "expires s (last xs) < 0x80000000" "jiffies s \<le> expires s (last xs)"
  shows "\<exists>s'. time_cmd handler fuel [''time'', ''+infinity''] s = Some (True, xs, s') \<and>
              list_empty timers_head (theap s') \<and> jiffies s' = expires s (last xs)"
proof -
  let ?e = "expires s (last xs)" and ?inc = "ucast (expires s (last xs) - jiffies s) :: u32"
  have c: "clist (theap s) timers_head xs" and srt: "sorted (map (timer_rank 0 s) xs)"
    using assms(2) by (auto simp: timers_ok_def)
  have w: "in_window 0 (expires s t)" if "t \<in> set xs" for t
    using assms(2) that by (auto simp: timers_ok_def)
  have d: "?e - jiffies s < 0x80000000"
    using assms(5,6) by (simp add: word_less_nat_alt word_le_nat_alt unat_sub)
  then have now: "jiffies s + ucast ?inc = ?e" by (simp add: ucast_ucast_small)
  have a: "time_action [''time'', ''+infinity''] s = Advance ?inc"
    using assms(3,5) c by (simp add: time_action_def find_last_timer_clist scast_ucast_int)
  have "timer_rank 0 s t \<le> timer_rank 0 s (last xs)" if "t \<in> set xs" for t
    using srt assms(3) that by (cases xs rule: rev_cases) (auto simp: sorted_append)
  then have due: "\<not> time_before ?e (expires s t)" if "t \<in> set xs" for t
    using that w w [OF last_in_set [OF assms(3)]]
    by (simp add: time_before_def time_after_window [of 0] timer_rank_def not_less)
  have "in_window 0 (jiffies s + ucast ?inc)" unfolding now using w assms(3) by simp
  from increment_time_spec [OF assms(1,2) this assms(4)] obtain s' where
    "increment_time handler fuel ?inc s = Some (xs, s')" "timers_ok 0 s' []" "jiffies s' = ?e"
    unfolding now using due by (auto simp: filter_empty_conv cong: filter_cong)
  then show ?thesis
    using a by (auto simp: time_cmd_def timers_ok_def list_empty_clist)
qed

theorem time_infinity_runs_all_witness:
  "\<exists>s'. time_cmd (\<lambda>t s. s) 5 [''time'', ''+infinity''] one_timer = Some (True, [10], s') \<and>
        list_empty timers_head (theap s') \<and> jiffies s' = 7"
  using time_infinity_runs_all [OF _ one_timer_ok, of "\<lambda>t s. s" 5]
  by (simp add: quiet_def one_timer_def no_timers_def)

text \<open>
  \<open>__del_timer\<close> on an armed timer either takes it off the timer list and answers 1 or, when it is told to
  pretend that the handler is running, moves it to the running list and answers 0.
\<close>

lemma del_timer_armed:
  assumes "clist (theap s) timers_head (xs @ t # ys)" "clist (theap s) running_head rs"
    and "set (timers_head # xs @ t # ys) \<inter> set (running_head # rs) = {}" "tuse s t \<noteq> None"
  shows "\<exists>s'. del_timer False t s = (1, s') \<and> clist (theap s') timers_head (xs @ ys) \<and>
              clist (theap s') running_head rs \<and> tuse s' t = None"
    and "\<exists>s'. del_timer True t s = (0, s') \<and> clist (theap s') timers_head (xs @ ys) \<and>
              clist (theap s') running_head (t # rs) \<and> tuse s' = tuse s"
  using assms dl.remove_rep [OF assms(1)] dl.remove_frame [OF assms(1) _ assms(2,3)]
    dl.move_rep(1) [OF assms(1-3)] by (auto simp: del_timer_def)

end
