(* ===== verification/Kernelenv.thy ===== *)
theory Kernelenv
  imports Timers
begin

text \<open>
  The rest of the kernel environment of kernelenv/kernelenv.c that is neither packets nor lists: locks and
  semaphores with their misuse checks, the bit operations, the 64-by-32-bit division, notifier chains,
  object caches, page orders, error pointers and atomic counters.
\<close>

section \<open>Locks and semaphores\<close>

text \<open>\<open>lck\<close> is -1 while a writer holds the lock, else the number of readers, without the overflow after more than
  2 147 483 647 of them; \<open>location\<close> is where it was taken.\<close>

record spinlock =
  lck :: int
  location :: "string option"

definition spin_lock_init :: "spinlock \<Rightarrow> spinlock" where
  "spin_lock_init l = l\<lparr>lck := 0, location := None\<rparr>"

definition generic_write_lock :: "string \<Rightarrow> spinlock \<Rightarrow> spinlock outcome" where
  "generic_write_lock loc l =
     (if lck l \<noteq> 0 then Barf ''write lock already held''
      else Ok (l\<lparr>lck := -1, location := Some loc\<rparr>))"

text \<open>The unlocks only complain on standard error; the first component says whether they did.\<close>

definition generic_write_unlock :: "string \<Rightarrow> spinlock \<Rightarrow> bool \<times> spinlock" where
  "generic_write_unlock loc l = (lck l \<noteq> -1, l\<lparr>lck := 0, location := None\<rparr>)"

definition generic_read_lock :: "string \<Rightarrow> spinlock \<Rightarrow> spinlock outcome" where
  "generic_read_lock loc l =
     (if lck l = -1 then Barf ''read lock already held''
      else Ok (l\<lparr>lck := lck l + 1, location := Some loc\<rparr>))"

definition generic_read_unlock :: "string \<Rightarrow> spinlock \<Rightarrow> bool \<times> spinlock" where
  "generic_read_unlock loc l =
     (let complain = lck l \<le> 0;
          l = l\<lparr>lck := lck l - 1\<rparr>
      in (complain, if lck l = 0 then l\<lparr>location := None\<rparr> else l))"

definition down :: "string \<Rightarrow> spinlock \<Rightarrow> spinlock outcome" where
  "down loc sem = generic_write_lock loc sem"

definition EINTR :: int where "EINTR = 4"

definition down_interruptible :: "bool \<Rightarrow> string \<Rightarrow> spinlock \<Rightarrow> (int \<times> spinlock) outcome" where
  "down_interruptible should_fail loc sem =
     (if should_fail then Ok (- EINTR, sem) else bind_outcome (down loc sem) (\<lambda>sem. Ok (0, sem)))"

definition up :: "string \<Rightarrow> spinlock \<Rightarrow> bool \<times> spinlock" where
  "up loc sem = generic_write_unlock loc sem"

definition down_trylock :: "string \<Rightarrow> spinlock \<Rightarrow> (int \<times> spinlock) outcome" where
  "down_trylock loc sem =
     (if lck sem \<noteq> 0 then Ok (0, sem) else bind_outcome (down loc sem) (\<lambda>sem. Ok (1, sem)))"

definition sema_init :: "int \<Rightarrow> spinlock \<Rightarrow> spinlock outcome" where
  "sema_init val sem =
     (let sem = spin_lock_init sem in
      if val = 0 then down ''sema_init'' sem
      else if val \<noteq> 1 then Barf ''Non-binary semaphores not supported''
      else Ok sem)"

text \<open>
  Callers that release only what they hold: the number of writers and of readers inside their critical
  sections and the lock, from the unlocked state on.
\<close>

inductive locking :: "nat \<Rightarrow> nat \<Rightarrow> spinlock \<Rightarrow> bool" where
  unlocked: "locking 0 0 (spin_lock_init l)"
| wlock: "locking w r l \<Longrightarrow> generic_write_lock loc l = Ok l' \<Longrightarrow> locking (Suc w) r l'"
| wunlock: "locking (Suc w) r l \<Longrightarrow> generic_write_unlock loc l = (c, l') \<Longrightarrow> locking w r l'"
| rlock: "locking w r l \<Longrightarrow> generic_read_lock loc l = Ok l' \<Longrightarrow> locking w (Suc r) l'"
| runlock: "locking w (Suc r) l \<Longrightarrow> generic_read_unlock loc l = (c, l') \<Longrightarrow> locking w r l'"

lemma locking_state:
  "locking w r l \<Longrightarrow>
   lck l = (if w = 1 then -1 else int r) \<and> w \<le> 1 \<and> (w = 1 \<longrightarrow> r = 0) \<and> (location l = None \<longleftrightarrow> lck l = 0)"
proof (induction rule: locking.induct)
  case (unlocked l)
  then show ?case by (simp add: spin_lock_init_def)
next
  case (wlock w r l loc l')
  then show ?case by (auto simp: generic_write_lock_def split: if_splits)
next
  case (wunlock w r l loc c l')
  then show ?case by (auto simp: generic_write_unlock_def split: if_splits)
next
  case (rlock w r l loc l')
  then show ?case by (auto simp: generic_read_lock_def split: if_splits)
next
  case (runlock w r l loc c l')
  then show ?case by (auto simp: generic_read_unlock_def Let_def split: if_splits)
qed

text \<open>C30. Callers that release only locks they hold get mutual exclusion: there is never more than one writer,
  never a writer with a reader, a location is recorded exactly while the lock is held, and the unlock
  functions never complain about them.\<close>

theorem locking_excludes:
  assumes "locking w r l"
  shows "w \<le> 1 \<and> (w = 0 \<or> r = 0) \<and> (location l = None \<longleftrightarrow> w = 0 \<and> r = 0) \<and>
         (w = 1 \<longrightarrow> \<not> fst (generic_write_unlock loc l)) \<and>
         (0 < r \<longrightarrow> \<not> fst (generic_read_unlock loc l)) \<and>
         (w + r > 0 \<longrightarrow> generic_write_lock loc l = Barf ''write lock already held'')"
  using locking_state [OF assms]
  by (auto simp: generic_write_unlock_def generic_read_unlock_def generic_write_lock_def Let_def)

theorem locking_excludes_witness:
  "location \<lparr>lck = 2, location = Some ''b''\<rparr> \<noteq> None \<and>
   \<not> fst (generic_read_unlock ''c'' \<lparr>lck = 2, location = Some ''b''\<rparr>)"
proof -
  have "locking 0 0 \<lparr>lck = 0, location = None\<rparr>"
    using locking.unlocked [of "\<lparr>lck = 0, location = None\<rparr>"] by (simp add: spin_lock_init_def)
  from locking.rlock [OF this, of "''a''"] have "locking 0 1 \<lparr>lck = 1, location = Some ''a''\<rparr>"
    by (simp add: generic_read_lock_def)
  from locking.rlock [OF this, of "''b''"] have "locking 0 2 \<lparr>lck = 2, location = Some ''b''\<rparr>"
    by (simp add: generic_read_lock_def numeral_2_eq_2)
  from locking_excludes [OF this, of "''c''"] show ?thesis by simp
qed

section \<open>Bit operations\<close>

text \<open>
  The words are \<^verbatim>\<open>unsigned long\<close>, but the index and the mask are computed for words of 32 bits:
  \<^verbatim>\<open>1 << 31\<close> is a negative \<^verbatim>\<open>int\<close>, sign-extended when it meets the \<^verbatim>\<open>unsigned long\<close>.
  Access beyond the array is \<open>None\<close>.
\<close>

definition bit_mask :: "nat \<Rightarrow> u64" where
  "bit_mask nr = scast (push_bit (nr mod 32) 1 :: u32)"

definition test_bit :: "nat \<Rightarrow> u64 list \<Rightarrow> bool option" where
  "test_bit nr bm =
     (if nr div 32 < length bm then Some (bit_mask nr AND bm ! (nr div 32) \<noteq> 0) else None)"

definition set_bit :: "nat \<Rightarrow> u64 list \<Rightarrow> (bool \<times> u64 list) option" where
  "set_bit nr bm =
     (if nr div 32 < length bm then
        let w = bm ! (nr div 32)
        in Some (bit_mask nr AND w \<noteq> 0, bm[nr div 32 := w OR bit_mask nr])
      else None)"

definition clear_bit :: "nat \<Rightarrow> u64 list \<Rightarrow> (bool \<times> u64 list) option" where
  "clear_bit nr bm =
     (if nr div 32 < length bm then
        let w = bm ! (nr div 32)
        in Some (bit_mask nr AND w \<noteq> 0, bm[nr div 32 := w AND NOT (bit_mask nr)])
      else None)"

definition test_and_set_bit :: "nat \<Rightarrow> u64 list \<Rightarrow> (bool \<times> u64 list) option" where
  "test_and_set_bit nr bm =
     (case (test_bit nr bm, set_bit nr bm) of
        (Some ret, Some (_, bm)) \<Rightarrow> Some (ret, bm)
      | _ \<Rightarrow> None)"

definition test_and_clear_bit :: "nat \<Rightarrow> u64 list \<Rightarrow> (bool \<times> u64 list) option" where
  "test_and_clear_bit nr bm =
     (case (test_bit nr bm, clear_bit nr bm) of
        (Some ret, Some (_, bm)) \<Rightarrow> Some (ret, bm)
      | _ \<Rightarrow> None)"

lemma bit_bit_mask: "bit (bit_mask nr) n \<longleftrightarrow> n < 64 \<and> min n 31 = nr mod 32"
proof -
  have "nr mod 32 < 32" by simp
  then show ?thesis
    by (auto simp: bit_mask_def bit_simps min_def bit_1_iff)
qed

lemma bit_mask_overlap: "bit_mask a AND bit_mask b = 0 \<longleftrightarrow> a mod 32 \<noteq> b mod 32"
proof
  assume "bit_mask a AND bit_mask b = 0"
  then have "\<not> bit (bit_mask a AND bit_mask b) (a mod 32)" by simp
  moreover have "a mod 32 < 32" by simp
  then have "a mod 32 < 64" "min (a mod 32) 31 = a mod 32" by linarith+
  ultimately show "a mod 32 \<noteq> b mod 32" by (auto simp: bit_and_iff bit_bit_mask)
qed (rule bit_word_eqI, auto simp: bit_and_iff bit_bit_mask)

text \<open>The set of bits an array stands for.\<close>

definition bits_of :: "u64 list \<Rightarrow> nat set" where
  "bits_of bm = {nr. test_bit nr bm = Some True}"

lemma bit_mask_or: "bit_mask a AND (w OR bit_mask b) = 0 \<longleftrightarrow> bit_mask a AND w = 0 \<and> a mod 32 \<noteq> b mod 32"
proof -
  have "bit_mask a AND (w OR bit_mask b) = 0 \<longleftrightarrow> bit_mask a AND w = 0 \<and> bit_mask a AND bit_mask b = 0"
    by (simp add: bit_eq_iff bit_and_iff bit_or_iff) blast
  then show ?thesis by (simp add: bit_mask_overlap)
qed

lemma bit_mask_clear: "bit_mask a AND (w AND NOT (bit_mask b)) = 0 \<longleftrightarrow> bit_mask a AND w = 0 \<or> a mod 32 = b mod 32"
proof (cases "a mod 32 = b mod 32")
  case True
  then have "bit_mask a = bit_mask b" by (simp add: bit_mask_def)
  then show ?thesis using True
    by (simp add: and.left_commute [of _ w])
next
  case False
  then have "bit_mask a AND (w AND NOT (bit_mask b)) = bit_mask a AND w"
    by (intro bit_word_eqI) (auto simp: bit_and_iff bit_not_iff bit_bit_mask)
  then show ?thesis using False by simp
qed

lemma same_bit: "a div 32 = b div 32 \<Longrightarrow> a mod 32 = b mod 32 \<longleftrightarrow> a = (b :: nat)"
  by (metis div_mult_mod_eq)

text \<open>The bit operations implement a set of bit numbers: \<open>set_bit\<close> adds its bit, \<open>clear_bit\<close> removes it, no other
  bit changes, although bit 31 of every word is kept in 33 bits of it, and the returned value is
  the old state of the bit, which is also what \<open>test_and_set_bit\<close> and \<open>test_and_clear_bit\<close> return.\<close>

theorem bitops_refine_set:
  assumes "nr div 32 < length bm"
  shows "\<exists>s c. set_bit nr bm = Some (nr \<in> bits_of bm, s) \<and> bits_of s = insert nr (bits_of bm) \<and>
               clear_bit nr bm = Some (nr \<in> bits_of bm, c) \<and> bits_of c = bits_of bm - {nr} \<and>
               test_and_set_bit nr bm = Some (nr \<in> bits_of bm, s) \<and>
               test_and_clear_bit nr bm = Some (nr \<in> bits_of bm, c)"
proof -
  let ?i = "nr div 32" and ?w = "bm ! (nr div 32)"
  let ?s = "bm[?i := ?w OR bit_mask nr]" and ?c = "bm[?i := ?w AND NOT (bit_mask nr)]"
  have m: "nr \<in> bits_of bm \<longleftrightarrow> bit_mask nr AND ?w \<noteq> 0"
    using assms by (simp add: bits_of_def test_bit_def)
  have "k \<in> bits_of ?s \<longleftrightarrow> k \<in> insert nr (bits_of bm)" for k
    using assms by (cases "k div 32 = ?i")
      (auto simp: bits_of_def test_bit_def bit_mask_or same_bit nth_list_update)
  moreover have "k \<in> bits_of ?c \<longleftrightarrow> k \<in> bits_of bm - {nr}" for k
    using assms by (cases "k div 32 = ?i")
      (auto simp: bits_of_def test_bit_def bit_mask_clear same_bit nth_list_update)
  ultimately show ?thesis
    using assms m by (intro exI [of _ ?s] exI [of _ ?c])
      (auto simp: set_bit_def clear_bit_def test_and_set_bit_def test_and_clear_bit_def test_bit_def)
qed

theorem bitops_refine_set_witness:
  "\<exists>s c. set_bit 31 [0, 0] = Some (31 \<in> bits_of [0, 0], s) \<and> bits_of s = insert 31 (bits_of [0, 0]) \<and>
         clear_bit 31 [0, 0] = Some (31 \<in> bits_of [0, 0], c) \<and> bits_of c = bits_of [0, 0] - {31} \<and>
         test_and_set_bit 31 [0, 0] = Some (31 \<in> bits_of [0, 0], s) \<and>
         test_and_clear_bit 31 [0, 0] = Some (31 \<in> bits_of [0, 0], c)"
  using bitops_refine_set [of 31 "[0, 0]"] by simp

section \<open>64-bit by 32-bit division\<close>

function div64_scale :: "u64 \<Rightarrow> u64 \<Rightarrow> u64 \<Rightarrow> u64 \<times> u64" where
  "div64_scale rm b d = (if 0 < sint b \<and> b < rm then div64_scale rm (b + b) (d + d) else (b, d))"
  by pat_completeness auto

lemma sint_positive: "0 < sint (w :: u64) \<longleftrightarrow> 0 < unat w \<and> unat w < 9223372036854775808"
proof -
  have "0 < sint w \<longleftrightarrow> \<not> sint w < 0 \<and> sint w \<noteq> 0" by linarith
  also have "sint w \<noteq> 0 \<longleftrightarrow> unat w \<noteq> 0" by (simp add: unat_eq_0 word_eq_iff_signed [where ?'a = int])
  finally show ?thesis by (auto simp: sint_negative)
qed

lemma unat_double: "unat w < 9223372036854775808 \<Longrightarrow> unat (w + w :: u64) = unat w + unat w"
  by (intro unat_add_u64) simp

lemmas unat_twice = unat_double [unfolded mult_2 [symmetric]]

termination div64_scale
  by (relation "measure (\<lambda>(rm, b, d). unat rm - unat b)")
    (auto simp: sint_positive unat_twice word_less_nat_alt)

declare div64_scale.simps [simp del]

text \<open>The \<^verbatim>\<open>do ... while (d)\<close> loop.\<close>

function div64_loop :: "u64 \<Rightarrow> u64 \<Rightarrow> u64 \<Rightarrow> u64 \<Rightarrow> u64 \<times> u64" where
  "div64_loop rm res b d =
     (let (rm, res) = (if rm \<ge> b then (rm - b, res + d) else (rm, res));
          b = drop_bit 1 b;
          d = drop_bit 1 d
      in if d \<noteq> 0 then div64_loop rm res b d else (rm, res))"
  by pat_completeness auto

lemma unat_half: "unat (drop_bit 1 w :: u64) = unat w div 2"
  by (simp add: drop_bit_eq_div unat_div)

lemmas unat_half_Suc = unat_half [simplified]

termination div64_loop
proof (relation "measure (\<lambda>(rm, res, b, d). unat d)", simp)
  fix rm res b d :: u64 and x rm' res' b' d'
  assume "b' = drop_bit 1 b" "d' = drop_bit 1 d" "d' \<noteq> 0"
  then have "unat d' = unat d div 2" "unat d' \<noteq> 0" by (simp only: unat_half, metis unat_eq_0)
  then show "((rm', res', b', d'), rm, res, b, d) \<in> measure (\<lambda>(rm, res, b, d). unat d)" by simp
qed

declare div64_loop.simps [simp del]

definition div64_32 :: "u64 \<Rightarrow> u32 \<Rightarrow> u64 \<times> u32" where
  "div64_32 n base =
     (let rm = n;
          b = ucast base;
          high = ucast (drop_bit 32 rm) :: u32;
          (res, rm) =
            (if high \<ge> base then
               let high = high div base
               in (push_bit 32 (ucast high), rm - push_bit 32 (ucast (high * base)))
             else (0, rm));
          (b, d) = div64_scale rm b 1;
          (rm, res) = div64_loop rm res b d
      in (res, ucast rm))"

lemma div64_scale_spec:
  fixes base :: u64
  assumes "unat b = unat base * unat d" "0 < unat b" "\<exists>k. unat d = 2 ^ k"
  shows "\<exists>b' d' k. div64_scale rm b d = (b', d') \<and> unat b' = unat base * unat d' \<and> unat d' = 2 ^ k \<and>
                   unat rm < 2 * unat b'"
  using assms
proof (induction rm b d rule: div64_scale.induct)
  case (1 rm b d)
  show ?case
  proof (cases "0 < sint b \<and> b < rm")
    case True
    then have b: "unat b < 9223372036854775808" by (simp add: sint_positive)
    have "unat d \<le> unat b" using 1(2,3) by (cases "unat base") auto
    then have d: "unat d < 9223372036854775808" using b by simp
    obtain k where "unat d = 2 ^ k" using 1(4) by blast
    then have "\<exists>k. unat (d + d) = 2 ^ k"
      using unat_double [OF d] by (intro exI [of _ "Suc k"]) simp
    then show ?thesis
      using 1(1) [OF True] 1(2,3) True unat_double [OF b] unat_double [OF d]
      by (simp add: div64_scale.simps [of rm b d] algebra_simps)
  next
    case False
    have "unat rm < 2 * unat b"
    proof (cases "0 < sint b")
      case True
      then show ?thesis using False 1(3) by (simp add: word_less_nat_alt)
    next
      case f: False
      then show ?thesis using 1(3) unat_u64_less [of rm] by (simp add: sint_positive)
    qed
    then show ?thesis using False 1 by (auto simp: div64_scale.simps [of rm b d])
  qed
qed

lemma div64_step:
  fixes base :: nat and b d rm res :: u64
  assumes "unat b = base * 2 ^ k" "unat d = 2 ^ k" "unat rm < 2 * unat b" "0 < base"
    and "unat res * base + unat rm < 18446744073709551616"
  defines "s \<equiv> if b \<le> rm then (rm - b, res + d) else (rm, res)"
  shows "unat (fst s) < unat b \<and> unat (snd s) * base + unat (fst s) = unat res * base + unat rm"
proof (cases "b \<le> rm")
  case True
  then have le: "unat b \<le> unat rm" by (simp add: word_le_nat_alt)
  have "unat res * base + unat b < 18446744073709551616" using assms(5) le by simp
  moreover have "unat res \<le> unat res * base" "unat d \<le> unat b" using assms(1,2,4) by auto
  ultimately have "unat res + unat d < 18446744073709551616" by linarith
  then have "unat (res + d) = unat res + unat d" by (rule unat_add_u64)
  then show ?thesis
    using True le assms(1,2,3) by (simp add: s_def unat_sub algebra_simps)
qed (simp add: s_def word_le_nat_alt)

lemma div64_loop_spec:
  fixes base :: nat and b d rm res :: u64
  assumes "unat b = base * 2 ^ k" "unat d = 2 ^ k" "unat rm < 2 * unat b" "0 < base"
    and "unat res * base + unat rm < 18446744073709551616"
  shows "\<exists>rm' res'. div64_loop rm res b d = (rm', res') \<and> unat rm' < base \<and>
           unat res' * base + unat rm' = unat res * base + unat rm"
  using assms
proof (induction k arbitrary: b d rm res)
  case 0
  obtain rm' res' where s: "(if b \<le> rm then (rm - b, res + d) else (rm, res)) = (rm', res')" by fastforce
  have "unat (drop_bit 1 d) = 0" using "0.prems"(2) unfolding unat_half by simp
  then have "drop_bit 1 d = 0" by (simp only: unat_eq_0)
  then have "div64_loop rm res b d = (rm', res')" using s by (simp add: div64_loop.simps [of rm res b d])
  then show ?case using div64_step [OF "0.prems"] s "0.prems"(1) by simp
next
  case (Suc k)
  obtain rm' res' where s: "(if b \<le> rm then (rm - b, res + d) else (rm, res)) = (rm', res')" by fastforce
  let ?b = "drop_bit 1 b" and ?d = "drop_bit 1 d"
  have h: "unat ?b = base * 2 ^ k" "unat ?d = 2 ^ k"
    using Suc.prems(1,2) unfolding unat_half by simp_all
  then have "?d \<noteq> 0" by (metis power_not_zero unat_eq_0 zero_neq_numeral)
  then have "div64_loop rm res b d = div64_loop rm' res' ?b ?d"
    using s by (simp add: div64_loop.simps [of rm res b d])
  moreover have "unat rm' < 2 * unat ?b" "unat res' * base + unat rm' = unat res * base + unat rm"
    using div64_step [OF Suc.prems] s Suc.prems(1) h by simp_all
  ultimately show ?case using Suc.IH [OF h _ Suc.prems(4), of rm' res'] Suc.prems(5) by simp
qed

lemma div64_reduce:
  fixes n :: u64 and base :: u32
  assumes "base \<noteq> 0"
  defines "high \<equiv> ucast (drop_bit 32 n) :: u32"
  defines "s \<equiv> if base \<le> high then (push_bit 32 (ucast (high div base)) :: u64, n - push_bit 32 (ucast (high div base * base)))
              else (0, n)"
  shows "unat (fst s) * unat base + unat (snd s) = unat n"
proof (cases "base \<le> high")
  case True
  have h: "unat high = unat n div 4294967296"
  proof -
    have "unat n div 4294967296 < 4294967296" using unat_u64_less [of n] by (intro less_mult_imp_div_less) simp
    then show ?thesis by (simp add: high_def unsigned_ucast_eq take_bit_eq_mod drop_bit_eq_div unat_div)
  qed
  let ?q = "unat high div unat base"
  have qb: "?q * unat base \<le> unat high" by simp
  have q: "?q \<le> unat high" by simp
  have u: "unat (high div base) = ?q" "unat (high div base * base) = ?q * unat base"
    using le_less_trans [OF qb unat_u32_less]
    by (simp_all add: unat_div unat_word_ariths)
  have p: "unat (push_bit 32 (ucast (v :: u32)) :: u64) = 4294967296 * unat v" for v
  proof -
    have "4294967296 * unat v < 18446744073709551616" using unat_u32_less [of v] by simp
    then show ?thesis by (simp add: push_bit_eq_mult unat_word_ariths unsigned_ucast_eq take_bit_eq_mod)
  qed
  have le: "4294967296 * (?q * unat base) \<le> unat n"
    using qb h by (metis (no_types) div_times_less_eq_dividend mult.commute mult_le_mono2 order_trans)
  then have "unat (n - push_bit 32 (ucast (high div base * base))) = unat n - 4294967296 * (?q * unat base)"
    by (simp add: unat_sub word_le_nat_alt p u)
  moreover have "unat (push_bit 32 (ucast (high div base)) :: u64) * unat base = 4294967296 * (?q * unat base)"
    by (simp only: p u mult.assoc)
  ultimately show ?thesis using True le by (simp only: s_def if_True fst_conv snd_conv le_add_diff_inverse)
qed (simp add: s_def)

text \<open>C31. For every dividend and every divisor other than 0, the shift-and-subtract division \<open>__div64_32\<close> ends and
  yields the quotient and the remainder.\<close>

theorem div64_32_divides:
  assumes "base \<noteq> 0"
  shows "unat (fst (div64_32 n base)) = unat n div unat base \<and>
         unat (snd (div64_32 n base)) = unat n mod unat base"
proof -
  let ?high = "ucast (drop_bit 32 n) :: u32" and ?b = "ucast base :: u64"
  obtain res rm :: u64 where s: "(if base \<le> ?high then (push_bit 32 (ucast (?high div base)), n - push_bit 32 (ucast (?high div base * base)))
              else (0, n)) = (res, rm)" by fastforce
  have inv: "unat res * unat base + unat rm = unat n"
    using div64_reduce [OF assms, of n] by (simp only: s fst_conv snd_conv)
  have b: "unat ?b = unat base" "0 < unat base"
    using unat_u32_less [of base] assms by (simp_all add: unsigned_ucast_eq take_bit_eq_mod unat_gt_0)
  obtain b d k where sc: "div64_scale rm ?b 1 = (b, d)" "unat b = unat ?b * unat d" "unat d = 2 ^ k"
    "unat rm < 2 * unat b"
    using div64_scale_spec [of ?b ?b 1 rm] b by (metis mult.right_neutral power_0 unat_1)
  obtain rm' res' where l: "div64_loop rm res b d = (rm', res')" "unat rm' < unat base"
    "unat res' * unat base + unat rm' = unat n"
    using div64_loop_spec [of b "unat base" k d rm res] sc b inv unat_u64_less [of n] by auto
  have "unat n div unat base = unat res'" "unat n mod unat base = unat rm'"
    using l(2,3) by (metis div_mult_self3 div_less add.right_neutral less_nat_zero_code mod_mult_self3 mod_less)+
  moreover have "unat (ucast rm' :: u32) = unat rm'"
    using l(2) unat_u32_less [of base] by (simp add: unsigned_ucast_eq take_bit_eq_mod)
  moreover have "div64_32 n base = (res', ucast rm')"
    unfolding div64_32_def Let_def s by (simp add: sc(1) l(1))
  ultimately show ?thesis by simp
qed

theorem div64_32_divides_witness:
  "unat (fst (div64_32 (2 ^ 40 + 5) 1000)) = (2 ^ 40 + 5) div 1000"
  using div64_32_divides [of 1000 "2 ^ 40 + 5"] by simp

section \<open>Notifier chains\<close>

text \<open>
  A chain is the list of its blocks from the head pointer along \<^verbatim>\<open>next\<close>; a block is identified by its
  address. The calls are an argument, with the state they work on.
\<close>

record notifier_block =
  nb_addr :: addr
  priority :: int

fun notifier_chain_register :: "notifier_block \<Rightarrow> notifier_block list \<Rightarrow> notifier_block list" where
  "notifier_chain_register n [] = [n]"
| "notifier_chain_register n (nb # l) =
     (if priority n > priority nb then n # nb # l else nb # notifier_chain_register n l)"

fun notifier_chain_unregister :: "addr \<Rightarrow> notifier_block list \<Rightarrow> int \<times> notifier_block list" where
  "notifier_chain_unregister n [] = (- ENOENT, [])"
| "notifier_chain_unregister n (nb # l) =
     (if nb_addr nb = n then (0, l)
      else let (ret, l) = notifier_chain_unregister n l in (ret, nb # l))"

definition NOTIFY_DONE :: u32 where "NOTIFY_DONE = 0x0000"
definition NOTIFY_STOP_MASK :: u32 where "NOTIFY_STOP_MASK = 0x8000"

fun notifier_call_loop :: "(notifier_block \<Rightarrow> 's \<Rightarrow> u32 \<times> 's) \<Rightarrow> notifier_block list \<Rightarrow> u32 \<Rightarrow> 's \<Rightarrow> u32 \<times> 's" where
  "notifier_call_loop call [] ret s = (ret, s)"
| "notifier_call_loop call (nb # l) ret s =
     (let (ret, s) = call nb s in
      if ret AND NOTIFY_STOP_MASK \<noteq> 0 then (ret, s) else notifier_call_loop call l ret s)"

definition notifier_call_chain :: "(notifier_block \<Rightarrow> 's \<Rightarrow> u32 \<times> 's) \<Rightarrow> notifier_block list \<Rightarrow> 's \<Rightarrow> u32 \<times> 's" where
  "notifier_call_chain call n s = notifier_call_loop call n NOTIFY_DONE s"

lemma notifier_insert_split: "notifier_chain_register n l =
  takeWhile (\<lambda>y. - priority y \<le> - priority n) l @ n # dropWhile (\<lambda>y. - priority y \<le> - priority n) l"
  by (induction l) auto

interpretation nc: stable_insert "\<lambda>n. - priority n" notifier_chain_register
  by unfold_locales (rule notifier_insert_split)

lemma register_all:
  assumes "sorted (map (\<lambda>n. - priority n) l)"
  shows "sorted (map (\<lambda>n. - priority n) (fold notifier_chain_register ns l)) \<and>
         mset (fold notifier_chain_register ns l) = mset l + mset ns \<and>
         filter (\<lambda>n. - priority n = p) (fold notifier_chain_register ns l) =
           filter (\<lambda>n. - priority n = p) l @ filter (\<lambda>n. - priority n = p) ns"
  using assms
proof (induction ns arbitrary: l)
  case (Cons n ns)
  from Cons.IH [OF nc.ins_sorted [OF Cons.prems]] show ?case
    using nc.ins_stable [OF Cons.prems, of p n] nc.ins_mset [of n l] by simp
qed simp

lemma notifier_call_loop_log:
  "notifier_call_loop (\<lambda>nb log. (r nb, log @ [nb])) l ret log =
   (let called = takeWhile (\<lambda>nb. r nb AND NOTIFY_STOP_MASK = 0) l @
                 take 1 (dropWhile (\<lambda>nb. r nb AND NOTIFY_STOP_MASK = 0) l)
    in (if called = [] then ret else r (last called), log @ called))"
  by (induction l arbitrary: ret log) (auto simp: Let_def)

text \<open>Whatever the order of registration, a notifier chain runs its blocks by descending priority and in
  order of registration within a priority, each registered block once, up to and including the first whose
  result has the stop bit, whose result is returned.\<close>

theorem notifier_chain_order:
  defines "chain \<equiv> \<lambda>ns. fold notifier_chain_register ns []"
  shows "sorted_wrt (\<lambda>a b. priority a \<ge> priority b) (chain ns) \<and> mset (chain ns) = mset ns \<and>
         filter (\<lambda>n. priority n = p) (chain ns) = filter (\<lambda>n. priority n = p) ns \<and>
         snd (notifier_call_chain (\<lambda>nb log. (r nb, log @ [nb])) (chain ns) []) =
           takeWhile (\<lambda>nb. r nb AND NOTIFY_STOP_MASK = 0) (chain ns) @
           take 1 (dropWhile (\<lambda>nb. r nb AND NOTIFY_STOP_MASK = 0) (chain ns))"
  using register_all [of "[]" ns "- p"]
  by (simp add: chain_def notifier_call_chain_def notifier_call_loop_log sorted_wrt_map Let_def)

lemma unregister_register:
  "n \<notin> nb_addr ` set l \<Longrightarrow> nb_addr nb = n \<Longrightarrow>
   notifier_chain_unregister n (notifier_chain_register nb l) = (0, l)"
  by (induction l) auto

lemma unregister_unknown: "n \<notin> nb_addr ` set l \<Longrightarrow> notifier_chain_unregister n l = (- ENOENT, l)"
  by (induction l) auto

section \<open>Object caches\<close>

text \<open>
  The objects of a cache, by address, newest first. The address that the allocator would return and whether
  the allocation is made to fail are arguments.
\<close>

record kmem_cache =
  cache_name :: string
  objsize :: nat
  objs :: "addr list"

definition kmem_cache_create :: "bool \<Rightarrow> string \<Rightarrow> nat \<Rightarrow> kmem_cache option" where
  "kmem_cache_create should_fail name sz =
     (if should_fail then None else Some \<lparr>cache_name = name, objsize = sz, objs = []\<rparr>)"

definition kmem_cache_alloc :: "bool \<Rightarrow> addr \<Rightarrow> kmem_cache \<Rightarrow> addr option \<times> kmem_cache" where
  "kmem_cache_alloc should_fail ptr cache =
     (if should_fail then (None, cache) else (Some ptr, cache\<lparr>objs := ptr # objs cache\<rparr>))"

definition kmem_cache_free :: "addr \<Rightarrow> kmem_cache \<Rightarrow> kmem_cache outcome" where
  "kmem_cache_free ptr cache =
     (if ptr \<in> set (objs cache) then Ok (cache\<lparr>objs := remove1 ptr (objs cache)\<rparr>)
      else Barf ''[cache] attempting to free non-cache memory'')"

lemma kmem_cache_free_alloc:
  "kmem_cache_alloc False ptr cache = (Some p, cache') \<Longrightarrow> kmem_cache_free p cache' = Ok cache"
  by (auto simp: kmem_cache_alloc_def kmem_cache_free_def)

lemma kmem_cache_double_free:
  assumes "distinct (objs cache)" "kmem_cache_free ptr cache = Ok cache'"
  shows "kmem_cache_free ptr cache' = Barf ''[cache] attempting to free non-cache memory''"
  using assms by (auto simp: kmem_cache_free_def split: if_splits)

section \<open>Page orders, error pointers, counters\<close>

definition PAGE_SHIFT :: nat where "PAGE_SHIFT = 12"

function get_order_loop :: "u64 \<Rightarrow> int \<Rightarrow> int" where
  "get_order_loop sz order =
     (let sz = drop_bit 1 sz; order = order + 1
      in if sz \<noteq> 0 then get_order_loop sz order else order)"
  by pat_completeness auto

termination get_order_loop
proof (relation "measure (\<lambda>(sz, order). unat sz)", simp)
  fix sz x :: u64 and order xa :: int
  assume x: "x = drop_bit 1 sz" "x \<noteq> 0"
  then have "unat x = unat sz div 2" "unat x \<noteq> 0" by (simp only: unat_half, metis unat_eq_0)
  then show "((x, xa), sz, order) \<in> measure (\<lambda>(sz, order). unat sz)" by simp
qed

declare get_order_loop.simps [simp del]

definition get_order :: "u64 \<Rightarrow> int" where
  "get_order sz = get_order_loop (drop_bit (PAGE_SHIFT - 1) (sz - 1)) (-1)"

definition IS_ERR :: "u64 \<Rightarrow> bool" where
  "IS_ERR ptr \<longleftrightarrow> ptr > word_of_int (-1000)"

definition atomic_inc :: "u32 \<Rightarrow> u32" where "atomic_inc v = v + 1"
definition atomic_dec :: "u32 \<Rightarrow> u32" where "atomic_dec v = v - 1"
definition atomic_dec_and_test :: "u32 \<Rightarrow> bool \<times> u32" where
  "atomic_dec_and_test v = (v - 1 = 0, v - 1)"

lemma get_order_loop_spec:
  "\<exists>k. get_order_loop sz order = order + 1 + int k \<and> unat sz < 2 ^ (k + 1) \<and> (0 < k \<longrightarrow> 2 ^ k \<le> unat sz)"
proof (induction sz order rule: get_order_loop.induct)
  case (1 sz order)
  show ?case
  proof (cases "drop_bit 1 sz = 0")
    case True
    then have "unat sz div 2 = 0" by (metis unat_half unat_0)
    then show ?thesis using True by (intro exI [of _ 0]) (simp add: get_order_loop.simps [of sz order])
  next
    case False
    then obtain k where k: "get_order_loop (drop_bit 1 sz) (order + 1) = order + 1 + 1 + int k"
      "unat sz div 2 < 2 ^ (k + 1)" "0 < k \<longrightarrow> 2 ^ k \<le> unat sz div 2"
      using 1 [OF refl refl] unfolding unat_half by blast
    have "unat sz div 2 \<noteq> 0" using False by (metis unat_half unat_eq_0)
    then have "2 ^ Suc k \<le> unat sz" using k(3) by (cases k) auto
    moreover have "unat sz < 2 ^ (Suc k + 1)" using k(2) by simp
    ultimately show ?thesis
      using k(1) False by (intro exI [of _ "Suc k"]) (simp add: get_order_loop.simps [of sz order])
  qed
qed

text \<open>For every size from 1 up, \<open>get_order\<close> is the smallest order whose block of \<open>2 ^ order\<close> pages holds the size.\<close>

theorem get_order_least:
  assumes "sz \<noteq> 0"
  shows "\<exists>k. get_order sz = int k \<and> unat sz \<le> 4096 * 2 ^ k \<and> (\<forall>j < k. 4096 * 2 ^ j < unat sz)"
proof -
  obtain k where k: "get_order sz = int k" "unat (drop_bit 11 (sz - 1)) < 2 ^ (k + 1)"
    "0 < k \<longrightarrow> 2 ^ k \<le> unat (drop_bit 11 (sz - 1))"
    using get_order_loop_spec [of "drop_bit 11 (sz - 1)" "-1"] by (auto simp: get_order_def PAGE_SHIFT_def)
  have u: "unat (drop_bit 11 (sz - 1)) = (unat sz - 1) div 2048" and pos: "0 < unat sz"
    using assms by (simp_all add: drop_bit_eq_div unat_div unat_minus_one unat_gt_0)
  have "unat sz - 1 < 2048 * 2 ^ (k + 1)"
    using k(2) unfolding u by (simp add: div_less_iff_less_mult mult.commute)
  then have "unat sz \<le> 4096 * 2 ^ k" by simp
  moreover have "4096 * 2 ^ j < unat sz" if "j < k" for j
  proof -
    have "2 ^ k \<le> (unat sz - 1) div 2048" using k(3) that unfolding u by simp
    then have "2048 * 2 ^ k \<le> unat sz - 1" by (simp add: less_eq_div_iff_mult_less_eq mult.commute)
    moreover have "(2 :: nat) ^ Suc j \<le> 2 ^ k" using that by (intro power_increasing) auto
    ultimately show ?thesis using pos by simp
  qed
  ultimately show ?thesis using k(1) by blast
qed

theorem get_order_least_witness:
  "\<exists>k. get_order 4097 = int k \<and> (4097::nat) \<le> 4096 * 2 ^ k \<and> (\<forall>j < k. 4096 * 2 ^ j < (4097::nat))"
  using get_order_least [of 4097] by simp

text \<open>The negative error numbers that \<^verbatim>\<open>ERR_PTR\<close> turns into pointers.\<close>

lemma IS_ERR_errno:
  assumes "0 < e" "e < 1000"
  shows "IS_ERR (word_of_int (- e))"
proof -
  have "(- e) mod 18446744073709551616 = 18446744073709551616 - e"
    using assms by (subst zmod_zminus1_eq_if) simp
  moreover have "(- 1000) mod 18446744073709551616 = (18446744073709550616 :: int)" by simp
  ultimately show ?thesis
    unfolding IS_ERR_def word_less_def uint_word_of_int using assms by simp
qed

section \<open>The highest set bit\<close>

definition fls_step :: "u32 \<Rightarrow> nat \<Rightarrow> u32 \<times> nat \<Rightarrow> u32 \<times> nat" where
  "fls_step m k = (\<lambda>(x, r). if x AND m = 0 then (push_bit k x, r - k) else (x, r))"

definition fls :: "u32 \<Rightarrow> nat" where
  "fls x =
     (if x = 0 then 0
      else snd (fls_step 0x80000000 1 (fls_step 0xc0000000 2 (fls_step 0xf0000000 4
             (fls_step 0xff000000 8 (fls_step 0xffff0000 16 (x, 32)))))))"

lemma and_high_zero:
  assumes "m = NOT (mask n)"
  shows "x AND m = 0 \<longleftrightarrow> unat (x :: u32) < 2 ^ n"
proof -
  have "x AND m = 0 \<longleftrightarrow> take_bit n x = x"
    by (auto simp: assms bit_eq_iff bit_and_iff bit_not_iff bit_mask_iff bit_take_bit_iff dest: bit_imp_le_length)
  also have "\<dots> \<longleftrightarrow> take_bit n (unat x) = unat x"
    by (metis unsigned_take_bit_eq word_eq_iff_unsigned)
  also have "\<dots> \<longleftrightarrow> unat x < 2 ^ n" by (rule take_bit_nat_eq_self_iff)
  finally show ?thesis .
qed

lemma unat_push_bit:
  assumes "unat x < 2 ^ n" "n + k = 32"
  shows "unat (push_bit k x :: u32) = unat x * 2 ^ k"
proof -
  have "unat x * 2 ^ k < 2 ^ n * 2 ^ k" using assms(1) by simp
  also have "\<dots> = 2 ^ 32" using assms(2) by (simp flip: power_add)
  finally have "unat x * 2 ^ k < 2 ^ 32" .
  moreover have "unat (push_bit k x) = take_bit 32 (push_bit k (unat x))"
    by (simp add: unsigned_push_bit_eq)
  ultimately show ?thesis by (simp add: push_bit_eq_mult take_bit_nat_eq_self)
qed

text \<open>The invariant of the five steps: \<open>x\<close> is the argument shifted left by \<open>32 - r\<close>, and its upper bits are known.\<close>

definition fls_inv :: "u32 \<Rightarrow> nat \<Rightarrow> u32 \<times> nat \<Rightarrow> bool" where
  "fls_inv x0 n s \<longleftrightarrow> unat (fst s) = unat x0 * 2 ^ (32 - snd s) \<and> snd s \<le> 32 \<and> n \<le> snd s \<and> 2 ^ (32 - n) \<le> unat (fst s)"

lemma fls_inv_step:
  assumes "fls_inv x0 (2 * k) s" "k \<le> 16" "m = NOT (mask (32 - k))"
  shows "fls_inv x0 k (fls_step m k s)"
proof (cases "fst s AND m = 0")
  case True
  then have lt: "unat (fst s) < 2 ^ (32 - k)" using and_high_zero [OF assms(3)] by simp
  have "unat (push_bit k (fst s)) = unat (fst s) * 2 ^ k"
    using lt assms(2) by (intro unat_push_bit) auto
  moreover have "(2 :: nat) ^ (32 - k) = 2 ^ (32 - 2 * k) * 2 ^ k"
    using assms(2) by (simp flip: power_add)
  moreover have "(2 :: nat) ^ (32 - (snd s - k)) = 2 ^ (32 - snd s) * 2 ^ k"
    using assms(1) by (simp add: fls_inv_def flip: power_add)
  ultimately show ?thesis
    using True assms(1) by (auto simp: fls_inv_def fls_step_def split: prod.splits)
next
  case False
  then have "2 ^ (32 - k) \<le> unat (fst s)" using and_high_zero [OF assms(3)] by (simp add: not_less)
  then show ?thesis
    using False assms(1) by (auto simp: fls_inv_def fls_step_def split: prod.splits)
qed

lemma high_masks:
  "0xffff0000 = (NOT (mask (32 - 16)) :: u32)" "0xff000000 = (NOT (mask (32 - 8)) :: u32)"
  "0xf0000000 = (NOT (mask (32 - 4)) :: u32)" "0xc0000000 = (NOT (mask (32 - 2)) :: u32)"
  "0x80000000 = (NOT (mask (32 - 1)) :: u32)"
  by (simp_all add: mask_eq_exp_minus_1)

lemma fls_bounds:
  assumes "x \<noteq> 0"
  shows "0 < fls x" "2 ^ (fls x - 1) \<le> unat x" "unat x < 2 ^ fls x"
proof -
  have "fls_inv x (2 * 16) (x, 32)"
    using assms by (simp add: fls_inv_def Suc_le_eq unat_gt_0)
  from fls_inv_step [OF this _ high_masks(1)] have "fls_inv x (2 * 8) (fls_step 0xffff0000 16 (x, 32))" by simp
  from fls_inv_step [OF this _ high_masks(2)] have "fls_inv x (2 * 4) (fls_step 0xff000000 8 (fls_step 0xffff0000 16 (x, 32)))" by simp
  from fls_inv_step [OF this _ high_masks(3)] have "fls_inv x (2 * 2) (fls_step 0xf0000000 4 (fls_step 0xff000000 8 (fls_step 0xffff0000 16 (x, 32))))" by simp
  from fls_inv_step [OF this _ high_masks(4)] have "fls_inv x (2 * 1) (fls_step 0xc0000000 2 (fls_step 0xf0000000 4 (fls_step 0xff000000 8 (fls_step 0xffff0000 16 (x, 32)))))" by simp
  from fls_inv_step [OF this _ high_masks(5)] obtain s where s: "fls_inv x 1 s" "snd s = fls x"
    using assms by (simp add: fls_def)
  define y where "y = fst s"
  have r: "1 \<le> fls x" "fls x \<le> 32" "unat x * 2 ^ (32 - fls x) = unat y" "2 ^ 31 \<le> unat y"
    using s by (auto simp: fls_inv_def y_def)
  show "0 < fls x" using r(1) by simp
  have p: "(2 :: nat) ^ 31 = 2 ^ (fls x - 1) * 2 ^ (32 - fls x)" "(2 :: nat) ^ 32 = 2 ^ fls x * 2 ^ (32 - fls x)"
    using r(1,2) by (simp_all flip: power_add)
  show "2 ^ (fls x - 1) \<le> unat x" using r(3,4) unfolding p(1) by (metis mult_le_cancel2 zero_less_numeral zero_less_power)
  have "unat y < 2 ^ 32" using unat_u32_less [of y] by simp
  then show "unat x < 2 ^ fls x" using r(3) unfolding p(2) by (metis mult_less_cancel2)
qed

end
