(* ===== verification/Skb.thy ===== *)
theory Skb
  imports Kernelenv Checksum
begin

text \<open>
  The socket buffers of kernelenv/kernelenv.c. The pointers \<^verbatim>\<open>head\<close>, \<^verbatim>\<open>data\<close>, \<^verbatim>\<open>tail\<close> and \<^verbatim>\<open>end\<close> are
  offsets from \<^verbatim>\<open>head\<close>: \<open>hbuf\<close> is the memory from \<^verbatim>\<open>head\<close> to \<^verbatim>\<open>end\<close>. A non-linear packet has in \<open>extra\<close> the
  master copy of all its bytes and the number of leading bytes that may be written. The lemmas relate every
  reshaping of a packet to its content, the byte string that \<open>skb_copy_bits\<close> reads.
\<close>

section \<open>Packets\<close>

record skb_meta =
  skb_dev :: string
  seq :: nat
  local_df :: u8
  csum :: nat
  ip_summed :: nat
  nfmark :: u64
  nfcache :: u32
  nfct :: "addr option"
  nfctinfo :: u32
  dst :: "addr option"
  dump_flags :: "string option"

record sk_buff =
  hbuf :: "u8 list"
  sdata :: nat
  stail :: nat
  slen :: nat
  extra :: "(u8 list \<times> nat) option"
  hraw :: int
  nhraw :: int
  macraw :: int
  users :: u32
  cloned :: bool
  meta :: skb_meta

text \<open>
  What the operations share: the reference counts of connection tracking entries and those destroyed when
  theirs reached 0, the packet counter, the option \<^verbatim>\<open>--linear-packets\<close>, and the value that bytes of
  uninitialised memory happen to have.
\<close>

record skb_world =
  ct_use :: "addr \<Rightarrow> u32"
  ct_destroyed :: "addr list"
  nfsim_seq :: nat
  linear_packets :: bool
  stale :: u8

definition no_meta :: skb_meta where
  "no_meta = \<lparr>skb_dev = [], seq = 0, local_df = 0, csum = 0, ip_summed = 0, nfmark = 0, nfcache = 0,
     nfct = None, nfctinfo = 0, dst = None, dump_flags = None\<rparr>"

text \<open>\<open>write_bytes i bs buf\<close> is \<^verbatim>\<open>memcpy(buf + i, bs, ..)\<close>.\<close>

definition write_bytes :: "nat \<Rightarrow> u8 list \<Rightarrow> u8 list \<Rightarrow> u8 list" where
  "write_bytes i bs buf = take i buf @ bs @ drop (i + length bs) buf"

definition nfsim_skb :: "nat \<Rightarrow> skb_world \<Rightarrow> sk_buff \<times> skb_world" where
  "nfsim_skb sz w =
     (let w = w\<lparr>nfsim_seq := Suc (nfsim_seq w)\<rparr> in
      (\<lparr>hbuf = replicate sz (stale w), sdata = 0, stail = 0, slen = 0, extra = None,
         hraw = 0, nhraw = 0, macraw = 0, users = 1, cloned = False,
         meta = no_meta\<lparr>seq := nfsim_seq w\<rparr>\<rparr>, w))"

definition skb_put :: "nat \<Rightarrow> sk_buff \<Rightarrow> sk_buff outcome" where
  "skb_put len skb =
     (let skb = skb\<lparr>stail := stail skb + len, slen := (slen skb + len) mod 2 ^ 32\<rparr> in
      if stail skb > length (hbuf skb) then Barf ''skb_put will overrun buffer'' else Ok skb)"

definition skb_push :: "nat \<Rightarrow> sk_buff \<Rightarrow> sk_buff outcome" where
  "skb_push len skb =
     (if sdata skb < len then Barf ''skb_push will underrun buffer''
      else Ok (skb\<lparr>sdata := sdata skb - len, slen := (slen skb + len) mod 2 ^ 32\<rparr>))"

text \<open>After adding an unsigned length \<^verbatim>\<open>data\<close> is never below \<^verbatim>\<open>head\<close>, so the check of \<open>skb_pull\<close> never fires.\<close>

definition skb_pull :: "nat \<Rightarrow> sk_buff \<Rightarrow> sk_buff outcome" where
  "skb_pull len skb =
     (let skb = skb\<lparr>sdata := sdata skb + len, slen := (slen skb + (2 ^ 32 - len mod 2 ^ 32)) mod 2 ^ 32\<rparr> in
      if sdata skb < 0 then Barf ''skb_pull will underrun buffer'' else Ok skb)"

definition skb_reserve :: "nat \<Rightarrow> sk_buff \<Rightarrow> sk_buff outcome" where
  "skb_reserve len skb =
     (let skb = skb\<lparr>sdata := sdata skb + len, stail := stail skb + len\<rparr> in
      if sdata skb > length (hbuf skb) \<or> stail skb > length (hbuf skb) then Barf ''skb_reserve: too much''
      else Ok skb)"

definition nfsim_nonlinear_skb :: "u8 list \<Rightarrow> u8 list \<Rightarrow> skb_world \<Rightarrow> (sk_buff \<times> skb_world) outcome" where
  "nfsim_nonlinear_skb data1 data2 w =
     (if linear_packets w then
        let (skb, w) = nfsim_skb (length data1 + length data2) w;
            skb = skb\<lparr>hbuf := write_bytes 0 data1 (hbuf skb)\<rparr>;
            skb = skb\<lparr>hbuf := write_bytes (length data1) data2 (hbuf skb)\<rparr>
        in bind_outcome (skb_put (length data1 + length data2) skb) (\<lambda>skb. Ok (skb, w))
      else
        let w = w\<lparr>nfsim_seq := Suc (nfsim_seq w)\<rparr> in
        Ok (\<lparr>hbuf = data1, sdata = 0, stail = length data1, slen = length data1 + length data2,
             extra = Some (data1 @ data2, 0), hraw = 0, nhraw = 0, macraw = 0, users = 1, cloned = False,
             meta = no_meta\<lparr>seq := nfsim_seq w\<rparr>\<rparr>, w))"

definition nfsim_check_packet :: "sk_buff \<Rightarrow> bool" where
  "nfsim_check_packet skb \<longleftrightarrow>
     (case extra skb of
        None \<Rightarrow> True
      | Some (data, writable_len) \<Rightarrow>
          drop writable_len (hbuf skb) = drop writable_len (take (length (hbuf skb)) data))"

definition checked :: "sk_buff \<Rightarrow> 'a outcome \<Rightarrow> 'a outcome" where
  "checked skb k = (if nfsim_check_packet skb then k else Barf ''skb modified without being made writable!'')"

text \<open>\<open>off\<close> is where the updated bytes \<open>p\<close> start in the linear data.\<close>

definition nfsim_update_skb :: "nat \<Rightarrow> nat \<Rightarrow> sk_buff \<Rightarrow> sk_buff outcome" where
  "nfsim_update_skb off sz skb =
     (case extra skb of
        None \<Rightarrow> Ok skb
      | Some (data, writable_len) \<Rightarrow>
          if off + sz > length data then Barf ''Bad nfsim_update_skb''
          else
            let data = (if off + sz > writable_len
                        then write_bytes off (take sz (drop off (hbuf skb))) data else data);
                skb = skb\<lparr>extra := Some (data, writable_len)\<rparr>
            in checked skb (Ok skb))"

definition alloc_skb :: "bool \<Rightarrow> nat \<Rightarrow> skb_world \<Rightarrow> sk_buff option \<times> skb_world" where
  "alloc_skb should_fail sz w =
     (if should_fail then (None, w) else let (skb, w) = nfsim_skb sz w in (Some skb, w))"

definition nf_conntrack_put :: "addr option \<Rightarrow> skb_world \<Rightarrow> skb_world" where
  "nf_conntrack_put ct w =
     (case ct of
        None \<Rightarrow> w
      | Some p \<Rightarrow>
          let (zero, v) = atomic_dec_and_test (ct_use w p);
              w = w\<lparr>ct_use := (ct_use w)(p := v)\<rparr>
          in if zero then w\<lparr>ct_destroyed := ct_destroyed w @ [p]\<rparr> else w)"

definition nf_conntrack_get :: "addr option \<Rightarrow> skb_world \<Rightarrow> skb_world" where
  "nf_conntrack_get ct w =
     (case ct of None \<Rightarrow> w | Some p \<Rightarrow> w\<lparr>ct_use := (ct_use w)(p := atomic_inc (ct_use w p))\<rparr>)"

definition nf_reset :: "sk_buff \<Rightarrow> skb_world \<Rightarrow> sk_buff \<times> skb_world" where
  "nf_reset skb w = (skb\<lparr>meta := (meta skb)\<lparr>nfct := None\<rparr>\<rparr>, nf_conntrack_put (nfct (meta skb)) w)"

definition kfree_skb :: "sk_buff \<Rightarrow> skb_world \<Rightarrow> skb_world" where
  "kfree_skb skb w = nf_conntrack_put (nfct (meta skb)) w"

definition skb_headroom :: "sk_buff \<Rightarrow> nat" where
  "skb_headroom skb = sdata skb"

definition nfsim_linear_length :: "sk_buff \<Rightarrow> int" where
  "nfsim_linear_length skb = int (length (hbuf skb)) - int (sdata skb)"

definition EFAULT :: int where "EFAULT = 14"

text \<open>
  \<open>skb_copy_bits\<close> returns the bytes it copies. Reading beyond the master copy is undefined in C; there
  the copy is short.
\<close>

definition skb_copy_bits :: "sk_buff \<Rightarrow> nat \<Rightarrow> nat \<Rightarrow> (int \<times> u8 list) outcome" where
  "skb_copy_bits skb offset len =
     checked skb
       (if int offset > int (slen skb) - int len then Ok (- EFAULT, [])
        else
          let n = (if int offset < nfsim_linear_length skb
                   then min len (nat (nfsim_linear_length skb - int offset)) else 0);
              to = take n (drop (sdata skb + offset) (hbuf skb));
              offset = offset + n;
              len = len - n
          in case extra skb of
               Some (data, _) \<Rightarrow> Ok (0, to @ take len (drop (skb_headroom skb + offset) data))
             | None \<Rightarrow> if len = 0 then Ok (0, to) else Barf ''Assertion `len == 0' failed'')"

definition copy_skb_header :: "sk_buff \<Rightarrow> sk_buff \<Rightarrow> skb_world \<Rightarrow> sk_buff \<times> skb_world" where
  "copy_skb_header new old w =
     (let m = meta old;
          dump = (case dump_flags m of None \<Rightarrow> dump_flags (meta new) | Some f \<Rightarrow> Some f)
      in (new\<lparr>slen := slen old, meta := m\<lparr>dump_flags := dump\<rparr>,
              hraw := hraw old - int (sdata old) + int (sdata new),
              nhraw := nhraw old - int (sdata old) + int (sdata new)\<rparr>,
          nf_conntrack_get (nfct m) w))"

definition skb_is_nonlinear :: "sk_buff \<Rightarrow> bool outcome" where
  "skb_is_nonlinear skb = checked skb (Ok (sdata skb + slen skb > length (hbuf skb)))"

definition skb_tailroom :: "sk_buff \<Rightarrow> nat outcome" where
  "skb_tailroom skb =
     bind_outcome (skb_is_nonlinear skb) (\<lambda>nl. Ok (if nl then 0 else length (hbuf skb) - stail skb))"

definition skb_copy_expand :: "bool \<Rightarrow> sk_buff \<Rightarrow> nat \<Rightarrow> nat \<Rightarrow> skb_world \<Rightarrow> (sk_buff option \<times> skb_world) outcome" where
  "skb_copy_expand should_fail skb newheadroom newtailroom w =
     checked skb
       (if should_fail then Ok (None, w)
        else
          let (n, w) = nfsim_skb (newheadroom + slen skb + newtailroom) w in
          bind_outcome (skb_reserve newheadroom n) (\<lambda>n.
          bind_outcome (skb_put (slen skb) n) (\<lambda>n.
          bind_outcome (skb_copy_bits skb 0 (slen skb)) (\<lambda>(ret, bytes).
            if ret \<noteq> 0 then Barf ''skb_copy_bits failed''
            else
              let n = n\<lparr>hbuf := write_bytes (sdata n) bytes (hbuf n)\<rparr>;
                  (n, w) = copy_skb_header n skb w
              in Ok (Some n, w)))))"

definition skb_realloc_headroom :: "bool \<Rightarrow> sk_buff \<Rightarrow> nat \<Rightarrow> skb_world \<Rightarrow> (sk_buff option \<times> skb_world) outcome" where
  "skb_realloc_headroom should_fail skb headroom w =
     (let delta = int headroom - int (skb_headroom skb)
      in skb_copy_expand should_fail skb (if delta > 0 then nat delta else 0) 0 w)"

definition skb_copy :: "bool \<Rightarrow> sk_buff \<Rightarrow> skb_world \<Rightarrow> (sk_buff option \<times> skb_world) outcome" where
  "skb_copy should_fail skb w =
     bind_outcome (skb_tailroom skb) (\<lambda>tr. skb_copy_expand should_fail skb (skb_headroom skb) tr w)"

definition pskb_may_pull :: "sk_buff \<Rightarrow> nat \<Rightarrow> bool" where
  "pskb_may_pull skb len \<longleftrightarrow> len \<le> skb_headroom skb"

definition skb_trim_to :: "nat \<Rightarrow> sk_buff \<Rightarrow> sk_buff" where
  "skb_trim_to len skb = skb\<lparr>slen := len, stail := sdata skb + len\<rparr>"

definition skb_trim :: "nat \<Rightarrow> sk_buff \<Rightarrow> sk_buff" where
  "skb_trim len skb = (if slen skb > len then skb_trim_to len skb else skb)"

text \<open>\<open>skb_checksum\<close> copies into a buffer on the stack, whose alignment is the argument \<open>addr\<close>.\<close>

definition skb_checksum :: "nat \<Rightarrow> sk_buff \<Rightarrow> nat \<Rightarrow> nat \<Rightarrow> u32 \<Rightarrow> u32 outcome" where
  "skb_checksum addr skb offset len sm =
     bind_outcome (skb_copy_bits skb offset len) (\<lambda>(ret, bytes).
       if ret \<noteq> 0 then Barf ''skb_checksum invalid length''
       else Ok (csum_partial addr bytes sm))"

definition CHECKSUM_UNNECESSARY :: nat where "CHECKSUM_UNNECESSARY = 2"
definition CHECKSUM_NONE :: nat where "CHECKSUM_NONE = 0"

definition skb_checksum_complete :: "nat \<Rightarrow> sk_buff \<Rightarrow> (u16 \<times> sk_buff) outcome" where
  "skb_checksum_complete addr skb =
     bind_outcome (skb_checksum addr skb 0 (slen skb) (word_of_nat (csum (meta skb)))) (\<lambda>s.
       let sm = ucast (csum_fold s) :: u16
       in Ok (sm, if sm = 0 then skb\<lparr>meta := (meta skb)\<lparr>ip_summed := CHECKSUM_UNNECESSARY\<rparr>\<rparr> else skb))"

definition skb_shared :: "sk_buff \<Rightarrow> bool" where "skb_shared skb \<longleftrightarrow> users skb \<noteq> 1"
definition skb_cloned :: "sk_buff \<Rightarrow> bool" where "skb_cloned skb \<longleftrightarrow> cloned skb"

definition skb_make_writable :: "bool \<Rightarrow> sk_buff \<Rightarrow> nat \<Rightarrow> skb_world \<Rightarrow> (int \<times> sk_buff \<times> skb_world) outcome" where
  "skb_make_writable should_fail skb writable_len w =
     checked skb
       (if writable_len > slen skb then Ok (0, skb, w)
        else if should_fail then Ok (0, skb, w)
        else
          bind_outcome (skb_copy_bits skb 0 (slen skb)) (\<lambda>(_, data).
            let writable_len =
                  (case extra skb of
                     Some (_, wl) \<Rightarrow> if writable_len < wl then min wl (slen skb) else writable_len
                   | None \<Rightarrow> writable_len)
            in bind_outcome (nfsim_nonlinear_skb (take writable_len data) (drop writable_len data) w) (\<lambda>(new, w).
              let (new, w) = copy_skb_header new skb w;
                  new = (case extra new of
                           Some (d, _) \<Rightarrow> new\<lparr>extra := Some (d, writable_len)\<rparr>
                         | None \<Rightarrow> new);
                  w = kfree_skb skb w
              in Ok (1, new, w))))"

definition skb_linearize :: "bool \<Rightarrow> sk_buff \<Rightarrow> (int \<times> sk_buff) outcome" where
  "skb_linearize should_fail skb =
     (let headroom = skb_headroom skb in
      checked skb
        (if should_fail then Ok (- ENOMEM, skb)
         else
           bind_outcome (skb_copy_bits skb 0 (slen skb)) (\<lambda>(_, bytes).
             Ok (0, skb\<lparr>hbuf := take headroom (hbuf skb) @ bytes, stail := headroom + slen skb,
                        extra := None\<rparr>))))"

text \<open>
  \<open>__skb_checksum_help\<close>: completes the checksum of an outgoing packet in place. A shared packet is replaced by a
  copy, which the caller of the real function never learns of.
\<close>

definition checksum_help_store :: "nat \<Rightarrow> sk_buff \<Rightarrow> (int \<times> sk_buff) outcome" where
  "checksum_help_store addr skb =
     (let offset = hraw skb - int (sdata skb) in
      if offset > int (slen skb) then Barf ''BUG''
      else bind_outcome (skb_checksum addr skb (nat offset) (nat (int (slen skb) - offset)) 0) (\<lambda>sm.
        let offset = int (stail skb) - hraw skb in
        if offset \<le> 0 then Barf ''BUG''
        else if int (csum (meta skb)) + 2 > offset then Barf ''BUG''
        else
          let v = ucast (csum_fold sm) :: u16;
              at = nat (hraw skb) + csum (meta skb)
          in Ok (0, skb\<lparr>hbuf := write_bytes at [byte0 v, byte1 v] (hbuf skb),
                        meta := (meta skb)\<lparr>ip_summed := CHECKSUM_NONE\<rparr>\<rparr>)))"

definition skb_checksum_help :: "bool \<Rightarrow> nat \<Rightarrow> sk_buff \<Rightarrow> bool \<Rightarrow> skb_world \<Rightarrow> (int \<times> sk_buff \<times> skb_world) outcome" where
  "skb_checksum_help should_fail addr skb inward w =
     (if inward then Ok (0, skb\<lparr>meta := (meta skb)\<lparr>ip_summed := CHECKSUM_NONE\<rparr>\<rparr>, w)
      else
        bind_outcome
          (if skb_shared skb \<or> skb_cloned skb then
             bind_outcome (skb_copy should_fail skb w) (\<lambda>(newskb, w).
               case newskb of None \<Rightarrow> Ok (None, w) | Some n \<Rightarrow> Ok (Some n, kfree_skb skb w))
           else Ok (Some skb, w))
          (\<lambda>(r, w).
             case r of
               None \<Rightarrow> Ok (- ENOMEM, skb, w)
             | Some skb \<Rightarrow> bind_outcome (checksum_help_store addr skb) (\<lambda>(ret, skb). Ok (ret, skb, w))))"

text \<open>\<open>skb_header_pointer\<close> yields no pointer, a pointer into the packet, or the filled buffer.\<close>

datatype header_pointer = Null_ptr | In_place nat | In_buffer "u8 list"

definition skb_header_pointer :: "bool \<Rightarrow> sk_buff \<Rightarrow> nat \<Rightarrow> nat \<Rightarrow> header_pointer outcome" where
  "skb_header_pointer fail_once skb offset len =
     checked skb
       (if offset + len > slen skb then Ok Null_ptr
        else if \<not> fail_once \<and> int (offset + len) \<le> nfsim_linear_length skb then Ok (In_place (sdata skb + offset))
        else
          bind_outcome (skb_copy_bits skb offset len) (\<lambda>(ret, bytes).
            if ret < 0 then Barf ''skb_header_pointer: logic error'' else Ok (In_buffer bytes)))"

section \<open>The content of a packet\<close>

definition full_bytes :: "sk_buff \<Rightarrow> u8 list" where
  "full_bytes skb =
     hbuf skb @ (case extra skb of None \<Rightarrow> [] | Some (d, _) \<Rightarrow> drop (length (hbuf skb)) d)"

definition content :: "sk_buff \<Rightarrow> u8 list" where
  "content skb = take (slen skb) (drop (sdata skb) (full_bytes skb))"

definition skb_ok :: "sk_buff \<Rightarrow> bool" where
  "skb_ok skb \<longleftrightarrow>
     sdata skb \<le> length (hbuf skb) \<and> sdata skb + slen skb \<le> length (full_bytes skb) \<and>
     slen skb < 2 ^ 32 \<and> nfsim_check_packet skb \<and>
     (case extra skb of None \<Rightarrow> stail skb = sdata skb + slen skb | Some (d, _) \<Rightarrow> length (hbuf skb) \<le> length d)"

lemma checked_ok [simp]: "nfsim_check_packet skb \<Longrightarrow> checked skb k = k"
  by (simp add: checked_def)

lemma skb_okD:
  assumes "skb_ok skb"
  shows "sdata skb \<le> length (hbuf skb)" "sdata skb + slen skb \<le> length (full_bytes skb)"
    "slen skb < 2 ^ 32" "nfsim_check_packet skb"
  using assms by (auto simp: skb_ok_def)

lemma length_content: "skb_ok skb \<Longrightarrow> length (content skb) = slen skb"
  by (auto simp: content_def skb_ok_def)

lemma take_drop_content:
  "offset + len \<le> slen skb \<Longrightarrow>
   take len (drop offset (content skb)) = take len (drop (sdata skb + offset) (full_bytes skb))"
  by (simp add: content_def drop_take take_take min_absorb1 add.commute)

text \<open>The two reads of \<open>skb_copy_bits\<close>, from the linear part and from the master copy, as one read.\<close>

lemma read_in_two:
  assumes "sd \<le> length hb" "length hb \<le> length d"
    and n_def: "n = (if int off < int (length hb) - int sd then min len (nat (int (length hb) - int sd - int off)) else 0)"
  shows "take n (drop (sd + off) hb) @ take (len - n) (drop (sd + (off + n)) d) =
         take len (drop (sd + off) (hb @ drop (length hb) d))"
proof (cases "sd + off < length hb")
  case True
  then have n: "n = min len (length hb - (sd + off))" unfolding n_def by auto
  show ?thesis
  proof (cases "len \<le> length hb - (sd + off)")
    case True
    then show ?thesis using n \<open>sd + off < length hb\<close> by simp
  next
    case False
    then have "n = length hb - (sd + off)" "sd + (off + n) = length hb" using n True by auto
    then show ?thesis using True False by simp
  qed
next
  case False
  then have "n = 0" unfolding n_def by simp
  then show ?thesis using False by simp
qed

lemma skb_copy_bits_content:
  assumes "skb_ok skb" "offset + len \<le> slen skb"
  shows "skb_copy_bits skb offset len = Ok (0, take len (drop offset (content skb)))"
proof (cases "extra skb")
  case None
  let ?n = "if int offset < int (length (hbuf skb)) - int (sdata skb)
    then min len (nat (int (length (hbuf skb)) - int (sdata skb) - int offset)) else 0"
  have "sdata skb + offset + len \<le> length (hbuf skb)"
    using assms None by (simp add: skb_ok_def full_bytes_def)
  then have n: "?n = len" by auto
  show ?thesis
    using assms None unfolding skb_copy_bits_def nfsim_linear_length_def Let_def n
    by (simp add: skb_okD take_drop_content full_bytes_def)
next
  case (Some e)
  obtain d wl where e: "e = (d, wl)" by (cases e)
  have "length (hbuf skb) \<le> length d" using assms Some e by (simp add: skb_ok_def)
  note r = read_in_two [OF skb_okD(1) [OF assms(1)] this refl, of offset len]
  have "full_bytes skb = hbuf skb @ drop (length (hbuf skb)) d" using Some e by (simp add: full_bytes_def)
  then have "take len (drop offset (content skb)) =
    take len (drop (sdata skb + offset) (hbuf skb @ drop (length (hbuf skb)) d))"
    using take_drop_content [OF assms(2)] by simp
  moreover have "\<not> int offset > int (slen skb) - int len" using assms(2) by simp
  ultimately show ?thesis
    using skb_okD(4) [OF assms(1)]
    unfolding skb_copy_bits_def nfsim_linear_length_def skb_headroom_def Let_def Some e
    by (simp only: checked_ok if_False option.case prod.case r)
qed

section \<open>Reshaping packets keeps their content\<close>

lemma conntrack_get_put:
  assumes "\<And>p. ct = Some p \<Longrightarrow> ct_use w p \<noteq> 0"
  shows "nf_conntrack_put ct (nf_conntrack_get ct w) = w"
proof (cases ct)
  case (Some p)
  then show ?thesis
    using assms [OF Some]
    by (simp add: nf_conntrack_put_def nf_conntrack_get_def atomic_dec_and_test_def atomic_inc_def)
qed (simp add: nf_conntrack_put_def nf_conntrack_get_def)

text \<open>The references to connection tracking entries that a packet holds are counted.\<close>

definition ct_held :: "sk_buff \<Rightarrow> skb_world \<Rightarrow> bool" where
  "ct_held skb w \<longleftrightarrow> (case nfct (meta skb) of None \<Rightarrow> True | Some p \<Rightarrow> ct_use w p \<noteq> 0)"

lemma length_write_bytes [simp]: "i + length bs \<le> length buf \<Longrightarrow> length (write_bytes i bs buf) = length buf"
  by (simp add: write_bytes_def)

lemma write_bytes_0: "length bs = length buf \<Longrightarrow> write_bytes 0 bs buf = bs"
  by (simp add: write_bytes_def)

text \<open>The two shapes a new packet has, depending on \<^verbatim>\<open>--linear-packets\<close>.\<close>

definition fresh_skb :: "bool \<Rightarrow> u8 list \<Rightarrow> u8 list \<Rightarrow> sk_buff \<Rightarrow> bool" where
  "fresh_skb lin d1 d2 new \<longleftrightarrow>
     hbuf new = (if lin then d1 @ d2 else d1) \<and> extra new = (if lin then None else Some (d1 @ d2, 0)) \<and>
     sdata new = 0 \<and> stail new = length (hbuf new) \<and> slen new = length d1 + length d2 \<and>
     dump_flags (meta new) = None"

lemma nfsim_nonlinear_skb_spec:
  assumes "length d1 + length d2 < 2 ^ 32"
  shows "\<exists>new. nfsim_nonlinear_skb d1 d2 w = Ok (new, w\<lparr>nfsim_seq := Suc (nfsim_seq w)\<rparr>) \<and>
           fresh_skb (linear_packets w) d1 d2 new"
proof (cases "linear_packets w")
  case True
  let ?b = "write_bytes (length d1) d2 (write_bytes 0 d1 (replicate (length d1 + length d2) (stale w)))"
  have b: "?b = d1 @ d2" by (simp add: write_bytes_def)
  then show ?thesis using True assms
    by (auto simp: nfsim_nonlinear_skb_def nfsim_skb_def skb_put_def Let_def fresh_skb_def no_meta_def)
next
  case False
  then show ?thesis using assms
    by (simp add: nfsim_nonlinear_skb_def Let_def fresh_skb_def no_meta_def)
qed

lemma fresh_skb_content:
  assumes "fresh_skb lin d1 d2 new" "length d1 + length d2 < 2 ^ 32"
  shows "content new = d1 @ d2" "skb_ok new"
  using assms by (auto simp: fresh_skb_def content_def full_bytes_def skb_ok_def nfsim_check_packet_def)

text \<open>The number of bytes that \<open>skb_make_writable\<close> makes writable.\<close>

definition grant :: "sk_buff \<Rightarrow> nat \<Rightarrow> nat" where
  "grant skb n = (case extra skb of Some (_, wl) \<Rightarrow> if n < wl then min wl (slen skb) else n | None \<Rightarrow> n)"

lemma grant_bounds: "n \<le> slen skb \<Longrightarrow> n \<le> grant skb n \<and> grant skb n \<le> slen skb"
  by (auto simp: grant_def split: option.splits)

text \<open>The packet that \<open>skb_make_writable\<close> leaves: new memory, the old headers, \<open>k\<close> writable bytes.\<close>

definition granted_skb :: "sk_buff \<Rightarrow> sk_buff \<Rightarrow> bool \<Rightarrow> nat \<Rightarrow> sk_buff" where
  "granted_skb skb new lin k = new\<lparr>slen := slen skb, meta := meta skb,
    hraw := hraw skb - int (sdata skb) + int (sdata new), nhraw := nhraw skb - int (sdata skb) + int (sdata new),
    extra := (if lin then None else Some (content skb, k))\<rparr>"

lemma granted_skb_written:
  assumes "fresh_skb lin (take k c) (drop k c) new" "c = content skb" "length c = slen skb" "slen skb < 2 ^ 32"
    and "k \<le> slen skb" "length bs \<le> k"
  defines "wr \<equiv> granted_skb skb new lin k\<lparr>hbuf := write_bytes 0 bs (hbuf new)\<rparr>"
  shows "skb_ok wr" "content wr = bs @ drop (length bs) c"
proof -
  have f: "full_bytes wr = bs @ drop (length bs) c"
  proof (cases lin)
    case True
    then show ?thesis using assms by (simp add: full_bytes_def granted_skb_def fresh_skb_def write_bytes_def)
  next
    case False
    have "drop (length bs) (take k c) @ drop k c = drop (length bs) c"
      using drop_append [of "length bs" "take k c" "drop k c"] assms(3,5,6) by simp
    then show ?thesis using False assms
      by (simp add: full_bytes_def granted_skb_def fresh_skb_def write_bytes_def)
  qed
  have w: "sdata wr = 0" "slen wr = slen skb" "lin \<Longrightarrow> stail wr = slen skb"
    using assms(1,3,5) by (auto simp: wr_def granted_skb_def fresh_skb_def)
  show "content wr = bs @ drop (length bs) c"
    using assms(3,5,6) by (simp add: content_def w f)
  show "skb_ok wr"
    using assms(1-6) w f
    by (cases lin) (simp_all add: skb_ok_def nfsim_check_packet_def wr_def granted_skb_def fresh_skb_def)
qed

lemma keep_dump_flags:
  "d = None \<Longrightarrow> m\<lparr>dump_flags := case dump_flags m of None \<Rightarrow> d | Some x \<Rightarrow> Some x\<rparr> = (m :: skb_meta)"
  by (cases "dump_flags m") simp_all

lemma make_writable_granted:
  assumes "nfsim_check_packet skb" "n \<le> slen skb" "skb_copy_bits skb 0 (slen skb) = Ok (0, c)" "c = content skb"
    and "nfsim_nonlinear_skb (take (grant skb n) c) (drop (grant skb n) c) w = Ok (new, w')"
    and "fresh_skb (linear_packets w) (take (grant skb n) c) (drop (grant skb n) c) new" "ct_held skb w'"
  shows "skb_make_writable False skb n w = Ok (1, granted_skb skb new (linear_packets w) (grant skb n), w')"
proof -
  have d: "dump_flags (meta new) = None" using assms(6) by (simp add: fresh_skb_def)
  have p: "nf_conntrack_put (nfct (meta skb)) (nf_conntrack_get (nfct (meta skb)) w') = w'"
    using assms(7) by (intro conntrack_get_put) (simp add: ct_held_def)
  have e: "extra new = (if linear_packets w then None else Some (c, 0))"
    using assms(6) by (simp add: fresh_skb_def)
  show ?thesis
    using assms(1-5) p e d
    unfolding skb_make_writable_def grant_def [symmetric] copy_skb_header_def Let_def kfree_skb_def
    by (cases new) (simp add: granted_skb_def keep_dump_flags)
qed

text \<open>C7. When \<open>skb_make_writable\<close> succeeds the packet has the same content, headers and references, its first
  \<open>n\<close> bytes, and all that were writable before, are linear, and writing any bytes there is seen by later
  reads and passes the check for unauthorised writes; no connection tracking entry gains or loses a
  reference.\<close>

theorem skb_make_writable_ok:
  assumes "skb_ok skb" "n \<le> slen skb" "ct_held skb w" "length bs \<le> n"
  shows "\<exists>new. skb_make_writable False skb n w = Ok (1, new, w\<lparr>nfsim_seq := Suc (nfsim_seq w)\<rparr>) \<and>
           skb_ok new \<and> content new = content skb \<and> meta new = meta skb \<and>
           nhraw new - int (sdata new) = nhraw skb - int (sdata skb) \<and> n \<le> length (hbuf new) \<and>
           (let wr = new\<lparr>hbuf := write_bytes 0 bs (hbuf new)\<rparr>
            in skb_ok wr \<and> content wr = bs @ drop (length bs) (content skb))"
proof -
  let ?k = "grant skb n" and ?c = "content skb"
  let ?w = "w\<lparr>nfsim_seq := Suc (nfsim_seq w)\<rparr>"
  have k: "n \<le> ?k" "?k \<le> slen skb" using grant_bounds [OF assms(2)] by auto
  have len: "length ?c = slen skb" "slen skb < 2 ^ 32"
    using length_content [OF assms(1)] skb_okD(3) [OF assms(1)] by auto
  have cp: "skb_copy_bits skb 0 (slen skb) = Ok (0, ?c)"
    using skb_copy_bits_content [OF assms(1), of 0 "slen skb"] len by simp
  obtain new where new: "nfsim_nonlinear_skb (take ?k ?c) (drop ?k ?c) w = Ok (new, ?w)"
    and f: "fresh_skb (linear_packets w) (take ?k ?c) (drop ?k ?c) new"
    using nfsim_nonlinear_skb_spec [of "take ?k ?c" "drop ?k ?c" w] len k(2) by auto
  let ?new = "granted_skb skb new (linear_packets w) ?k"
  have "ct_held skb ?w" using assms(3) by (simp add: ct_held_def split: option.splits)
  then have r: "skb_make_writable False skb n w = Ok (1, ?new, ?w)"
    using make_writable_granted [OF skb_okD(4) [OF assms(1)] assms(2) cp refl new f] by simp
  have h: "hbuf ?new = hbuf new" by (simp add: granted_skb_def)
  note ok = granted_skb_written [OF f refl len k(2)]
  have "skb_ok ?new" "content ?new = ?c"
    using ok [of "[]"] by (simp_all add: write_bytes_def granted_skb_def)
  moreover have "n \<le> length (hbuf new)" using f k len by (auto simp: fresh_skb_def)
  ultimately show ?thesis
    using r ok [of bs] assms(4) k unfolding h [symmetric] Let_def
    by (intro exI [of _ ?new]) (simp add: granted_skb_def)
qed

text \<open>A packet of four bytes of which none is linear, for the examples.\<close>

definition sample_world :: skb_world where
  "sample_world = \<lparr>ct_use = \<lambda>_. 1, ct_destroyed = [], nfsim_seq = 0, linear_packets = False, stale = 0xcc\<rparr>"

definition sample_skb :: sk_buff where
  "sample_skb = \<lparr>hbuf = [1], sdata = 0, stail = 1, slen = 4, extra = Some ([1, 2, 3, 4], 0), hraw = 0, nhraw = 0,
     macraw = 0, users = 1, cloned = False, meta = no_meta\<lparr>nfct := Some 7\<rparr>\<rparr>"

lemma sample_skb_ok: "skb_ok sample_skb" "content sample_skb = [1, 2, 3, 4]" "slen sample_skb = 4"
  "ct_held sample_skb sample_world"
  by (simp_all add: sample_skb_def sample_world_def skb_ok_def content_def full_bytes_def nfsim_check_packet_def
      ct_held_def)

theorem skb_make_writable_ok_witness:
  "\<exists>new. skb_make_writable False sample_skb 3 sample_world = Ok (1, new, sample_world\<lparr>nfsim_seq := 1\<rparr>) \<and>
     content new = [1, 2, 3, 4] \<and> content (new\<lparr>hbuf := write_bytes 0 [9, 9] (hbuf new)\<rparr>) = [9, 9, 3, 4]"
  using skb_make_writable_ok [of sample_skb 3 sample_world "[9, 9]"] sample_skb_ok
  by (auto simp: Let_def sample_world_def)

text \<open>Whether a header is found in place or copied into the caller's buffer, which the failure injector decides
  for linear data, \<open>skb_header_pointer\<close> gives the bytes of the packet at that offset, and it refuses
  exactly the ranges that do not lie within the packet.\<close>

theorem skb_header_pointer_bytes:
  assumes "skb_ok skb"
  shows "(if offset + len \<le> slen skb then
            (\<exists>bytes. bytes = take len (drop offset (content skb)) \<and>
               (skb_header_pointer fail_once skb offset len = Ok (In_buffer bytes) \<or>
                (\<exists>p. skb_header_pointer fail_once skb offset len = Ok (In_place p) \<and>
                     take len (drop p (hbuf skb)) = bytes \<and> p + len \<le> length (hbuf skb))))
          else skb_header_pointer fail_once skb offset len = Ok Null_ptr)"
proof (cases "offset + len \<le> slen skb")
  case True
  note c = skb_copy_bits_content [OF assms True]
  show ?thesis
  proof (cases "\<not> fail_once \<and> int (offset + len) \<le> nfsim_linear_length skb")
    case inpl: True
    then have le: "sdata skb + offset + len \<le> length (hbuf skb)" by (simp add: nfsim_linear_length_def)
    then have "take len (drop (sdata skb + offset) (hbuf skb)) = take len (drop offset (content skb))"
      unfolding take_drop_content [OF True] by (simp add: full_bytes_def)
    then show ?thesis
      using True inpl le skb_okD(4) [OF assms] by (simp add: skb_header_pointer_def)
  next
    case False
    then show ?thesis
      using True c skb_okD(4) [OF assms] by (auto simp: skb_header_pointer_def)
  qed
next
  case False
  then show ?thesis using skb_okD(4) [OF assms] by (simp add: skb_header_pointer_def)
qed

theorem skb_header_pointer_bytes_witness:
  "skb_header_pointer True sample_skb 1 2 = Ok (In_buffer [2, 3]) \<or>
   (\<exists>p. skb_header_pointer True sample_skb 1 2 = Ok (In_place p))"
  using skb_header_pointer_bytes [OF sample_skb_ok(1), of 1 2 True] sample_skb_ok by (auto split: if_splits)

text \<open>\<open>skb_linearize\<close> keeps the content and the headroom, drops the master copy and leaves a linear packet,
  which may be written anywhere.\<close>

theorem skb_linearize_ok:
  assumes "skb_ok skb"
  shows "\<exists>new. skb_linearize False skb = Ok (0, new) \<and> skb_ok new \<and> content new = content skb \<and>
           extra new = None \<and> skb_is_nonlinear new = Ok False \<and> skb_headroom new = skb_headroom skb \<and>
           take (skb_headroom new) (hbuf new) = take (skb_headroom skb) (hbuf skb)"
proof -
  have len: "length (content skb) = slen skb" using length_content [OF assms] .
  have "skb_copy_bits skb 0 (slen skb) = Ok (0, content skb)"
    using skb_copy_bits_content [OF assms, of 0 "slen skb"] len by simp
  then show ?thesis
    using skb_okD [OF assms] len
    by (auto simp: skb_linearize_def skb_ok_def content_def [of "_\<lparr>extra := None\<rparr>"] full_bytes_def
        nfsim_check_packet_def skb_headroom_def skb_is_nonlinear_def Let_def)
qed

theorem skb_linearize_ok_witness:
  "\<exists>new. skb_linearize False sample_skb = Ok (0, new) \<and> content new = [1, 2, 3, 4] \<and> extra new = None"
  using skb_linearize_ok [OF sample_skb_ok(1)] sample_skb_ok by auto

text \<open>\<open>skb_copy_expand\<close> yields a linear copy with the same content and headers, exactly the headroom and
  tailroom asked for, and one more reference to the connection tracking entry.\<close>

theorem skb_copy_expand_ok:
  assumes "skb_ok skb"
  shows "\<exists>new w'. skb_copy_expand False skb hr tr w = Ok (Some new, w') \<and> skb_ok new \<and> content new = content skb \<and>
           meta new = meta skb \<and> skb_headroom new = hr \<and> skb_tailroom new = Ok tr \<and> extra new = None \<and>
           (\<forall>p. nfct (meta skb) = Some p \<longrightarrow> ct_use w' p = ct_use w p + 1)"
proof -
  let ?c = "content skb" and ?l = "slen skb"
  have len: "length ?c = ?l" "?l < 2 ^ 32" using length_content [OF assms] skb_okD(3) [OF assms] by auto
  have cp: "skb_copy_bits skb 0 ?l = Ok (0, ?c)"
    using skb_copy_bits_content [OF assms, of 0 ?l] len by simp
  let ?w = "w\<lparr>nfsim_seq := Suc (nfsim_seq w)\<rparr>"
  let ?b = "write_bytes hr ?c (replicate (hr + ?l + tr) (stale w))"
  have b: "take ?l (drop hr ?b) = ?c" "length ?b = hr + ?l + tr"
    using len by (simp_all add: write_bytes_def)
  define new where "new = \<lparr>hbuf = ?b, sdata = hr, stail = hr + ?l, slen = ?l, extra = None,
    hraw = hraw skb - int (sdata skb) + int hr, nhraw = nhraw skb - int (sdata skb) + int hr, macraw = 0,
    users = 1, cloned = False, meta = meta skb\<rparr>"
  have "skb_copy_expand False skb hr tr w = Ok (Some new, nf_conntrack_get (nfct (meta skb)) ?w)"
    using skb_okD [OF assms] cp len
    by (simp add: skb_copy_expand_def nfsim_skb_def skb_reserve_def skb_put_def copy_skb_header_def new_def
        Let_def no_meta_def keep_dump_flags)
  moreover have "skb_ok new" "content new = ?c"
    using b len by (simp_all add: new_def skb_ok_def content_def [of "\<lparr>hbuf = _, sdata = _, stail = _, slen = _, extra = _,
      hraw = _, nhraw = _, macraw = _, users = _, cloned = _, meta = _\<rparr>"] full_bytes_def nfsim_check_packet_def)
  moreover have "skb_tailroom new = Ok tr" "skb_headroom new = hr" "extra new = None" "meta new = meta skb"
    using b(2) by (simp_all add: new_def skb_tailroom_def skb_is_nonlinear_def nfsim_check_packet_def skb_headroom_def)
  ultimately show ?thesis
    by (auto simp: nf_conntrack_get_def atomic_inc_def)
qed

theorem skb_copy_expand_ok_witness:
  "\<exists>new w'. skb_copy_expand False sample_skb 2 3 sample_world = Ok (Some new, w') \<and>
     content new = [1, 2, 3, 4] \<and> skb_headroom new = 2 \<and> skb_tailroom new = Ok 3 \<and> ct_use w' 7 = 2"
proof -
  from skb_copy_expand_ok [OF sample_skb_ok(1), of 2 3 sample_world] obtain new w' where
    "skb_copy_expand False sample_skb 2 3 sample_world = Ok (Some new, w')" "content new = [1, 2, 3, 4]"
    "skb_headroom new = 2" "skb_tailroom new = Ok 3" "nfct (meta sample_skb) = Some 7 \<longrightarrow> ct_use w' 7 = ct_use sample_world 7 + 1"
    using sample_skb_ok(2) by auto
  then show ?thesis by (auto simp: sample_skb_def sample_world_def)
qed

text \<open>Adding and removing a header at the front.\<close>

lemma skb_push_pull:
  assumes "n \<le> sdata skb" "slen skb + n < 2 ^ 32"
  shows "bind_outcome (skb_push n skb) (skb_pull n) = Ok skb"
proof -
  have "((slen skb + n) mod B + (B - n mod B)) mod B = slen skb" if lt: "slen skb + n < B" for B
  proof -
    have "(slen skb + n) mod B = slen skb + n" "n mod B = n" "slen skb + n + (B - n) = slen skb + B"
      using lt by simp_all
    then show ?thesis using lt by simp
  qed
  from this [OF assms(2)] show ?thesis
    using assms(1) unfolding skb_push_def skb_pull_def Let_def by simp
qed

text \<open>\<open>skb_pull\<close> accepts any length, also one beyond the packet.\<close>

lemma skb_pull_never_fails: "\<exists>skb'. skb_pull n skb = Ok skb'"
  by (simp add: skb_pull_def Let_def)

lemma skb_trim_content:
  assumes "skb_ok skb"
  shows "content (skb_trim n skb) = take n (content skb)"
proof (cases "n < slen skb")
  case True
  have "full_bytes (skb_trim_to n skb) = full_bytes skb" by (simp add: full_bytes_def skb_trim_to_def split: option.splits)
  then show ?thesis using True by (simp add: skb_trim_def content_def) (simp add: skb_trim_to_def take_take)
next
  case False
  then show ?thesis using length_content [OF assms] by (simp add: skb_trim_def)
qed

text \<open>Verifying a packet whose checksum field was completed by the sender of it.\<close>

lemma skb_checksum_content:
  assumes "skb_ok skb" "offset + len \<le> slen skb"
  shows "skb_checksum addr skb offset len sm = Ok (csum_partial addr (take len (drop offset (content skb))) sm)"
  using skb_copy_bits_content [OF assms] by (simp add: skb_checksum_def)

end
