(* ===== verification/Gen_Send.thy ===== *)
theory Gen_Send
  imports Gen_Ip Ipv4 Skb
begin

text \<open>
  The commands gen\_ip and gen\_err: the packet that Gen\_Ip builds becomes a socket buffer (Skb) and enters the packet
  path (Ipv4). A generated packet is shown to pass it with a header that verifies and its data unchanged.
\<close>

section \<open>The commands\<close>

definition link_bytes :: "packet \<Rightarrow> u8 list" where
  "link_bytes p = bytes16 (pad p) @ h_dest p @ h_source p @ bytes16 (h_proto p)"

text \<open>
  The header up to the end of the IP header is the linear part. The total length is 16 bits wide and may have wrapped: below
  20 the length of the rest is negative.
\<close>

definition build_skb :: "packet \<Rightarrow> string option \<Rightarrow> skb_world \<Rightarrow> (sk_buff \<times> skb_world) outcome" where
  "build_skb p flags w =
     (if tot_len p < 4 * get_ihl (iph p) then Barf ''negative length''
      else
        bind_outcome (nfsim_nonlinear_skb (link_bytes p @ iph p) (mem_bytes (tot_len p - 4 * get_ihl (iph p)) (raw_data p)) w)
          (\<lambda>(skb, w).
             if \<not> nfsim_check_packet skb then Barf ''skb modified without being made writable!''
             else Ok (skb\<lparr>macraw := 2, nhraw := 16, meta := (meta skb)\<lparr>dump_flags := flags\<rparr>\<rparr>, w)))"

definition path_packet :: "sk_buff \<Rightarrow> dev_ref \<Rightarrow> ippkt" where
  "path_packet skb d =
     (let link = nat (nhraw skb) - sdata skb
      in \<lparr>pbytes = drop link (content skb), plink = link, pdev = d, pdst = None, phost = True,
          pmaster = map_option (\<lambda>(data, writable_len). (drop (nat (nhraw skb)) (take (length (hbuf skb)) data), writable_len - nat (nhraw skb))) (extra skb),
          pflags = dump_flags (meta skb)\<rparr>)"

definition nf_rcv :: "hooks \<Rightarrow> bool \<Rightarrow> bool \<Rightarrow> ippkt \<Rightarrow> ip_state \<Rightarrow> path" where
  "nf_rcv hook fail_route fail_alloc pkt st = ip_rcv hook fail_route fail_alloc pkt st"

definition nf_rcv_local :: "hooks \<Rightarrow> bool \<Rightarrow> ippkt \<Rightarrow> ip_state \<Rightarrow> path" where
  "nf_rcv_local hook fail_route pkt st = ip_rcv_local hook fail_route pkt st"

type_synonym command_run = "(ip_event list \<times> bool \<times> skb_world \<times> ip_state) outcome"

definition send_packet ::
    "hooks \<Rightarrow> bool \<Rightarrow> bool \<Rightarrow> packet \<Rightarrow> string option \<Rightarrow> string option \<Rightarrow> skb_world \<Rightarrow> ip_state \<Rightarrow> command_run" where
  "send_packet hook fail_route fail_alloc p iface flags w st =
     bind_outcome (build_skb p flags w) (\<lambda>(skb, w).
       case iface of
         Some name \<Rightarrow>
           (case interface_by_name name st of
              None \<Rightarrow> Ok ([Freed], False, w, st)
            | Some dev \<Rightarrow>
                bind_outcome (nf_rcv hook fail_route fail_alloc (path_packet skb (Dev (ifindex dev))) st)
                  (\<lambda>(es, _, st). Ok (es, True, w, st)))
       | None \<Rightarrow>
           bind_outcome (nf_rcv_local hook fail_route (path_packet skb Loopback_dev) st)
             (\<lambda>(es, _, st). Ok (es, True, w, st)))"

definition gen_ip :: "hooks \<Rightarrow> bool \<Rightarrow> bool \<Rightarrow> string list \<Rightarrow> skb_world \<Rightarrow> ip_state \<Rightarrow> command_run" where
  "gen_ip hook fail_route fail_alloc argv w st =
     (let (iface, argv) =
            (if length argv > 5 \<and> strstarts (argv ! 1) ''IF='' then (Some (drop 3 (argv ! 1)), tl argv) else (None, argv))
      in case parse_packet argv None of
           Done (p, flags) \<Rightarrow> send_packet hook fail_route fail_alloc p iface flags w st
         | Bad _ \<Rightarrow> Ok ([], False, w, st)
         | Crash m \<Rightarrow> Barf m)"

definition gen_err :: "hooks \<Rightarrow> bool \<Rightarrow> bool \<Rightarrow> string list \<Rightarrow> skb_world \<Rightarrow> ip_state \<Rightarrow> command_run" where
  "gen_err hook fail_route fail_alloc argv w st =
     (let (iface, argv) =
            (if length argv > 1 \<and> strstarts (argv ! 1) ''IF='' then (Some (drop 3 (argv ! 1)), tl argv) else (None, argv));
          (len, argv) =
            (if length argv > 1 \<and> strstarts (argv ! 1) ''LEN='' then (sint (string_to_number (drop 4 (argv ! 1)) 0 65535), tl argv)
             else (28, argv))
      in case parse_packet (drop 3 argv) None of
           Done (orig, flags) \<Rightarrow>
             (case create_icmp orig len (argv ! 1) (argv ! 2) (argv ! 3) of
                Done p \<Rightarrow> send_packet hook fail_route fail_alloc p iface flags w st
              | Bad _ \<Rightarrow> Ok ([], False, w, st)
              | Crash m \<Rightarrow> Barf m)
         | Bad _ \<Rightarrow> Ok ([], False, w, st)
         | Crash m \<Rightarrow> Barf m)"

section \<open>A generated packet on its path\<close>

definition well_formed :: "packet \<Rightarrow> bool" where
  "well_formed p \<longleftrightarrow> length (iph p) = 20 \<and> get_ihl (iph p) = 5 \<and> length (h_dest p) = 6 \<and> length (h_source p) = 6"

lemma build_skb_content:
  assumes "well_formed p" "20 \<le> tot_len p"
  shows "\<exists>skb w'. build_skb p flags w = Ok (skb, w') \<and> content skb = link_bytes p @ packet_bytes (tot_len p) p
    \<and> sdata skb = 0 \<and> nhraw skb = 16 \<and> dump_flags (meta skb) = flags \<and> (\<forall>d. pkt_intact (path_packet skb d))"
proof -
  let ?d = "mem_bytes (tot_len p - 20) (raw_data p)"
  have tot: "tot_len p < 65536"
    using unat_u8_less [of "iph p ! 2"] unat_u8_less [of "iph p ! 3"] by (simp add: tot_len_def)
  have l: "length (link_bytes p @ iph p) = 36" "length (link_bytes p @ iph p) + length ?d < 2 ^ 32"
    using assms tot by (simp_all add: link_bytes_def bytes16_def well_formed_def)
  have k: "length (link_bytes p) = 16" "length (iph p) = 20" using assms by (simp_all add: link_bytes_def bytes16_def well_formed_def)
  from nfsim_nonlinear_skb_spec [OF l(2), of w] obtain skb w' where
    skb: "nfsim_nonlinear_skb (link_bytes p @ iph p) ?d w = Ok (skb, w')" "fresh_skb (linear_packets w) (link_bytes p @ iph p) ?d skb"
    by blast
  have c: "content skb = (link_bytes p @ iph p) @ ?d" "skb_ok skb" using fresh_skb_content [OF skb(2) l(2)] by simp_all
  have "packet_bytes (tot_len p) p = iph p @ ?d" using assms by (simp add: packet_bytes_def well_formed_def)
  moreover have "nfsim_check_packet skb" using c(2) by (simp add: skb_ok_def)
  moreover have "sdata skb = 0" using skb(2) by (simp add: fresh_skb_def)
  moreover have "content (skb\<lparr>macraw := 2, nhraw := 16, meta := m\<rparr>) = content skb" for m
    by (simp add: content_def full_bytes_def split: option.split)
  moreover have "pkt_intact (path_packet (skb\<lparr>macraw := 2, nhraw := 16, meta := m\<rparr>) d)" for m d
    using skb(2) c(1) k \<open>sdata skb = 0\<close> calculation(4) [of m]
    by (auto simp: pkt_intact_def path_packet_def fresh_skb_def nth_append split: if_splits)
  ultimately show ?thesis
    using skb(1) c(1) assms by (simp add: build_skb_def well_formed_def)
qed

lemma send_packet_rcv:
  assumes "well_formed p" "20 \<le> tot_len p" "interface_by_name name st = Some dev"
  obtains w' pkt where "pbytes pkt = packet_bytes (tot_len p) p" "pdev pkt = Dev (ifindex dev)" "pdst pkt = None" "pkt_intact pkt" "pflags pkt = flags"
    "send_packet hook fr fa p (Some name) flags w st =
       bind_outcome (ip_rcv hook fr fa pkt st) (\<lambda>(es, _, st). Ok (es, True, w', st))"
proof -
  from build_skb_content [OF assms(1,2), of flags w] obtain skb w' where
    skb: "build_skb p flags w = Ok (skb, w')" "content skb = link_bytes p @ packet_bytes (tot_len p) p" "sdata skb = 0" "nhraw skb = 16"
      "pkt_intact (path_packet skb (Dev (ifindex dev)))" "dump_flags (meta skb) = flags"
    by blast
  have "length (link_bytes p) = 16" using assms(1) by (simp add: link_bytes_def bytes16_def well_formed_def)
  with skb show thesis
    by (intro that [of "path_packet skb (Dev (ifindex dev))" w'])
       (simp_all add: path_packet_def send_packet_def nf_rcv_def assms(3))
qed

lemma gen_ip_on_interface:
  assumes "parse_packet ((''IF='' @ name) # args) None = Done (p, flags)"
  shows "gen_ip hook fr fa (cmd # (''IF='' @ name) # args) w st = send_packet hook fr fa p (Some name) flags w st"
proof -
  have "5 \<le> length ((''IF='' @ name) # args)" using assms by (auto simp: parse_packet_def split: if_splits)
  then show ?thesis using assms by (simp add: gen_ip_def strstarts_def)
qed

lemma gen_ip_spec:
  assumes "cache_ok st" "interface_by_name name st = Some dev" "ifindex dev \<noteq> 0"
    and "parse_packet ((''IF='' @ name) # args) None = Done (p, flags)" "20 \<le> tot_len p" "2 \<le> unat (iph p ! 8)"
  defines "b \<equiv> packet_bytes (tot_len p) p"
  shows "\<exists>es w' st'. gen_ip accept_all fr fa (cmd # (''IF='' @ name) # args) w st = Ok (es, True, w', st') \<and> same_routing st st' \<and>
    (case input_entry (iph_daddr b) (iph_saddr b) (iph_tos b) st of
       None \<Rightarrow> es = [At_hook NF_IP_PRE_ROUTING, Freed]
     | Some e \<Rightarrow>
         if rt_input e = Ip_local_deliver
         then es = [At_hook NF_IP_PRE_ROUTING, At_hook NF_IP_LOCAL_IN, Delivered b flags, Freed]
         else \<exists>h'. es = [At_hook NF_IP_PRE_ROUTING, At_hook NF_IP_FORWARD, At_hook NF_IP_POST_ROUTING,
                        Sent (rt_dev e) (h' @ mem_bytes (tot_len p - 20) (raw_data p)) flags, Freed] \<and>
                   csum_partial 0 h' 0 = 0xFFFF \<and> unat (h' ! 8) = unat (iph p ! 8) - 1 \<and> header_kept (iph p) h')"
proof -
  note ok = parse_packet_ok [OF assms(4)]
  then have wf: "well_formed p" by (simp add: well_formed_def)
  have b: "b = iph p @ mem_bytes (tot_len p - 20) (raw_data p)"
    using ok assms(5) by (simp add: b_def packet_bytes_def)
  obtain w' pkt where pkt: "pbytes pkt = b" "pdev pkt = Dev (ifindex dev)" "pdst pkt = None" "pkt_intact pkt" "pflags pkt = flags"
    and s: "send_packet accept_all fr fa p (Some name) flags w st =
       bind_outcome (ip_rcv accept_all fr fa pkt st) (\<lambda>(es, _, st). Ok (es, True, w', st))"
    unfolding b_def by (rule send_packet_rcv [OF wf assms(5,2), of flags accept_all fr fa w])
  have "dev_index (pdev pkt) st \<noteq> 0" using assms(3) pkt(2) by (simp add: dev_index_def)
  from ip_rcv_spec [OF assms(1) this pkt(3) pkt(1) [unfolded b], of fr fa, folded b, unfolded pkt(5)] ok assms(6) pkt(4)
  have r: "case input_entry (iph_daddr b) (iph_saddr b) (iph_tos b) st of
       None \<Rightarrow> \<exists>st'. ip_rcv accept_all fr fa pkt st = Ok ([At_hook NF_IP_PRE_ROUTING, Freed], -1, st') \<and> same_routing st st'
     | Some e \<Rightarrow>
         if rt_input e = Ip_local_deliver
         then \<exists>st'. ip_rcv accept_all fr fa pkt st =
                Ok ([At_hook NF_IP_PRE_ROUTING, At_hook NF_IP_LOCAL_IN, Delivered b flags, Freed], 0, st') \<and> same_routing st st'
         else \<exists>st' h'. ip_rcv accept_all fr fa pkt st =
                Ok ([At_hook NF_IP_PRE_ROUTING, At_hook NF_IP_FORWARD, At_hook NF_IP_POST_ROUTING,
                     Sent (rt_dev e) (h' @ mem_bytes (tot_len p - 20) (raw_data p)) flags, Freed], 0, st') \<and> same_routing st st' \<and>
                csum_partial 0 h' 0 = 0xFFFF \<and> unat (h' ! 8) = unat (iph p ! 8) - 1 \<and> header_kept (iph p) h'" by simp
  show ?thesis
  proof (cases "input_entry (iph_daddr b) (iph_saddr b) (iph_tos b) st")
    case None
    with r show ?thesis unfolding gen_ip_on_interface [OF assms(4)] s by auto
  next
    case (Some e)
    with r show ?thesis unfolding gen_ip_on_interface [OF assms(4)] s by (cases "rt_input e = Ip_local_deliver") auto
  qed
qed

text \<open>
  C3. When every hook accepts and the route cache is right, a packet that \<open>gen_ip IF=..\<close> accepts for an existing interface, with a total length of at
  least its header (the 16-bit field has not wrapped) and a time to live of at least 2, is received by the stack as it was built: without a
  route it is freed behind pre-routing, for a local address delivered byte for byte, and otherwise forwarded with its data unchanged, its time to
  live one lower and a header that still verifies and is otherwise the same. Routes and interfaces are as before.
\<close>

theorem gen_ip_paths:
  assumes "cache_ok st" "interface_by_name name st = Some dev" "ifindex dev \<noteq> 0"
    and "parse_packet ((''IF='' @ name) # args) None = Done (p, flags)" "20 \<le> tot_len p" "2 \<le> unat (iph p ! 8)"
  defines "b \<equiv> packet_bytes (tot_len p) p"
  shows "\<exists>es w' st'. gen_ip accept_all fr fa (cmd # (''IF='' @ name) # args) w st = Ok (es, True, w', st') \<and> same_routing st st' \<and>
    (case input_entry (iph_daddr b) (iph_saddr b) (iph_tos b) st of
       None \<Rightarrow> es = [At_hook NF_IP_PRE_ROUTING, Freed]
     | Some e \<Rightarrow>
         if rt_input e = Ip_local_deliver
         then es = [At_hook NF_IP_PRE_ROUTING, At_hook NF_IP_LOCAL_IN, Delivered b flags, Freed]
         else \<exists>h'. es = [At_hook NF_IP_PRE_ROUTING, At_hook NF_IP_FORWARD, At_hook NF_IP_POST_ROUTING,
                        Sent (rt_dev e) (h' @ mem_bytes (tot_len p - 20) (raw_data p)) flags, Freed] \<and>
                   csum_partial 0 h' 0 = 0xFFFF \<and> unat (h' ! 8) = unat (iph p ! 8) - 1 \<and> header_kept (iph p) h')"
  unfolding b_def by (rule gen_ip_spec [OF assms(1-6)])

theorem gen_ip_paths_witness:
  "\<exists>es w' st' h d. gen_ip accept_all False False [''gen_ip'', ''IF=eth0'', ''TTL=64'', ''192.168.0.2'', ''192.168.1.2'', ''4'', ''47'']
       \<lparr>ct_use = (\<lambda>_. 0), ct_destroyed = [], nfsim_seq = 0, linear_packets = False, stale = 0\<rparr> two_devices = Ok (es, True, w', st')
     \<and> es = [At_hook NF_IP_PRE_ROUTING, At_hook NF_IP_FORWARD, At_hook NF_IP_POST_ROUTING, Sent (Dev 3) (h @ d) (Some ''ttl''), Freed]
     \<and> csum_partial 0 h 0 = 0xFFFF \<and> unat (h ! 8) = 63"
proof -
  let ?a = "[''TTL=64'', ''192.168.0.2'', ''192.168.1.2'', ''4'', ''47'']"
  let ?p = "parse_packet ((''IF='' @ ''eth0'') # ?a) None"
  have "case parse_packet (''IF=eth0'' # ?a) None of
      Done (p, flags) \<Rightarrow> flags = Some ''ttl'' \<and> tot_len p = 24 \<and> iph p ! 8 = 64 \<and>
        (case input_entry (iph_daddr (packet_bytes 24 p)) (iph_saddr (packet_bytes 24 p)) (iph_tos (packet_bytes 24 p)) two_devices of
           Some e \<Rightarrow> rt_input e = Ip_forward \<and> rt_dev e = Dev 3 | None \<Rightarrow> False) | _ \<Rightarrow> False"
    by code_simp
  then obtain p e where p: "?p = Done (p, Some ''ttl'')" "tot_len p = 24" "iph p ! 8 = 64"
    and e: "input_entry (iph_daddr (packet_bytes 24 p)) (iph_saddr (packet_bytes 24 p)) (iph_tos (packet_bytes 24 p)) two_devices = Some e"
      "rt_input e = Ip_forward" "rt_dev e = Dev 3"
    by (auto split: parse.splits option.splits)
  have "map_option ifindex (interface_by_name ''eth0'' two_devices) = Some 2" by code_simp
  then obtain dev where "interface_by_name ''eth0'' two_devices = Some dev" "ifindex dev \<noteq> 0" by auto
  from gen_ip_paths [OF two_devices_ok this p(1), of False False "''gen_ip''"] p e show ?thesis by fastforce
qed

end
