(* ===== verification/Field.thy ===== *)
theory Field
  imports Nfsim_Prelude
begin

text \<open>
  Extra fields attached to structures, core/field.c: a list of fields searched from the front. The memory of a
  field belongs to the structure or to a common context, and its destructor takes it out of the list, so freeing a
  field is its removal. The list is shown to implement a stack of values per structure and name.
\<close>

section \<open>The list of fields\<close>

record 'v field =
  fname :: string
  strct :: u64
  fval :: 'v

definition field_attach_ctx :: "u64 \<Rightarrow> string \<Rightarrow> 'v \<Rightarrow> 'v field list \<Rightarrow> 'v field list" where
  "field_attach_ctx s n v fs = \<lparr>fname = n, strct = s, fval = v\<rparr> # fs"

definition field_attach :: "u64 \<Rightarrow> string \<Rightarrow> 'v \<Rightarrow> 'v field list \<Rightarrow> 'v field list" where
  "field_attach s n v fs = field_attach_ctx s n v fs"

definition field_attach_static :: "u64 \<Rightarrow> string \<Rightarrow> 'v \<Rightarrow> 'v field list \<Rightarrow> 'v field list" where
  "field_attach_static s n v fs = field_attach_ctx s n v fs"

definition field_key :: "'v field \<Rightarrow> u64 \<times> string" where
  "field_key f = (strct f, fname f)"

fun field_find :: "u64 \<times> string \<Rightarrow> 'v field list \<Rightarrow> 'v field option" where
  "field_find k [] = None"
| "field_find k (f # fs) = (if fst k = strct f \<and> snd k = fname f then Some f else field_find k fs)"

definition field_exists :: "u64 \<Rightarrow> string \<Rightarrow> 'v field list \<Rightarrow> bool" where
  "field_exists s n fs \<longleftrightarrow> field_find (s, n) fs \<noteq> None"

definition field_value :: "u64 \<Rightarrow> string \<Rightarrow> 'v field list \<Rightarrow> 'v option" where
  "field_value s n fs = (case field_find (s, n) fs of None \<Rightarrow> None | Some f \<Rightarrow> Some (fval f))"

text \<open>\<open>talloc_free\<close> of the found field; of \<^verbatim>\<open>NULL\<close> it does nothing.\<close>

fun field_detach :: "u64 \<Rightarrow> string \<Rightarrow> 'v field list \<Rightarrow> 'v field list" where
  "field_detach s n [] = []"
| "field_detach s n (f # fs) = (if s = strct f \<and> n = fname f then fs else f # field_detach s n fs)"

definition field_detach_all :: "u64 \<Rightarrow> 'v field list \<Rightarrow> 'v field list" where
  "field_detach_all s fs = filter (\<lambda>f. strct f \<noteq> s) fs"

interpretation fld: registry field_key field_find
  by unfold_locales (auto simp: field_key_def)

section \<open>Stacks of values\<close>

definition fstack :: "'v field list \<Rightarrow> u64 \<times> string \<Rightarrow> 'v list" where
  "fstack fs k = map fval (filter (\<lambda>f. field_key f = k) fs)"

lemma fstack_detach: "fstack (field_detach s n fs) = (fstack fs)((s, n) := tl (fstack fs (s, n)))"
  by (induction fs) (auto simp: fstack_def field_key_def fun_eq_iff)

lemma fstack_detach_all: "fstack (field_detach_all s fs) k = (if fst k = s then [] else fstack fs k)"
  by (induction fs) (auto simp: fstack_def field_detach_all_def field_key_def)

text \<open>The fields are a stack of values for every structure and name: attaching pushes, the value is the top, detaching
  pops and brings the previous value back, and detaching all empties the stacks of one structure; other stacks
  are not touched.\<close>

theorem fields_refine_stacks:
  "fstack (field_attach s n v fs) = (fstack fs)((s, n) := v # fstack fs (s, n)) \<and>
   fstack (field_attach_static s n v fs) = fstack (field_attach s n v fs) \<and>
   field_value s n fs = (case fstack fs (s, n) of [] \<Rightarrow> None | v # _ \<Rightarrow> Some v) \<and>
   (field_exists s n fs \<longleftrightarrow> fstack fs (s, n) \<noteq> []) \<and>
   fstack (field_detach s n fs) = (fstack fs)((s, n) := tl (fstack fs (s, n))) \<and>
   fstack (field_detach_all s fs) = (\<lambda>k. if fst k = s then [] else fstack fs k)"
proof (intro conjI)
  show "fstack (field_detach s n fs) = (fstack fs)((s, n) := tl (fstack fs (s, n)))" by (rule fstack_detach)
  show "fstack (field_detach_all s fs) = (\<lambda>k. if fst k = s then [] else fstack fs k)" by (simp add: fun_eq_iff fstack_detach_all)
qed (auto simp: field_value_def field_exists_def fld.lookup_filter_hd fun_eq_iff field_attach_def field_attach_static_def
    field_attach_ctx_def fstack_def field_key_def split: list.split)

end
