(* ===== verification/Talloc.thy ===== *)
theory Talloc
  imports Cstring
begin

text \<open>
  The hierarchical allocator, core/talloc.c: chunks linked into trees by next, prev, parent and child pointers (only the
  first child of a chunk has its parent pointer set), references that keep a chunk alive, freeing with all
  descendants, moving, resizing, counting, and the strings built on it.

  A pointer handed out by the allocator is identified with its chunk; 0 is \<^verbatim>\<open>NULL\<close>. The heap maps the live chunks; a
  freed chunk is gone, so that a pointer to it fails the check of the magic number (\<open>talloc_chunk_from_ptr\<close>). What
  \<^verbatim>\<open>malloc\<close> and \<^verbatim>\<open>realloc\<close> return is an argument of the operations that call them.
\<close>

section \<open>Chunks\<close>

type_synonym ptr = u64

text \<open>The destructor slot: empty, the value -1 that marks a running destructor, the one of references, or one of the program.\<close>

datatype destr = No_destructor | Running | Reference_destructor | Destructor nat

datatype chunk_name = No_name | Magic_reference | Name string

record talloc_chunk =
  t_next :: ptr
  t_prev :: ptr
  t_parent :: ptr
  t_child :: ptr
  t_refs :: ptr
  t_size :: u64
  t_destructor :: destr
  t_name :: chunk_name
  t_contents :: "char option list"
  h_next :: ptr
  h_prev :: ptr
  h_ptr :: ptr

text \<open>
  The last three fields are the \<^verbatim>\<open>struct talloc_reference_handle\<close> that fills the memory of a reference; a byte of
  the contents is \<open>None\<close> as long as nothing was stored in it.
\<close>

type_synonym theap = "ptr \<Rightarrow> talloc_chunk option"

definition null_chunk :: talloc_chunk where
  "null_chunk =
     \<lparr>t_next = 0, t_prev = 0, t_parent = 0, t_child = 0, t_refs = 0, t_size = 0, t_destructor = No_destructor,
      t_name = No_name, t_contents = [], h_next = 0, h_prev = 0, h_ptr = 0\<rparr>"

text \<open>The chunk behind a link, and a store through it. Links lead to live chunks only, as is shown below.\<close>

definition ch :: "theap \<Rightarrow> ptr \<Rightarrow> talloc_chunk" where
  "ch h p = (case h p of Some c \<Rightarrow> c | None \<Rightarrow> null_chunk)"

definition upd :: "ptr \<Rightarrow> (talloc_chunk \<Rightarrow> talloc_chunk) \<Rightarrow> theap \<Rightarrow> theap" where
  "upd p f h = (case h p of Some c \<Rightarrow> h(p := Some (f c)) | None \<Rightarrow> h)"

definition talloc_chunk_from_ptr :: "theap \<Rightarrow> ptr \<Rightarrow> talloc_chunk outcome" where
  "talloc_chunk_from_ptr h p = (case h p of Some c \<Rightarrow> Ok c | None \<Rightarrow> Barf ''Bad talloc magic value'')"

section \<open>Lists of children and of references\<close>

definition tlist_add :: "ptr \<Rightarrow> ptr \<Rightarrow> theap \<Rightarrow> theap" where
  "tlist_add owner p h =
     (let list = t_child (ch h owner) in
      if list = 0 then
        upd p (\<lambda>c. c\<lparr>t_next := 0, t_prev := 0\<rparr>) (upd owner (\<lambda>c. c\<lparr>t_child := p\<rparr>) h)
      else
        upd owner (\<lambda>c. c\<lparr>t_child := p\<rparr>)
          (upd p (\<lambda>c. c\<lparr>t_next := list, t_prev := 0\<rparr>)
            (upd list (\<lambda>c. c\<lparr>t_prev := p\<rparr>) h)))"

text \<open>The stores that take an element out of the middle of a list: \<^verbatim>\<open>if (p->prev) p->prev->next = p->next\<close> and its mirror image.\<close>

definition relink :: "ptr \<Rightarrow> theap \<Rightarrow> theap" where
  "relink p h =
     (let h = (if t_prev (ch h p) \<noteq> 0 then upd (t_prev (ch h p)) (\<lambda>c. c\<lparr>t_next := t_next (ch h p)\<rparr>) h else h)
      in if t_next (ch h p) \<noteq> 0 then upd (t_next (ch h p)) (\<lambda>c. c\<lparr>t_prev := t_prev (ch h p)\<rparr>) h else h)"

definition tlist_remove :: "ptr \<Rightarrow> ptr \<Rightarrow> theap \<Rightarrow> theap" where
  "tlist_remove owner p h =
     (let h = (if p = t_child (ch h owner) then
                 let h = upd owner (\<lambda>c. c\<lparr>t_child := t_next (ch h p)\<rparr>) h;
                     list = t_child (ch h owner)
                 in if list \<noteq> 0 then upd list (\<lambda>c. c\<lparr>t_prev := 0\<rparr>) h else h
               else relink p h)
      in if p \<noteq> t_child (ch h owner) then upd p (\<lambda>c. c\<lparr>t_next := 0, t_prev := 0\<rparr>) h else h)"

definition refs_add :: "ptr \<Rightarrow> ptr \<Rightarrow> theap \<Rightarrow> theap" where
  "refs_add owner p h =
     (let list = t_refs (ch h owner) in
      if list = 0 then
        upd p (\<lambda>c. c\<lparr>h_next := 0, h_prev := 0\<rparr>) (upd owner (\<lambda>c. c\<lparr>t_refs := p\<rparr>) h)
      else
        upd owner (\<lambda>c. c\<lparr>t_refs := p\<rparr>)
          (upd p (\<lambda>c. c\<lparr>h_next := list, h_prev := 0\<rparr>)
            (upd list (\<lambda>c. c\<lparr>h_prev := p\<rparr>) h)))"

definition refs_remove :: "ptr \<Rightarrow> ptr \<Rightarrow> theap \<Rightarrow> theap" where
  "refs_remove owner p h =
     (let h = (if p = t_refs (ch h owner) then
                 let h = upd owner (\<lambda>c. c\<lparr>t_refs := h_next (ch h p)\<rparr>) h;
                     list = t_refs (ch h owner)
                 in if list \<noteq> 0 then upd list (\<lambda>c. c\<lparr>h_prev := 0\<rparr>) h else h
               else
                 let h = (if h_prev (ch h p) \<noteq> 0 then upd (h_prev (ch h p)) (\<lambda>c. c\<lparr>h_next := h_next (ch h p)\<rparr>) h else h)
                 in if h_next (ch h p) \<noteq> 0 then upd (h_next (ch h p)) (\<lambda>c. c\<lparr>h_prev := h_prev (ch h p)\<rparr>) h else h)
      in if p \<noteq> t_refs (ch h owner) then upd p (\<lambda>c. c\<lparr>h_next := 0, h_prev := 0\<rparr>) h else h)"

text \<open>The parent is stored in the first of the children only: \<^verbatim>\<open>while (tc->prev) tc = tc->prev\<close>, with fuel.\<close>

fun talloc_parent_chunk :: "nat \<Rightarrow> theap \<Rightarrow> ptr \<Rightarrow> ptr option" where
  "talloc_parent_chunk 0 h p = None"
| "talloc_parent_chunk (Suc n) h p =
     (if t_prev (ch h p) \<noteq> 0 then talloc_parent_chunk n h (t_prev (ch h p)) else Some (t_parent (ch h p)))"

section \<open>Allocation\<close>

definition MAX_TALLOC_SIZE :: u64 where
  "MAX_TALLOC_SIZE = 0x10000000"

definition fresh_chunk :: "u64 \<Rightarrow> talloc_chunk" where
  "fresh_chunk sz = null_chunk\<lparr>t_size := sz, t_contents := replicate (unat sz) None\<rparr>"

text \<open>\<open>nullctx\<close> is \<^verbatim>\<open>null_context\<close>, \<open>m\<close> the result of \<^verbatim>\<open>malloc\<close>.\<close>

definition talloc :: "ptr \<Rightarrow> ptr \<Rightarrow> ptr \<Rightarrow> u64 \<Rightarrow> theap \<Rightarrow> (ptr \<times> theap) outcome" where
  "talloc nullctx m context sz h =
     (let context = (if context = 0 then nullctx else context) in
      if sz \<ge> MAX_TALLOC_SIZE then Ok (0, h)
      else if m = 0 then Ok (0, h)
      else
        let h1 = h(m \<mapsto> fresh_chunk sz) in
        if context \<noteq> 0 then
          bind_outcome (talloc_chunk_from_ptr h1 context) (\<lambda>parent.
            let h2 = upd m (\<lambda>c. c\<lparr>t_parent := context\<rparr>) h1;
                h3 = (if t_child parent \<noteq> 0 then upd (t_child parent) (\<lambda>c. c\<lparr>t_parent := 0\<rparr>) h2 else h2)
            in Ok (m, tlist_add context m h3))
        else Ok (m, h1))"

definition talloc_set_destructor :: "ptr \<Rightarrow> destr \<Rightarrow> theap \<Rightarrow> theap outcome" where
  "talloc_set_destructor p d h =
     bind_outcome (talloc_chunk_from_ptr h p) (\<lambda>_. Ok (upd p (\<lambda>c. c\<lparr>t_destructor := d\<rparr>) h))"

definition talloc_set_name_const :: "ptr \<Rightarrow> chunk_name \<Rightarrow> theap \<Rightarrow> theap outcome" where
  "talloc_set_name_const p n h =
     bind_outcome (talloc_chunk_from_ptr h p) (\<lambda>_. Ok (upd p (\<lambda>c. c\<lparr>t_name := n\<rparr>) h))"

definition talloc_named_const :: "ptr \<Rightarrow> ptr \<Rightarrow> ptr \<Rightarrow> u64 \<Rightarrow> chunk_name \<Rightarrow> theap \<Rightarrow> (ptr \<times> theap) outcome" where
  "talloc_named_const nullctx m context sz n h =
     bind_outcome (talloc nullctx m context sz h) (\<lambda>(p, h).
       if p = 0 then Ok (0, h)
       else bind_outcome (talloc_set_name_const p n h) (\<lambda>h. Ok (p, h)))"

definition talloc_get_name :: "theap \<Rightarrow> ptr \<Rightarrow> string outcome" where
  "talloc_get_name h p =
     bind_outcome (talloc_chunk_from_ptr h p) (\<lambda>c. Ok
       (case t_name c of Magic_reference \<Rightarrow> ''.reference'' | Name n \<Rightarrow> n | No_name \<Rightarrow> ''UNNAMED''))"

definition talloc_check_name :: "theap \<Rightarrow> ptr \<Rightarrow> string \<Rightarrow> ptr outcome" where
  "talloc_check_name h p n =
     (if p = 0 then Ok 0
      else bind_outcome (talloc_get_name h p) (\<lambda>pname. Ok (if pname = n then p else 0)))"

definition talloc_get_size :: "theap \<Rightarrow> ptr \<Rightarrow> u64 outcome" where
  "talloc_get_size h p =
     (if p = 0 then Ok 0 else bind_outcome (talloc_chunk_from_ptr h p) (\<lambda>c. Ok (t_size c)))"

section \<open>Moving\<close>

text \<open>The stores, shared by \<open>talloc_free\<close> and \<open>talloc_steal\<close>, that take a chunk out of the list of its siblings.\<close>

definition detach :: "ptr \<Rightarrow> theap \<Rightarrow> theap" where
  "detach p h =
     (let owner = t_parent (ch h p) in
      if owner \<noteq> 0 then
        let h = tlist_remove owner p h
        in if t_child (ch h owner) \<noteq> 0 then upd (t_child (ch h owner)) (\<lambda>c. c\<lparr>t_parent := owner\<rparr>) h else h
      else relink p h)"

definition talloc_steal :: "ptr \<Rightarrow> ptr \<Rightarrow> ptr \<Rightarrow> theap \<Rightarrow> (ptr \<times> theap) outcome" where
  "talloc_steal nullctx new_ctx p h =
     (if p = 0 then Ok (0, h)
      else
        let new_ctx = (if new_ctx = 0 then nullctx else new_ctx) in
        bind_outcome (talloc_chunk_from_ptr h p) (\<lambda>_.
          if new_ctx = 0 then Ok (p, upd p (\<lambda>c. c\<lparr>t_parent := 0, t_next := 0, t_prev := 0\<rparr>) (detach p h))
          else
            bind_outcome (talloc_chunk_from_ptr h new_ctx) (\<lambda>_.
              if p = new_ctx then Ok (p, h)
              else
                let h = upd p (\<lambda>c. c\<lparr>t_parent := new_ctx\<rparr>) (detach p h);
                    old = t_child (ch h new_ctx);
                    h = (if old \<noteq> 0 then upd old (\<lambda>c. c\<lparr>t_parent := 0\<rparr>) h else h)
                in Ok (p, tlist_add new_ctx p h))))"

section \<open>Freeing\<close>

text \<open>
  \<open>talloc_free\<close>, \<open>talloc_free_children\<close> and \<open>talloc_reference_destructor\<close> call each other, with fuel: \<open>None\<close> is running out
  of it. \<open>dtor\<close> runs a destructor of the program and tells whether it returned something else than -1. The result of
  \<open>talloc_free\<close> is \<open>True\<close> for 0 and \<open>False\<close> for -1.
\<close>

fun bind_run :: "'a outcome option \<Rightarrow> ('a \<Rightarrow> 'b outcome option) \<Rightarrow> 'b outcome option" where
  "bind_run None f = None"
| "bind_run (Some (Barf m)) f = Some (Barf m)"
| "bind_run (Some (Ok a)) f = f a"

fun talloc_free :: "(nat \<Rightarrow> ptr \<Rightarrow> theap \<Rightarrow> bool \<times> theap) \<Rightarrow> ptr \<Rightarrow> nat \<Rightarrow> ptr \<Rightarrow> theap \<Rightarrow> (bool \<times> theap) outcome option"
and talloc_free_children :: "(nat \<Rightarrow> ptr \<Rightarrow> theap \<Rightarrow> bool \<times> theap) \<Rightarrow> ptr \<Rightarrow> nat \<Rightarrow> ptr \<Rightarrow> theap \<Rightarrow> theap outcome option"
and talloc_reference_destructor :: "(nat \<Rightarrow> ptr \<Rightarrow> theap \<Rightarrow> bool \<times> theap) \<Rightarrow> ptr \<Rightarrow> nat \<Rightarrow> ptr \<Rightarrow> theap \<Rightarrow> theap outcome option"
where
  "talloc_free dtor nullctx 0 p h = None"
| "talloc_free dtor nullctx (Suc n) p h =
     (if p = 0 then Some (Ok (False, h))
      else
        bind_run (Some (talloc_chunk_from_ptr h p)) (\<lambda>tc.
          if t_refs tc \<noteq> 0 then
            bind_run (talloc_reference_destructor dtor nullctx n (t_refs tc) h) (\<lambda>h. Some (Ok (False, h)))
          else
            bind_run
              (case t_destructor tc of
                 No_destructor \<Rightarrow> Some (Ok (True, h))
               | Running \<Rightarrow> Some (Ok (False, h))
               | Reference_destructor \<Rightarrow>
                   bind_run (talloc_reference_destructor dtor nullctx n p (upd p (\<lambda>c. c\<lparr>t_destructor := Running\<rparr>) h))
                     (\<lambda>h. Some (Ok (True, upd p (\<lambda>c. c\<lparr>t_destructor := No_destructor\<rparr>) h)))
               | Destructor d \<Rightarrow>
                   (case dtor d p (upd p (\<lambda>c. c\<lparr>t_destructor := Running\<rparr>) h) of
                      (True, h) \<Rightarrow> Some (Ok (True, upd p (\<lambda>c. c\<lparr>t_destructor := No_destructor\<rparr>) h))
                    | (False, h) \<Rightarrow> Some (Ok (False, upd p (\<lambda>c. c\<lparr>t_destructor := Destructor d\<rparr>) h))))
              (\<lambda>(go, h).
                 if \<not> go then Some (Ok (False, h))
                 else
                   bind_run (talloc_free_children dtor nullctx n p h) (\<lambda>h.
                     Some (Ok (True, (detach p h)(p := None)))))))"
| "talloc_free_children dtor nullctx 0 p h = None"
| "talloc_free_children dtor nullctx (Suc n) p h =
     (if p = 0 then Some (Ok h)
      else
        bind_run (Some (talloc_chunk_from_ptr h p)) (\<lambda>tc.
          if t_child tc = 0 then Some (Ok h)
          else
            let child = t_child tc;
                refs = t_refs (ch h child)
            in bind_run
                 (if refs \<noteq> 0 then
                    (case talloc_parent_chunk n h refs of
                       None \<Rightarrow> None | Some q \<Rightarrow> Some (Ok (if q \<noteq> 0 then q else nullctx)))
                  else Some (Ok nullctx))
                 (\<lambda>new_parent.
                    bind_run (talloc_free dtor nullctx n child h) (\<lambda>(ok, h).
                      if ok then talloc_free_children dtor nullctx n p h
                      else
                        bind_run
                          (if new_parent = nullctx then
                             (case talloc_parent_chunk n h p of
                                None \<Rightarrow> None | Some q \<Rightarrow> Some (Ok (if q \<noteq> 0 then q else new_parent)))
                           else Some (Ok new_parent))
                          (\<lambda>new_parent.
                             bind_run (Some (talloc_steal nullctx new_parent child h)) (\<lambda>(_, h).
                               talloc_free_children dtor nullctx n p h))))))"
| "talloc_reference_destructor dtor nullctx 0 p h = None"
| "talloc_reference_destructor dtor nullctx (Suc n) p h =
     bind_run (Some (talloc_chunk_from_ptr h p)) (\<lambda>tc1.
       bind_run (Some (talloc_chunk_from_ptr h (h_ptr tc1))) (\<lambda>tc2.
         let h = (if t_destructor tc1 \<noteq> Running then upd p (\<lambda>c. c\<lparr>t_destructor := No_destructor\<rparr>) h else h);
             h = refs_remove (h_ptr tc1) p h
         in bind_run (talloc_free dtor nullctx n p h) (\<lambda>(_, h). Some (Ok h))))"

section \<open>References\<close>

definition sizeof_handle :: u64 where
  "sizeof_handle = 24"

definition talloc_reference :: "ptr \<Rightarrow> ptr \<Rightarrow> ptr \<Rightarrow> ptr \<Rightarrow> theap \<Rightarrow> (ptr \<times> theap) outcome" where
  "talloc_reference nullctx m context p h =
     (if p = 0 then Ok (0, h)
      else
        bind_outcome (talloc_chunk_from_ptr h p) (\<lambda>_.
        bind_outcome (talloc_named_const nullctx m context sizeof_handle Magic_reference h) (\<lambda>(handle, h).
          if handle = 0 then Ok (0, h)
          else
            bind_outcome (talloc_set_destructor handle Reference_destructor h) (\<lambda>h.
              Ok (p, refs_add p handle (upd handle (\<lambda>c. c\<lparr>h_ptr := p\<rparr>) h))))))"

definition talloc_increase_ref_count :: "ptr \<Rightarrow> ptr \<Rightarrow> ptr \<Rightarrow> theap \<Rightarrow> theap outcome" where
  "talloc_increase_ref_count nullctx m p h = bind_outcome (talloc_reference nullctx m nullctx p h) (\<lambda>(_, h). Ok h)"

text \<open>The search for the handle that hangs off \<open>context\<close>; 0 if there is none.\<close>

fun find_reference :: "nat \<Rightarrow> theap \<Rightarrow> ptr \<Rightarrow> ptr \<Rightarrow> ptr option" where
  "find_reference 0 h context hdl = None"
| "find_reference (Suc n) h context hdl =
     (if hdl = 0 then Some 0
      else
        case talloc_parent_chunk n h hdl of
          None \<Rightarrow> None
        | Some q \<Rightarrow> if q = context then Some hdl else find_reference n h context (h_next (ch h hdl)))"

definition talloc_unreference ::
    "(nat \<Rightarrow> ptr \<Rightarrow> theap \<Rightarrow> bool \<times> theap) \<Rightarrow> ptr \<Rightarrow> nat \<Rightarrow> ptr \<Rightarrow> ptr \<Rightarrow> theap \<Rightarrow> (bool \<times> theap) outcome option" where
  "talloc_unreference dtor nullctx n context p h =
     bind_run (Some (talloc_chunk_from_ptr h p)) (\<lambda>tc.
       let context = (if context = 0 then nullctx else context) in
       case find_reference n h context (t_refs tc) of
         None \<Rightarrow> None
       | Some hdl \<Rightarrow>
           if hdl = 0 then Some (Ok (False, h))
           else
             bind_run (Some (talloc_set_destructor hdl No_destructor h)) (\<lambda>h.
               bind_run (talloc_free dtor nullctx n hdl (refs_remove p hdl h)) (\<lambda>(_, h). Some (Ok (True, h)))))"

definition talloc_unlink ::
    "(nat \<Rightarrow> ptr \<Rightarrow> theap \<Rightarrow> bool \<times> theap) \<Rightarrow> ptr \<Rightarrow> nat \<Rightarrow> ptr \<Rightarrow> ptr \<Rightarrow> theap \<Rightarrow> (bool \<times> theap) outcome option" where
  "talloc_unlink dtor nullctx n context p h =
     (if p = 0 then Some (Ok (False, h))
      else
        let context = (if context = 0 then nullctx else context) in
        bind_run (talloc_unreference dtor nullctx n context p h) (\<lambda>(ok, h).
          if ok then Some (Ok (True, h))
          else
            case talloc_parent_chunk n h p of
              None \<Rightarrow> None
            | Some q \<Rightarrow>
                bind_run (if context = 0 then Some (Ok null_chunk) else Some (talloc_chunk_from_ptr h context)) (\<lambda>_.
                  if context \<noteq> q then Some (Ok (False, h))
                  else
                    let refs = t_refs (ch h p) in
                    if refs = 0 then talloc_free dtor nullctx n p h
                    else
                      case talloc_parent_chunk n h refs of
                        None \<Rightarrow> None
                      | Some new_parent \<Rightarrow>
                          bind_run (talloc_unreference dtor nullctx n new_parent p h) (\<lambda>(ok, h).
                            if \<not> ok then Some (Ok (False, h))
                            else bind_run (Some (talloc_steal nullctx new_parent p h)) (\<lambda>(_, h). Some (Ok (True, h)))))))"

section \<open>Resizing\<close>

text \<open>
  \<open>m\<close> is the result of \<^verbatim>\<open>realloc\<close>: the old address, another one, or 0. The contents are kept up to the smaller of the
  sizes. The neighbours are told the new address.
\<close>

definition resize_contents :: "nat \<Rightarrow> char option list \<Rightarrow> char option list" where
  "resize_contents n cs = take n cs @ replicate (n - length cs) None"

definition move_chunk :: "ptr \<Rightarrow> ptr \<Rightarrow> u64 \<Rightarrow> chunk_name \<Rightarrow> theap \<Rightarrow> theap" where
  "move_chunk p m sz n h =
     (let tc = ch h p;
          h = h(p := None);
          h = h(m \<mapsto> tc\<lparr>t_size := sz, t_name := n, t_contents := resize_contents (unat sz) (t_contents tc)\<rparr>);
          h = (if t_parent tc \<noteq> 0 then upd (t_parent tc) (\<lambda>c. c\<lparr>t_child := m\<rparr>) h else h);
          h = (if t_child tc \<noteq> 0 then upd (t_child tc) (\<lambda>c. c\<lparr>t_parent := m\<rparr>) h else h);
          h = (if t_prev tc \<noteq> 0 then upd (t_prev tc) (\<lambda>c. c\<lparr>t_next := m\<rparr>) h else h)
      in if t_next tc \<noteq> 0 then upd (t_next tc) (\<lambda>c. c\<lparr>t_prev := m\<rparr>) h else h)"

definition talloc_realloc ::
    "(nat \<Rightarrow> ptr \<Rightarrow> theap \<Rightarrow> bool \<times> theap) \<Rightarrow> ptr \<Rightarrow> nat \<Rightarrow> ptr \<Rightarrow> ptr \<Rightarrow> ptr \<Rightarrow> u64 \<Rightarrow> chunk_name \<Rightarrow> theap \<Rightarrow>
     (ptr \<times> theap) outcome option" where
  "talloc_realloc dtor nullctx fuel m context p sz n h =
     (if sz = 0 then bind_run (talloc_free dtor nullctx fuel p h) (\<lambda>(_, h). Some (Ok (0, h)))
      else if sz \<ge> MAX_TALLOC_SIZE then Some (Ok (0, h))
      else if p = 0 then Some (talloc_named_const nullctx m context sz n h)
      else
        bind_run (Some (talloc_chunk_from_ptr h p)) (\<lambda>tc.
          if t_refs tc \<noteq> 0 then Some (Ok (0, h))
          else if m = 0 then Some (Ok (0, h))
          else Some (Ok (m, move_chunk p m sz n h))))"

definition talloc_array :: "ptr \<Rightarrow> ptr \<Rightarrow> ptr \<Rightarrow> u64 \<Rightarrow> u32 \<Rightarrow> chunk_name \<Rightarrow> theap \<Rightarrow> (ptr \<times> theap) outcome" where
  "talloc_array nullctx m ctx el_size count n h =
     (if el_size = 0 then Barf ''division by zero''
      else if ucast count \<ge> MAX_TALLOC_SIZE div el_size then Ok (0, h)
      else talloc_named_const nullctx m ctx (el_size * ucast count) n h)"

definition talloc_realloc_array ::
    "(nat \<Rightarrow> ptr \<Rightarrow> theap \<Rightarrow> bool \<times> theap) \<Rightarrow> ptr \<Rightarrow> nat \<Rightarrow> ptr \<Rightarrow> ptr \<Rightarrow> ptr \<Rightarrow> u64 \<Rightarrow> u32 \<Rightarrow> chunk_name \<Rightarrow> theap \<Rightarrow>
     (ptr \<times> theap) outcome option" where
  "talloc_realloc_array dtor nullctx fuel m ctx p el_size count n h =
     (if el_size = 0 then Some (Barf ''division by zero'')
      else if ucast count \<ge> MAX_TALLOC_SIZE div el_size then Some (Ok (0, h))
      else talloc_realloc dtor nullctx fuel m ctx p (el_size * ucast count) n h)"

section \<open>Zeroed memory and strings\<close>

definition memset_chunk :: "ptr \<Rightarrow> char option list \<Rightarrow> theap \<Rightarrow> theap" where
  "memset_chunk p cs h = upd p (\<lambda>c. c\<lparr>t_contents := cs\<rparr>) h"

definition talloc_zero :: "ptr \<Rightarrow> ptr \<Rightarrow> ptr \<Rightarrow> u64 \<Rightarrow> chunk_name \<Rightarrow> theap \<Rightarrow> (ptr \<times> theap) outcome" where
  "talloc_zero nullctx m ctx sz n h =
     bind_outcome (talloc_named_const nullctx m ctx sz n h) (\<lambda>(p, h).
       Ok (p, if p \<noteq> 0 then memset_chunk p (replicate (unat sz) (Some CHR 0x00)) h else h))"

definition talloc_zero_array :: "ptr \<Rightarrow> ptr \<Rightarrow> ptr \<Rightarrow> u64 \<Rightarrow> u32 \<Rightarrow> chunk_name \<Rightarrow> theap \<Rightarrow> (ptr \<times> theap) outcome" where
  "talloc_zero_array nullctx m ctx el_size count n h =
     (if el_size = 0 then Barf ''division by zero''
      else if ucast count \<ge> MAX_TALLOC_SIZE div el_size then Ok (0, h)
      else talloc_zero nullctx m ctx (el_size * ucast count) n h)"

definition talloc_memdup :: "ptr \<Rightarrow> ptr \<Rightarrow> ptr \<Rightarrow> char list \<Rightarrow> chunk_name \<Rightarrow> theap \<Rightarrow> (ptr \<times> theap) outcome" where
  "talloc_memdup nullctx m t bytes n h =
     bind_outcome (talloc_named_const nullctx m t (word_of_nat (length bytes)) n h) (\<lambda>(p, h).
       Ok (p, if p \<noteq> 0 then memset_chunk p (map Some bytes) h else h))"

text \<open>Strings are given without their terminator; \<open>None\<close> is a null pointer. A string is its own name.\<close>

definition talloc_strdup :: "ptr \<Rightarrow> ptr \<Rightarrow> ptr \<Rightarrow> string option \<Rightarrow> theap \<Rightarrow> (ptr \<times> theap) outcome" where
  "talloc_strdup nullctx m t s h =
     (case s of
        None \<Rightarrow> Ok (0, h)
      | Some s \<Rightarrow>
          bind_outcome (talloc_memdup nullctx m t (s @ [CHR 0x00]) (Name ''char'') h) (\<lambda>(p, h).
            if p = 0 then Ok (0, h)
            else bind_outcome (talloc_set_name_const p (Name s) h) (\<lambda>h. Ok (p, h))))"

definition talloc_vasprintf :: "ptr \<Rightarrow> ptr \<Rightarrow> ptr \<Rightarrow> string \<Rightarrow> theap \<Rightarrow> (ptr \<times> theap) outcome" where
  "talloc_vasprintf nullctx m t text h =
     bind_outcome (talloc nullctx m t (word_of_nat (length text + 1)) h) (\<lambda>(p, h).
       if p = 0 then Ok (0, h)
       else
         bind_outcome (talloc_set_name_const p (Name text) (memset_chunk p (map Some (text @ [CHR 0x00])) h))
           (\<lambda>h. Ok (p, h)))"

text \<open>A name that is formatted lives in a chunk of its own below the named one, allocated by the second \<open>malloc\<close>.\<close>

definition talloc_set_name :: "ptr \<Rightarrow> ptr \<Rightarrow> ptr \<Rightarrow> string \<Rightarrow> theap \<Rightarrow> theap outcome" where
  "talloc_set_name nullctx m p text h =
     bind_outcome (talloc_chunk_from_ptr h p) (\<lambda>_.
     bind_outcome (talloc_vasprintf nullctx m p text h) (\<lambda>(q, h).
       if q = 0 then Ok (upd p (\<lambda>c. c\<lparr>t_name := No_name\<rparr>) h)
       else talloc_set_name_const q (Name ''.name'') (upd p (\<lambda>c. c\<lparr>t_name := Name text\<rparr>) h)))"

definition talloc_named :: "ptr \<Rightarrow> ptr \<Rightarrow> ptr \<Rightarrow> ptr \<Rightarrow> u64 \<Rightarrow> string \<Rightarrow> theap \<Rightarrow> (ptr \<times> theap) outcome" where
  "talloc_named nullctx m m' context sz text h =
     bind_outcome (talloc nullctx m context sz h) (\<lambda>(p, h).
       if p = 0 then Ok (0, h)
       else bind_outcome (talloc_set_name nullctx m' p text h) (\<lambda>h. Ok (p, h)))"

definition talloc_init :: "ptr \<Rightarrow> ptr \<Rightarrow> ptr \<Rightarrow> string \<Rightarrow> theap \<Rightarrow> (ptr \<times> theap) outcome" where
  "talloc_init nullctx m m' text h = talloc_named nullctx m m' 0 0 text h"

definition talloc_strndup :: "ptr \<Rightarrow> ptr \<Rightarrow> ptr \<Rightarrow> string \<Rightarrow> nat \<Rightarrow> theap \<Rightarrow> (ptr \<times> theap) outcome" where
  "talloc_strndup nullctx m t s n h = talloc_vasprintf nullctx m t (take n s) h"

text \<open>The string in a piece of memory; an unset byte ends it like the terminator.\<close>

definition text_of :: "char option list \<Rightarrow> string" where
  "text_of cs = cstr (map (\<lambda>c. case c of None \<Rightarrow> CHR 0x00 | Some x \<Rightarrow> x) cs)"

text \<open>The bytes that the appended text overwrites start at the last byte of the old memory.\<close>

definition talloc_vasprintf_append ::
    "(nat \<Rightarrow> ptr \<Rightarrow> theap \<Rightarrow> bool \<times> theap) \<Rightarrow> ptr \<Rightarrow> nat \<Rightarrow> ptr \<Rightarrow> ptr \<Rightarrow> string \<Rightarrow> theap \<Rightarrow> (ptr \<times> theap) outcome option" where
  "talloc_vasprintf_append dtor nullctx fuel m s text h =
     (if s = 0 then Some (talloc_vasprintf nullctx m 0 text h)
      else
        bind_run (Some (talloc_chunk_from_ptr h s)) (\<lambda>tc.
          let s_len = ucast (t_size tc) - 1 :: u32 in
          bind_run (talloc_realloc_array dtor nullctx fuel m 0 s 1 (s_len + word_of_nat (length text) + 1) (Name ''char'') h)
            (\<lambda>(p, h).
               if p = 0 then Some (Ok (0, h))
               else
                 let cs = take (unat s_len) (t_contents (ch h p)) @ map Some (text @ [CHR 0x00]) in
                 bind_run (Some (talloc_set_name_const p (Name (text_of cs)) (memset_chunk p cs h)))
                   (\<lambda>h. Some (Ok (p, h))))))"

section \<open>Counting\<close>

text \<open>A chunk and the chunks behind it in its list of siblings are visited by two functions that call each other, with fuel.\<close>

fun total_size :: "nat \<Rightarrow> theap \<Rightarrow> ptr \<Rightarrow> int outcome option"
and total_size_list :: "nat \<Rightarrow> theap \<Rightarrow> ptr \<Rightarrow> int outcome option"
where
  "total_size 0 h p = None"
| "total_size (Suc n) h p =
     bind_run (Some (talloc_chunk_from_ptr h p)) (\<lambda>tc.
       bind_run (total_size_list n h (t_child tc)) (\<lambda>k. Some (Ok (uint (t_size tc) + k))))"
| "total_size_list 0 h c = None"
| "total_size_list (Suc n) h c =
     (if c = 0 then Some (Ok 0)
      else
        bind_run (total_size n h c) (\<lambda>k.
          bind_run (total_size_list n h (t_next (ch h c))) (\<lambda>j. Some (Ok (k + j)))))"

definition talloc_total_size :: "ptr \<Rightarrow> nat \<Rightarrow> theap \<Rightarrow> ptr \<Rightarrow> int outcome option" where
  "talloc_total_size nullctx n h p =
     (let p = (if p = 0 then nullctx else p) in if p = 0 then Some (Ok 0) else total_size n h p)"

fun talloc_total_blocks :: "nat \<Rightarrow> theap \<Rightarrow> ptr \<Rightarrow> int outcome option"
and total_blocks_list :: "nat \<Rightarrow> theap \<Rightarrow> ptr \<Rightarrow> int outcome option"
where
  "talloc_total_blocks 0 h p = None"
| "talloc_total_blocks (Suc n) h p =
     bind_run (Some (talloc_chunk_from_ptr h p)) (\<lambda>tc.
       bind_run (total_blocks_list n h (t_child tc)) (\<lambda>k. Some (Ok (1 + k))))"
| "total_blocks_list 0 h c = None"
| "total_blocks_list (Suc n) h c =
     (if c = 0 then Some (Ok 0)
      else
        bind_run (talloc_total_blocks n h c) (\<lambda>k.
          bind_run (total_blocks_list n h (t_next (ch h c))) (\<lambda>j. Some (Ok (k + j)))))"

fun reference_count :: "nat \<Rightarrow> theap \<Rightarrow> ptr \<Rightarrow> int option" where
  "reference_count 0 h hdl = None"
| "reference_count (Suc n) h hdl =
     (if hdl = 0 then Some 0 else map_option (\<lambda>k. k + 1) (reference_count n h (h_next (ch h hdl))))"

definition talloc_reference_count :: "nat \<Rightarrow> theap \<Rightarrow> ptr \<Rightarrow> int outcome option" where
  "talloc_reference_count n h p =
     bind_run (Some (talloc_chunk_from_ptr h p)) (\<lambda>tc. map_option Ok (reference_count n h (t_refs tc)))"

text \<open>The lines of a report, before they are formatted: depth and name, and total size, blocks and references.\<close>

datatype report_line = Reference_to int string | Contains int string int int int

fun talloc_report_depth :: "nat \<Rightarrow> theap \<Rightarrow> ptr \<Rightarrow> int \<Rightarrow> report_line list outcome option"
and report_list :: "nat \<Rightarrow> theap \<Rightarrow> ptr \<Rightarrow> int \<Rightarrow> report_line list outcome option"
where
  "talloc_report_depth 0 h p depth = None"
| "talloc_report_depth (Suc n) h p depth =
     bind_run (Some (talloc_chunk_from_ptr h p)) (\<lambda>tc. report_list n h (t_child tc) depth)"
| "report_list 0 h c depth = None"
| "report_list (Suc n) h c depth =
     (if c = 0 then Some (Ok [])
      else
        bind_run
          (if t_name (ch h c) = Magic_reference then
             bind_run (Some (talloc_get_name h (h_ptr (ch h c)))) (\<lambda>name2. Some (Ok [Reference_to depth name2]))
           else
             bind_run (Some (talloc_get_name h c)) (\<lambda>name.
             bind_run (total_size n h c) (\<lambda>sz.
             bind_run (talloc_total_blocks n h c) (\<lambda>blocks.
             bind_run (talloc_reference_count n h c) (\<lambda>refs.
             bind_run (talloc_report_depth n h c (depth + 1)) (\<lambda>below.
               Some (Ok (Contains depth name sz blocks refs # below))))))))
          (\<lambda>ls. bind_run (report_list n h (t_next (ch h c)) depth) (\<lambda>ls'. Some (Ok (ls @ ls')))))"

text \<open>The full report: the header line (name, size, blocks) and the lines below it.\<close>

definition talloc_report_full :: "ptr \<Rightarrow> nat \<Rightarrow> theap \<Rightarrow> ptr \<Rightarrow> ((string \<times> int \<times> int) \<times> report_line list) option outcome option" where
  "talloc_report_full nullctx n h p =
     (let p = (if p = 0 then nullctx else p) in
      if p = 0 then Some (Ok None)
      else
        bind_run (Some (talloc_get_name h p)) (\<lambda>name.
        bind_run (total_size n h p) (\<lambda>sz.
        bind_run (talloc_total_blocks n h p) (\<lambda>blocks.
        bind_run (talloc_report_depth n h p 1) (\<lambda>ls. Some (Ok (Some ((name, sz, blocks), ls))))))))"

definition talloc_enable_null_tracking :: "ptr \<Rightarrow> ptr \<Rightarrow> theap \<Rightarrow> (ptr \<times> theap) outcome" where
  "talloc_enable_null_tracking nullctx m h =
     (if nullctx = 0 then talloc_named_const 0 m 0 0 (Name ''null_context'') h else Ok (nullctx, h))"

definition talloc_autofree_context :: "ptr \<Rightarrow> ptr \<Rightarrow> ptr \<Rightarrow> theap \<Rightarrow> (ptr \<times> theap) outcome" where
  "talloc_autofree_context nullctx cleanup_context m h =
     (if cleanup_context = 0 then talloc_named_const nullctx m 0 0 (Name ''autofree_context'') h else Ok (cleanup_context, h))"

end
