(* ===== verification/Talloc_Trees.thy ===== *)
theory Talloc_Trees
  imports Talloc
begin

text \<open>
  The links of the allocator form trees. \<open>rep\<close> relates a heap to the lists of children of its chunks; the operations are
  shown to act on these lists as their names say: allocation puts a chunk in front of the children of its
  context, stealing moves a chunk, freeing removes exactly the chunk and its descendants, with enough fuel for
  the recursion.
\<close>

section \<open>Stores\<close>

lemma upd_None [simp]: "upd p f h q = None \<longleftrightarrow> h q = None"
  by (simp add: upd_def split: option.split)

lemma ch_upd [simp]: "ch (upd p f h) q = (if q = p \<and> h p \<noteq> None then f (ch h p) else ch h q)"
  by (simp add: upd_def ch_def split: option.split)

lemma ch_fun_upd: "ch (h(p := x)) q = (if q = p then (case x of Some c \<Rightarrow> c | None \<Rightarrow> null_chunk) else ch h q)"
  by (simp add: ch_def)

text \<open>The fields that are not links.\<close>

definition payload :: "talloc_chunk \<Rightarrow> _" where
  "payload c = (t_refs c, t_size c, t_destructor c, t_name c, t_contents c, h_next c, h_prev c, h_ptr c)"

lemma payload_links [simp]:
  "payload (c\<lparr>t_next := x\<rparr>) = payload c" "payload (c\<lparr>t_prev := x\<rparr>) = payload c" "payload (c\<lparr>t_parent := x\<rparr>) = payload c"
  "payload (c\<lparr>t_child := x\<rparr>) = payload c" "payload (c\<lparr>t_next := x, t_prev := y\<rparr>) = payload c"
  "payload (c\<lparr>t_parent := x, t_next := y, t_prev := z\<rparr>) = payload c"
  by (simp_all add: payload_def)

text \<open>Two heaps with the same chunks that differ at most in links.\<close>

definition same_chunks :: "theap \<Rightarrow> theap \<Rightarrow> bool" where
  "same_chunks h h' \<longleftrightarrow> (\<forall>a. (h' a = None) = (h a = None) \<and> payload (ch h' a) = payload (ch h a))"

lemma same_chunks_refl [simp]: "same_chunks h h"
  by (simp add: same_chunks_def)

lemma same_chunks_trans: "same_chunks h h' \<Longrightarrow> same_chunks h' h'' \<Longrightarrow> same_chunks h h''"
  by (simp add: same_chunks_def)

lemma same_chunks_upd: "(\<And>c. payload (f c) = payload c) \<Longrightarrow> same_chunks h h' \<Longrightarrow> same_chunks h (upd p f h')"
  by (simp add: same_chunks_def)

lemma same_chunks_ops:
  "same_chunks h (relink p h)" "same_chunks h (tlist_add q p h)" "same_chunks h (tlist_remove q p h)" "same_chunks h (detach p h)"
proof -
  show r: "same_chunks h (relink p h)" for h
    by (auto simp: relink_def Let_def intro!: same_chunks_upd)
  show "same_chunks h (tlist_add q p h)"
    by (auto simp: tlist_add_def Let_def intro!: same_chunks_upd)
  show t: "same_chunks h (tlist_remove q p h)" for q
    unfolding tlist_remove_def Let_def by (auto intro!: same_chunks_upd r)
  show "same_chunks h (detach p h)"
    unfolding detach_def Let_def using r t by (auto intro!: same_chunks_upd)
qed

section \<open>Lists of siblings\<close>

definition first :: "ptr list \<Rightarrow> ptr \<Rightarrow> ptr" where
  "first xs d = hd (xs @ [d])"

lemma first_simps [simp]: "first [] d = d" "first (x # xs) d = x"
  by (simp_all add: first_def)

lemma first_append: "first (xs @ ys) d = first xs (first ys d)"
  by (cases xs) simp_all

fun sibs :: "theap \<Rightarrow> ptr \<Rightarrow> ptr \<Rightarrow> ptr list \<Rightarrow> ptr \<Rightarrow> bool" where
  "sibs h own prv [] nx = True"
| "sibs h own prv (a # as) nx \<longleftrightarrow>
     a \<noteq> 0 \<and> h a \<noteq> None \<and> t_prev (ch h a) = prv \<and> t_next (ch h a) = first as nx \<and>
     t_parent (ch h a) = (if prv = 0 then own else 0) \<and> sibs h own a as nx"

definition links :: "theap \<Rightarrow> ptr \<Rightarrow> bool \<times> ptr \<times> ptr \<times> ptr" where
  "links h a = (h a = None, t_prev (ch h a), t_next (ch h a), t_parent (ch h a))"

lemma sibs_cong: "(\<And>a. a \<in> set xs \<Longrightarrow> links h' a = links h a) \<Longrightarrow> sibs h' own prv xs nx = sibs h own prv xs nx"
  by (induction xs arbitrary: prv) (auto simp: links_def)

lemma sibs_append: "sibs h own prv (xs @ ys) nx \<longleftrightarrow> sibs h own prv xs (first ys nx) \<and> sibs h own (last (prv # xs)) ys nx"
  by (induction xs arbitrary: prv) (auto simp: first_append)

lemma sibs_live: "sibs h own prv xs nx \<Longrightarrow> a \<in> set xs \<Longrightarrow> a \<noteq> 0 \<and> h a \<noteq> None"
  by (induction xs arbitrary: prv) auto

section \<open>Heaps and their trees\<close>

definition krel :: "(ptr \<Rightarrow> ptr list) \<Rightarrow> (ptr \<times> ptr) set" where
  "krel kids = {(c, p). c \<in> set (kids p)}"

definition root :: "(ptr \<Rightarrow> ptr list) \<Rightarrow> ptr \<Rightarrow> bool" where
  "root kids a \<longleftrightarrow> (\<forall>p. a \<notin> set (kids p))"

text \<open>The chunks of \<open>X\<close> may have stale links while they are in no list.\<close>

definition rep :: "ptr set \<Rightarrow> theap \<Rightarrow> (ptr \<Rightarrow> ptr list) \<Rightarrow> bool" where
  "rep X h kids \<longleftrightarrow>
     (\<forall>p. h p \<noteq> None \<longrightarrow> p \<noteq> 0 \<and> t_child (ch h p) = first (kids p) 0 \<and> sibs h p 0 (kids p) 0) \<and>
     (\<forall>p. h p = None \<longrightarrow> kids p = []) \<and>
     (\<forall>p. distinct (kids p)) \<and>
     (\<forall>p q a. a \<in> set (kids p) \<longrightarrow> a \<in> set (kids q) \<longrightarrow> p = q) \<and>
     (\<forall>a. h a \<noteq> None \<longrightarrow> root kids a \<longrightarrow> a \<notin> X \<longrightarrow> t_next (ch h a) = 0 \<and> t_prev (ch h a) = 0 \<and> t_parent (ch h a) = 0) \<and>
     acyclic (krel kids)"

lemma repI:
  assumes "\<And>p. h p \<noteq> None \<Longrightarrow> p \<noteq> 0 \<and> t_child (ch h p) = first (kids p) 0 \<and> sibs h p 0 (kids p) 0"
    and "\<And>p. h p = None \<Longrightarrow> kids p = []" "\<And>p. distinct (kids p)"
    and "\<And>p q a. a \<in> set (kids p) \<Longrightarrow> a \<in> set (kids q) \<Longrightarrow> p = q"
    and "\<And>a. h a \<noteq> None \<Longrightarrow> root kids a \<Longrightarrow> a \<notin> X \<Longrightarrow> t_next (ch h a) = 0 \<and> t_prev (ch h a) = 0 \<and> t_parent (ch h a) = 0"
    and "acyclic (krel kids)"
  shows "rep X h kids"
  using assms unfolding rep_def by blast

lemma repD:
  assumes "rep X h kids"
  shows "h p \<noteq> None \<Longrightarrow> p \<noteq> 0" "h p \<noteq> None \<Longrightarrow> t_child (ch h p) = first (kids p) 0"
    "h p \<noteq> None \<Longrightarrow> sibs h p 0 (kids p) 0" "h p = None \<Longrightarrow> kids p = []" "distinct (kids p)"
    "a \<in> set (kids p) \<Longrightarrow> a \<in> set (kids q) \<Longrightarrow> p = q"
    "h a \<noteq> None \<Longrightarrow> root kids a \<Longrightarrow> a \<notin> X \<Longrightarrow> t_next (ch h a) = 0 \<and> t_prev (ch h a) = 0 \<and> t_parent (ch h a) = 0"
    "acyclic (krel kids)"
  using assms unfolding rep_def by blast+

lemma rep_kid:
  assumes "rep X h kids" "a \<in> set (kids p)"
  shows "h p \<noteq> None" "h a \<noteq> None" "a \<noteq> 0" "p \<noteq> 0" "a \<noteq> p"
proof -
  show p: "h p \<noteq> None" using repD(4) [OF assms(1), of p] assms(2) by (cases "h p = None") auto
  then show "p \<noteq> 0" by (rule repD(1) [OF assms(1)])
  show "h a \<noteq> None" "a \<noteq> 0" using sibs_live [OF repD(3) [OF assms(1) p] assms(2)] by auto
  show "a \<noteq> p"
    using repD(8) [OF assms(1)] assms(2) by (auto simp: acyclic_def krel_def)
qed

lemma rep_fresh:
  assumes "rep X h kids" "h m = None" "m \<noteq> 0" "t_next c = 0" "t_prev c = 0" "t_parent c = 0" "t_child c = 0"
  shows "rep X (h(m \<mapsto> c)) kids"
proof (rule repI)
  fix p assume p: "(h(m \<mapsto> c)) p \<noteq> None"
  have notin: "m \<notin> set (kids q)" for q using rep_kid [OF assms(1)] assms(2) by blast
  have "sibs (h(m \<mapsto> c)) p 0 (kids p) 0 = sibs h p 0 (kids p) 0"
    using notin by (intro sibs_cong) (auto simp: links_def ch_fun_upd)
  then show "p \<noteq> 0 \<and> t_child (ch (h(m \<mapsto> c)) p) = first (kids p) 0 \<and> sibs (h(m \<mapsto> c)) p 0 (kids p) 0"
    using p assms repD(1-4) [OF assms(1), of p] by (auto simp: ch_fun_upd split: if_splits)
next
  fix a assume "(h(m \<mapsto> c)) a \<noteq> None" "root kids a" "a \<notin> X"
  then show "t_next (ch (h(m \<mapsto> c)) a) = 0 \<and> t_prev (ch (h(m \<mapsto> c)) a) = 0 \<and> t_parent (ch (h(m \<mapsto> c)) a) = 0"
    using assms repD(7) [OF assms(1), of a] by (auto simp: ch_fun_upd split: if_splits)
qed (use repD(4-6,8) [OF assms(1)] in \<open>auto split: if_splits\<close>)

section \<open>Adding a child\<close>

definition add_front :: "ptr \<Rightarrow> ptr \<Rightarrow> theap \<Rightarrow> theap" where
  "add_front owner m h =
     (let h = upd m (\<lambda>c. c\<lparr>t_parent := owner\<rparr>) h;
          old = t_child (ch h owner);
          h = (if old \<noteq> 0 then upd old (\<lambda>c. c\<lparr>t_parent := 0\<rparr>) h else h)
      in tlist_add owner m h)"

lemma ch_add_front:
  assumes "h m \<noteq> None" "h owner \<noteq> None" "m \<noteq> owner" "x = t_child (ch h owner)" "x \<noteq> owner" "x \<noteq> m" "x \<noteq> 0 \<Longrightarrow> h x \<noteq> None"
  shows "ch (add_front owner m h) a =
    (if a = m then (ch h a)\<lparr>t_parent := owner, t_next := x, t_prev := 0\<rparr>
     else if a = owner then (ch h a)\<lparr>t_child := m\<rparr>
     else if a = x \<and> x \<noteq> 0 then (ch h a)\<lparr>t_parent := 0, t_prev := m\<rparr>
     else ch h a)"
  using assms by (cases "x = 0") (simp_all add: add_front_def tlist_add_def Let_def)

lemma dom_add_front: "add_front owner m h a = None \<longleftrightarrow> h a = None"
  by (simp add: add_front_def tlist_add_def Let_def)

lemma same_chunks_add_front: "same_chunks h (add_front owner m h)"
proof -
  have "same_chunks h (if b then upd q (\<lambda>c. c\<lparr>t_parent := 0\<rparr>) (upd m (\<lambda>c. c\<lparr>t_parent := owner\<rparr>) h)
      else upd m (\<lambda>c. c\<lparr>t_parent := owner\<rparr>) h)" for b q
    by (auto intro!: same_chunks_upd)
  then show ?thesis
    unfolding add_front_def Let_def by (rule same_chunks_trans) (rule same_chunks_ops)
qed

lemma rep_add:
  assumes r: "rep {m} h kids" and m: "h m \<noteq> None" "root kids m" and o: "h owner \<noteq> None"
    and acyc: "(owner, m) \<notin> (krel kids)\<^sup>*"
  shows "rep {} (add_front owner m h) (kids(owner := m # kids owner))"
proof -
  define x where "x = t_child (ch h owner)"
  define h' where "h' = add_front owner m h"
  have mo: "m \<noteq> owner" using acyc by auto
  have m0: "m \<noteq> 0" using repD(1) [OF r m(1)] .
  have x: "x = first (kids owner) 0" using repD(2) [OF r o] by (simp add: x_def)
  have xk: "x \<in> set (kids owner)" if "x \<noteq> 0" using that x by (cases "kids owner") auto
  have x': "x \<noteq> owner" "x \<noteq> m" "x \<noteq> 0 \<Longrightarrow> h x \<noteq> None"
    using xk rep_kid [OF r, of x owner] m(2) m0 repD(1) [OF r o] unfolding root_def by metis+
  have ch: "ch h' a =
    (if a = m then (ch h a)\<lparr>t_parent := owner, t_next := x, t_prev := 0\<rparr>
     else if a = owner then (ch h a)\<lparr>t_child := m\<rparr>
     else if a = x \<and> x \<noteq> 0 then (ch h a)\<lparr>t_parent := 0, t_prev := m\<rparr>
     else ch h a)" for a
    unfolding h'_def using m(1) o mo x_def x' by (rule ch_add_front)
  have dom: "h' a = None \<longleftrightarrow> h a = None" for a by (simp add: h'_def dom_add_front)
  have elsewhere: "sibs h' p 0 (kids p) 0" if p: "h p \<noteq> None" "p \<noteq> owner" for p
  proof -
    have "x \<notin> set (kids p)" if "x \<noteq> 0"
      using that x p(2) repD(6) [OF r, of x p owner] by (cases "kids owner") auto
    then have "sibs h' p 0 (kids p) 0 = sibs h p 0 (kids p) 0"
      using m(2) rep_kid(3) [OF r] by (intro sibs_cong) (auto simp: links_def ch dom root_def)
    then show ?thesis using repD(3) [OF r p(1)] by simp
  qed
  have "sibs h' owner m (kids owner) 0"
  proof (cases "kids owner")
    case (Cons y ys)
    have "m \<notin> set (kids owner)" using m(2) by (simp add: root_def)
    then have "sibs h' owner y ys 0 = sibs h owner y ys 0"
      using repD(5) [OF r, of owner] Cons x
      by (intro sibs_cong) (auto simp: links_def ch dom)
    then show ?thesis using repD(3) [OF r o] Cons x x' m0 by (auto simp: ch dom)
  qed simp
  then have here: "sibs h' owner 0 (m # kids owner) 0"
    using m(1) m0 x by (simp add: ch dom)
  have notin: "m \<notin> set (kids p)" for p using m(2) by (simp add: root_def)
  show ?thesis
    unfolding h'_def [symmetric]
  proof (rule repI)
    fix p assume "h' p \<noteq> None"
    then show "p \<noteq> 0 \<and> t_child (ch h' p) = first ((kids(owner := m # kids owner)) p) 0 \<and> sibs h' p 0 ((kids(owner := m # kids owner)) p) 0"
      using here elsewhere repD(1,2) [OF r, of p] mo by (auto simp: dom ch)
  next
    fix p assume "h' p = None"
    then show "(kids(owner := m # kids owner)) p = []" using repD(4) [OF r, of p] o by (auto simp: dom)
  next
    fix p show "distinct ((kids(owner := m # kids owner)) p)" using repD(5) [OF r] notin by simp
  next
    fix p q a
    show "a \<in> set ((kids(owner := m # kids owner)) p) \<Longrightarrow> a \<in> set ((kids(owner := m # kids owner)) q) \<Longrightarrow> p = q"
      using repD(6) [OF r] notin by (auto split: if_splits)
  next
    fix a assume "h' a \<noteq> None" and ra: "root (kids(owner := m # kids owner)) a"
    then have a: "h a \<noteq> None" "a \<noteq> m" "root kids a" "a \<notin> set (kids owner)"
      by (auto simp: dom root_def split: if_splits)
    then have "a = x \<Longrightarrow> x = 0" using x by (cases "kids owner") auto
    then show "t_next (ch h' a) = 0 \<and> t_prev (ch h' a) = 0 \<and> t_parent (ch h' a) = 0"
      using repD(7) [OF r a(1,3)] a(2) by (auto simp: ch)
  next
    have "krel (kids(owner := m # kids owner)) = insert (m, owner) (krel kids)"
      by (auto simp: krel_def split: if_splits)
    then show "acyclic (krel (kids(owner := m # kids owner)))"
      using repD(8) [OF r] acyc by (simp add: acyclic_insert)
  qed
qed

section \<open>Taking a child out\<close>

lemma dom_detach: "detach p h a = None \<longleftrightarrow> h a = None"
  using same_chunks_ops(4) [of h p] by (simp add: same_chunks_def)

lemma ch_detach_first:
  assumes "t_parent (ch h a) = p" "t_child (ch h p) = a" "t_next (ch h a) = v" "p \<noteq> 0" "a \<noteq> p" "v \<noteq> a" "v \<noteq> p" "a \<noteq> 0"
    "h a \<noteq> None" "h p \<noteq> None" "v \<noteq> 0 \<Longrightarrow> h v \<noteq> None"
  shows "ch (detach a h) q =
    (if q = a then (ch h q)\<lparr>t_next := 0, t_prev := 0\<rparr>
     else if q = p then (ch h q)\<lparr>t_child := v\<rparr>
     else if q = v \<and> v \<noteq> 0 then (ch h q)\<lparr>t_prev := 0, t_parent := p\<rparr>
     else ch h q)"
  using assms by (cases "v = 0") (simp_all add: detach_def tlist_remove_def Let_def)

lemma ch_detach_later:
  assumes "t_parent (ch h a) = 0" "t_prev (ch h a) = u" "t_next (ch h a) = v" "u \<noteq> 0" "u \<noteq> a" "v \<noteq> a" "u \<noteq> v"
    "h u \<noteq> None" "v \<noteq> 0 \<Longrightarrow> h v \<noteq> None"
  shows "ch (detach a h) q =
    (if q = u then (ch h q)\<lparr>t_next := v\<rparr> else if q = v \<and> v \<noteq> 0 then (ch h q)\<lparr>t_prev := u\<rparr> else ch h q)"
  using assms by (cases "v = 0") (simp_all add: detach_def relink_def Let_def)

lemma sibs_detach_later:
  assumes s: "sibs h p 0 (us @ a # vs) 0" and d: "distinct (us @ a # vs)" and us: "us \<noteq> []"
  shows "sibs (detach a h) p 0 (us @ vs) 0 \<and>
         (\<forall>q. q \<notin> set (us @ a # vs) \<longrightarrow> links (detach a h) q = links h q) \<and> (\<forall>q. t_child (ch (detach a h) q) = t_child (ch h q))"
proof -
  obtain us' u where u: "us = us' @ [u]" using us by (cases us rule: rev_cases) auto
  define v where "v = first vs 0"
  have live: "u \<noteq> 0" "h u \<noteq> None" "v \<noteq> 0 \<Longrightarrow> h v \<noteq> None"
    using s u by (auto simp: sibs_append v_def) (cases vs; auto)
  have vk: "v \<noteq> 0 \<Longrightarrow> v \<in> set vs" by (cases vs) (auto simp: v_def)
  have sibs: "sibs h p 0 us' u" "t_prev (ch h u) = last (0 # us')" "t_parent (ch h u) = (if last (0 # us') = 0 then p else 0)"
    "t_prev (ch h a) = u" "t_next (ch h a) = v" "t_parent (ch h a) = 0" "sibs h p a vs 0" "a \<noteq> 0"
    using s live(1) by (simp_all add: u sibs_append v_def)
  have ne: "u \<noteq> a" "v \<noteq> a" "u \<noteq> v" using d vk sibs(8) live(1) u by auto
  have ch: "ch (detach a h) q =
    (if q = u then (ch h q)\<lparr>t_next := v\<rparr> else if q = v \<and> v \<noteq> 0 then (ch h q)\<lparr>t_prev := u\<rparr> else ch h q)" for q
    using sibs(6,4,5) live(1) ne live(2,3) by (rule ch_detach_later)
  have "sibs (detach a h) p 0 us' u = sibs h p 0 us' u"
    using d u vk by (intro sibs_cong) (auto simp: links_def ch dom_detach)
  moreover have "sibs (detach a h) p u vs 0"
  proof (cases vs)
    case (Cons w ws)
    have "sibs (detach a h) p w ws 0 = sibs h p w ws 0"
      using d u Cons by (intro sibs_cong) (auto simp: links_def ch dom_detach v_def)
    then show ?thesis using sibs(7,8) Cons live(1) d u by (auto simp: ch dom_detach v_def)
  qed simp
  ultimately have "sibs (detach a h) p 0 (us @ vs) 0"
    using sibs(1,2,3) live ne by (simp add: u sibs_append ch dom_detach v_def)
  moreover have "links (detach a h) q = links h q" if "q \<notin> set (us @ a # vs)" for q
    using that vk u by (auto simp: links_def ch dom_detach)
  ultimately show ?thesis by (auto simp: ch)
qed

lemma sibs_detach_first:
  assumes s: "sibs h p 0 (a # vs) 0" and d: "distinct (a # vs)" "p \<notin> set (a # vs)" and p: "p \<noteq> 0" "h p \<noteq> None" "t_child (ch h p) = a"
  shows "sibs (detach a h) p 0 vs 0 \<and>
         (\<forall>q. q \<notin> set (a # vs) \<longrightarrow> links (detach a h) q = links h q) \<and>
         (\<forall>q. t_child (ch (detach a h) q) = (if q = p then first vs 0 else t_child (ch h q)))"
proof -
  define v where "v = first vs 0"
  have live: "v \<noteq> 0 \<Longrightarrow> h v \<noteq> None" "a \<noteq> 0" "h a \<noteq> None" using s by (cases vs; auto simp: v_def)+
  have vk: "v \<noteq> 0 \<Longrightarrow> v \<in> set vs" by (cases vs) (auto simp: v_def)
  have sibs: "t_parent (ch h a) = p" "t_next (ch h a) = v" "sibs h p a vs 0" using s by (simp_all add: v_def)
  have ne: "a \<noteq> p" "v \<noteq> a" "v \<noteq> p" using d vk live p by auto
  have ch: "ch (detach a h) q =
    (if q = a then (ch h q)\<lparr>t_next := 0, t_prev := 0\<rparr>
     else if q = p then (ch h q)\<lparr>t_child := v\<rparr>
     else if q = v \<and> v \<noteq> 0 then (ch h q)\<lparr>t_prev := 0, t_parent := p\<rparr>
     else ch h q)" for q
    using sibs(1) p(3) sibs(2) p(1) ne live(2,3) p(2) live(1) by (rule ch_detach_first)
  have "sibs (detach a h) p 0 vs 0"
  proof (cases vs)
    case (Cons w ws)
    have "sibs (detach a h) p w ws 0 = sibs h p w ws 0"
      using d Cons by (intro sibs_cong) (auto simp: links_def ch dom_detach v_def)
    then show ?thesis using sibs(3) Cons live(2) d by (auto simp: ch dom_detach v_def)
  qed simp
  moreover have "links (detach a h) q = links h q" if "q \<notin> set (a # vs)" for q
    using that vk by (auto simp: links_def ch dom_detach)
  ultimately show ?thesis using ne by (auto simp: ch v_def)
qed

lemma detach_lists:
  assumes r: "rep X h kids" and a: "a \<in> set (kids p)"
  shows "sibs (detach a h) p 0 (remove1 a (kids p)) 0" "\<And>q. q \<notin> set (kids p) \<Longrightarrow> links (detach a h) q = links h q"
    "\<And>q. t_child (ch (detach a h) q) = (if q = p then first (remove1 a (kids p)) 0 else t_child (ch h q))"
proof -
  note live = rep_kid [OF r a]
  obtain us vs where k: "kids p = us @ a # vs" "a \<notin> set us" using a by (metis split_list_first)
  have rem: "remove1 a (kids p) = us @ vs" using k by (simp add: remove1_append)
  have d: "distinct (us @ a # vs)" using repD(5) [OF r, of p] k by simp
  have s: "sibs h p 0 (us @ a # vs) 0" and c: "t_child (ch h p) = first (us @ a # vs) 0"
    using repD(2,3) [OF r live(1)] k by simp_all
  have pk: "p \<notin> set (us @ a # vs)" using rep_kid(5) [OF r, of p p] k by auto
  consider "us = []" | "us \<noteq> []" by blast
  then have "sibs (detach a h) p 0 (us @ vs) 0 \<and> (\<forall>q. q \<notin> set (us @ a # vs) \<longrightarrow> links (detach a h) q = links h q) \<and>
      (\<forall>q. t_child (ch (detach a h) q) = (if q = p then first (us @ vs) 0 else t_child (ch h q)))"
  proof cases
    case 1
    then show ?thesis using sibs_detach_first [of h p a vs] s d pk live(1,4) c by simp
  next
    case 2
    then have "first (us @ vs) 0 = first (us @ a # vs) 0" by (cases us) simp_all
    then show ?thesis using sibs_detach_later [OF s d 2] c by simp
  qed
  then show "sibs (detach a h) p 0 (remove1 a (kids p)) 0" "\<And>q. q \<notin> set (kids p) \<Longrightarrow> links (detach a h) q = links h q"
    "\<And>q. t_child (ch (detach a h) q) = (if q = p then first (remove1 a (kids p)) 0 else t_child (ch h q))"
    unfolding rem using k(1) by simp_all
qed

lemma krel_remove1: "krel (kids(p := remove1 a (kids p))) \<subseteq> krel kids"
  using set_remove1_subset by (fastforce simp: krel_def split: if_splits)

lemma rep_detach:
  assumes r: "rep {} h kids" and a: "a \<in> set (kids p)"
  shows "rep {a} (detach a h) (kids(p := remove1 a (kids p)))"
proof (rule repI)
  note ls = detach_lists [OF r a]
  note sub = set_remove1_subset [of a "kids p"]
  fix q assume "detach a h q \<noteq> None"
  then have q: "h q \<noteq> None" by (simp add: dom_detach)
  have "sibs (detach a h) q 0 (kids q) 0" if "q \<noteq> p"
  proof -
    have "sibs (detach a h) q 0 (kids q) 0 = sibs h q 0 (kids q) 0"
      using repD(6) [OF r] that by (intro sibs_cong ls(2)) blast
    then show ?thesis using repD(3) [OF r q] by simp
  qed
  then show "q \<noteq> 0 \<and> t_child (ch (detach a h) q) = first ((kids(p := remove1 a (kids p))) q) 0 \<and>
      sibs (detach a h) q 0 ((kids(p := remove1 a (kids p))) q) 0"
    using ls(1,3) repD(1,2) [OF r q] by auto
next
  fix q assume "detach a h q = None"
  then show "(kids(p := remove1 a (kids p))) q = []"
    using repD(4) [OF r, of q] repD(4) [OF r, of p] by (auto simp: dom_detach)
next
  fix q show "distinct ((kids(p := remove1 a (kids p))) q)" using repD(5) [OF r] by simp
next
  fix q q' b
  assume "b \<in> set ((kids(p := remove1 a (kids p))) q)" "b \<in> set ((kids(p := remove1 a (kids p))) q')"
  then have "b \<in> set (kids q)" "b \<in> set (kids q')" using set_remove1_subset [of a "kids p"] by (auto split: if_splits)
  then show "q = q'" by (rule repD(6) [OF r])
next
  fix b assume b: "detach a h b \<noteq> None" "root (kids(p := remove1 a (kids p))) b" "b \<notin> {a}"
  have "b \<notin> set (kids q)" for q
  proof -
    have "b \<notin> set ((kids(p := remove1 a (kids p))) q)" using b(2) unfolding root_def by blast
    then show ?thesis using b(3) in_set_remove1 [of b a "kids p"] by (cases "q = p") simp_all
  qed
  then have "root kids b" "b \<notin> set (kids p)" by (auto simp: root_def)
  then have "links (detach a h) b = links h b" "t_next (ch h b) = 0 \<and> t_prev (ch h b) = 0 \<and> t_parent (ch h b) = 0"
    using detach_lists(2) [OF r a] repD(7) [OF r, of b] b(1) by (auto simp: dom_detach)
  then show "t_next (ch (detach a h) b) = 0 \<and> t_prev (ch (detach a h) b) = 0 \<and> t_parent (ch (detach a h) b) = 0"
    by (simp add: links_def)
next
  show "acyclic (krel (kids(p := remove1 a (kids p))))"
    using repD(8) [OF r] krel_remove1 by (rule acyclic_subset)
qed

text \<open>Taking a chunk out of whatever list it is in; a root is in none.\<close>

definition without :: "(ptr \<Rightarrow> ptr list) \<Rightarrow> ptr \<Rightarrow> ptr \<Rightarrow> ptr list" where
  "without kids a q = remove1 a (kids q)"

lemma rep_weaken: "rep X h kids \<Longrightarrow> X \<subseteq> Y \<Longrightarrow> rep Y h kids"
  unfolding rep_def by blast

lemma rep_without:
  assumes r: "rep {} h kids" and a: "h a \<noteq> None"
  shows "rep {a} (detach a h) (without kids a) \<and> root (without kids a) a"
proof (cases "root kids a")
  case True
  then have z: "t_next (ch h a) = 0" "t_prev (ch h a) = 0" "t_parent (ch h a) = 0"
    using repD(7) [OF r a] by auto
  then have "detach a h = h" by (simp add: detach_def relink_def Let_def)
  moreover have "without kids a = kids" using True by (auto simp: without_def root_def remove1_idem)
  ultimately show ?thesis using True rep_weaken [OF r] by auto
next
  case False
  then obtain p where p: "a \<in> set (kids p)" by (auto simp: root_def)
  then have "remove1 a (kids q) = kids q" if "q \<noteq> p" for q
    using that repD(6) [OF r, of a q p] by (auto intro: remove1_idem)
  then have w: "without kids a = kids(p := remove1 a (kids p))" by (auto simp: without_def)
  moreover have "root (without kids a) a"
    unfolding root_def without_def using repD(5) [OF r] by simp
  ultimately show ?thesis using rep_detach [OF r p] by simp
qed

lemma rep_clear:
  assumes r: "rep {a} h kids" and a: "root kids a"
  shows "rep {} (upd a (\<lambda>c. c\<lparr>t_parent := 0, t_next := 0, t_prev := 0\<rparr>) h) kids"
proof -
  let ?h = "upd a (\<lambda>c. c\<lparr>t_parent := 0, t_next := 0, t_prev := 0\<rparr>) h"
  have "sibs ?h p 0 (kids p) 0 = sibs h p 0 (kids p) 0" for p
    using a by (intro sibs_cong) (auto simp: links_def root_def)
  moreover have "t_next (ch ?h b) = 0 \<and> t_prev (ch ?h b) = 0 \<and> t_parent (ch ?h b) = 0" if "h b \<noteq> None" "root kids b" for b
    using repD(7) [OF r that] that(1) by (cases "b = a") (simp_all del: not_None_eq)
  moreover have "t_child (ch ?h p) = t_child (ch h p)" for p by simp
  ultimately show ?thesis
    using repD(1-6,8) [OF r] by (intro repI) (simp only: upd_None simp_thms | blast)+
qed

lemma rep_delete:
  assumes r: "rep {a} h kids" and a: "root kids a" "kids a = []"
  shows "rep {} (h(a := None)) kids"
proof -
  have s: "sibs (h(a := None)) p 0 (kids p) 0 = sibs h p 0 (kids p) 0" for p
    using a by (intro sibs_cong) (auto simp: links_def root_def ch_fun_upd)
  have live: "p \<noteq> a \<and> h p \<noteq> None" if "(h(a := None)) p \<noteq> None" for p using that by (auto split: if_splits)
  show ?thesis
  proof (rule repI)
    fix p assume "(h(a := None)) p \<noteq> None"
    with live have "p \<noteq> a" "h p \<noteq> None" by blast+
    then show "p \<noteq> 0 \<and> t_child (ch (h(a := None)) p) = first (kids p) 0 \<and> sibs (h(a := None)) p 0 (kids p) 0"
      unfolding s using repD(1-3) [OF r, of p] by (simp add: ch_fun_upd)
  next
    fix p assume "(h(a := None)) p = None"
    then show "kids p = []" using a(2) repD(4) [OF r, of p] by (cases "p = a") simp_all
  next
    fix b assume b: "(h(a := None)) b \<noteq> None" "root kids b"
    with live have "b \<noteq> a" "h b \<noteq> None" by blast+
    then show "t_next (ch (h(a := None)) b) = 0 \<and> t_prev (ch (h(a := None)) b) = 0 \<and> t_parent (ch (h(a := None)) b) = 0"
      using repD(7) [OF r, of b] b(2) by (simp add: ch_fun_upd)
  qed (use repD(5,6,8) [OF r] in blast)+
qed

section \<open>Subtrees\<close>

definition subtree :: "(ptr \<Rightarrow> ptr list) \<Rightarrow> ptr \<Rightarrow> ptr set" where
  "subtree kids p = {a. (a, p) \<in> (krel kids)\<^sup>*}"

lemma subtree_self [simp]: "p \<in> subtree kids p"
  by (simp add: subtree_def)

lemma subtree_unfold: "subtree kids p = insert p (\<Union>c \<in> set (kids p). subtree kids c)"
proof -
  have "(a, p) \<in> (krel kids)\<^sup>* \<longleftrightarrow> a = p \<or> (\<exists>c. (a, c) \<in> (krel kids)\<^sup>* \<and> (c, p) \<in> krel kids)" for a
    by (auto elim: rtranclE intro: rtrancl_into_rtrancl)
  then show ?thesis by (auto simp: subtree_def krel_def)
qed

lemma subtree_down: "a \<in> subtree kids c \<Longrightarrow> (b, a) \<in> krel kids \<Longrightarrow> b \<in> subtree kids c"
  by (auto simp: subtree_def intro: converse_rtrancl_into_rtrancl)

lemma subtree_child: "c \<in> set (kids p) \<Longrightarrow> subtree kids c \<subseteq> subtree kids p"
  by (auto simp: subtree_def krel_def intro: rtrancl_into_rtrancl)

lemma subtree_above:
  assumes "acyclic (krel kids)" "c \<in> set (kids p)"
  shows "p \<notin> subtree kids c"
proof
  assume "p \<in> subtree kids c"
  then have "(p, c) \<in> (krel kids)\<^sup>*" "(c, p) \<in> krel kids" using assms(2) by (auto simp: subtree_def krel_def)
  then have "(p, p) \<in> (krel kids)\<^sup>+" by (rule rtrancl_into_trancl1)
  then show False using assms(1) by (simp add: acyclic_def)
qed

lemma card_subtree_pos: "0 < card (subtree kids p)"
  using subtree_self [of p kids] by (metis card_gt_0_iff empty_iff finite)

text \<open>In a heap, a chunk has one parent: the parent of a chunk of a subtree is in it too, unless it is the top.\<close>

lemma subtree_up:
  assumes r: "rep X h kids" and a: "a \<in> subtree kids c" "a \<noteq> c" "a \<in> set (kids q)"
  shows "q \<in> subtree kids c"
proof -
  from a(1,2) obtain b where "(a, b) \<in> krel kids" "(b, c) \<in> (krel kids)\<^sup>*"
    by (auto simp: subtree_def elim: converse_rtranclE)
  then show ?thesis using repD(6) [OF r, of a b q] a(3) by (simp add: krel_def subtree_def)
qed

lemma subtree_live: "rep X h kids \<Longrightarrow> h p \<noteq> None \<Longrightarrow> a \<in> subtree kids p \<Longrightarrow> h a \<noteq> None"
proof -
  assume r: "rep X h kids" and p: "h p \<noteq> None" and "a \<in> subtree kids p"
  then have "(a, p) \<in> (krel kids)\<^sup>*" by (simp add: subtree_def)
  then show "h a \<noteq> None"
  proof (cases rule: converse_rtranclE)
    case (step b)
    then show ?thesis using rep_kid(2) [OF r] by (auto simp: krel_def simp del: not_None_eq)
  qed (use p in simp)
qed

definition prune :: "(ptr \<Rightarrow> ptr list) \<Rightarrow> ptr \<Rightarrow> ptr \<Rightarrow> ptr list" where
  "prune kids c q = (if q \<in> subtree kids c then [] else remove1 c (kids q))"

definition bare :: "(ptr \<Rightarrow> ptr list) \<Rightarrow> ptr \<Rightarrow> ptr \<Rightarrow> ptr list" where
  "bare kids p q = (if q \<in> subtree kids p then [] else kids q)"

lemma krel_prune:
  assumes "rep X h kids"
  shows "(a, b) \<in> krel (prune kids c) \<longleftrightarrow> (a, b) \<in> krel kids \<and> b \<notin> subtree kids c \<and> a \<noteq> c"
  using repD(5) [OF assms, of b] by (auto simp: krel_def prune_def)

lemma subtree_prune:
  assumes r: "rep X h kids" and p: "p \<notin> subtree kids c"
  shows "subtree (prune kids c) p = subtree kids p - subtree kids c"
proof (intro set_eqI iffI)
  fix a assume "a \<in> subtree (prune kids c) p"
  then have "(a, p) \<in> (krel (prune kids c))\<^sup>*" by (simp add: subtree_def)
  then show "a \<in> subtree kids p - subtree kids c"
  proof (induction rule: converse_rtrancl_induct)
    case (step y z)
    then have yz: "(y, z) \<in> krel kids" "z \<notin> subtree kids c" "y \<noteq> c" by (auto simp: krel_prune [OF r])
    then have "y \<notin> subtree kids c" using subtree_up [OF r, of y c z] by (auto simp: krel_def)
    then show ?case using step(3) subtree_down [OF _ yz(1)] by blast
  qed (simp add: p)
next
  fix a assume a: "a \<in> subtree kids p - subtree kids c"
  then have "(a, p) \<in> (krel kids)\<^sup>*" "a \<notin> subtree kids c" by (auto simp: subtree_def)
  then have "(a, p) \<in> (krel (prune kids c))\<^sup>*"
  proof (induction rule: converse_rtrancl_induct)
    case (step y z)
    have z: "z \<notin> subtree kids c" using step(4) subtree_down [OF _ step(1)] by blast
    moreover have "y \<noteq> c" using step(4) by auto
    ultimately have "(y, z) \<in> krel (prune kids c)" using step(1) by (simp add: krel_prune [OF r])
    then show ?case using step(3) [OF z] by (rule converse_rtrancl_into_rtrancl)
  qed simp
  then show "a \<in> subtree (prune kids c) p" by (simp add: subtree_def)
qed

lemma without_bare:
  assumes "rep X h kids"
  shows "without (bare kids p) p = prune kids p"
  by (auto simp: without_def bare_def prune_def)

lemma bare_prune:
  assumes r: "rep X h kids" and c: "c \<in> set (kids p)"
  shows "bare (prune kids c) p = bare kids p"
proof
  fix q
  have sub: "subtree (prune kids c) p = subtree kids p - subtree kids c"
    using r subtree_above [OF repD(8) [OF r] c] by (rule subtree_prune)
  have "remove1 c (kids q) = kids q" if "q \<notin> subtree kids p"
    using repD(6) [OF r, of c q p] c that by (intro remove1_idem) auto
  then show "bare (prune kids c) p q = bare kids p q"
    using subtree_child [of c kids p] c by (auto simp: bare_def prune_def sub)
qed

section \<open>Freeing a subtree\<close>

definition quiet :: "theap \<Rightarrow> ptr set \<Rightarrow> bool" where
  "quiet h S \<longleftrightarrow> (\<forall>a \<in> S. t_refs (ch h a) = 0 \<and> t_destructor (ch h a) = No_destructor)"

text \<open>The chunks of \<open>S\<close> are gone and nothing else changed but links.\<close>

definition freed :: "theap \<Rightarrow> ptr set \<Rightarrow> theap \<Rightarrow> bool" where
  "freed h S h' \<longleftrightarrow> (\<forall>a. (h' a = None) = (h a = None \<or> a \<in> S)) \<and> (\<forall>a. a \<notin> S \<longrightarrow> payload (ch h' a) = payload (ch h a))"

lemma freed_trans: "freed h S h' \<Longrightarrow> freed h' T h'' \<Longrightarrow> freed h (S \<union> T) h''"
  by (auto simp: freed_def)

lemma freed_quiet: "freed h S h' \<Longrightarrow> quiet h T \<Longrightarrow> T \<inter> S = {} \<Longrightarrow> quiet h' T"
  by (auto simp: freed_def quiet_def payload_def)

text \<open>What freeing a chunk, and freeing its children, achieve with the given fuel.\<close>

definition free_ok :: "(nat \<Rightarrow> ptr \<Rightarrow> theap \<Rightarrow> bool \<times> theap) \<Rightarrow> ptr \<Rightarrow> nat \<Rightarrow> bool" where
  "free_ok dtor nullctx n \<longleftrightarrow>
     (\<forall>p h kids. rep {} h kids \<longrightarrow> h p \<noteq> None \<longrightarrow> quiet h (subtree kids p) \<longrightarrow> 2 * card (subtree kids p) \<le> n \<longrightarrow>
       (\<exists>h'. talloc_free dtor nullctx n p h = Some (Ok (True, h')) \<and> rep {} h' (prune kids p) \<and> freed h (subtree kids p) h'))"

definition children_ok :: "(nat \<Rightarrow> ptr \<Rightarrow> theap \<Rightarrow> bool \<times> theap) \<Rightarrow> ptr \<Rightarrow> nat \<Rightarrow> bool" where
  "children_ok dtor nullctx n \<longleftrightarrow>
     (\<forall>p h kids. rep {} h kids \<longrightarrow> h p \<noteq> None \<longrightarrow> quiet h (subtree kids p - {p}) \<longrightarrow> 2 * card (subtree kids p) \<le> Suc n \<longrightarrow>
       (\<exists>h'. talloc_free_children dtor nullctx n p h = Some (Ok h') \<and> rep {} h' (bare kids p) \<and> freed h (subtree kids p - {p}) h'))"

lemma children_step:
  assumes F: "free_ok dtor nullctx n" and G: "children_ok dtor nullctx n"
  shows "children_ok dtor nullctx (Suc n)"
  unfolding children_ok_def
proof (intro allI impI)
  fix p h kids
  assume r: "rep {} h kids" and p: "h p \<noteq> None" and q: "quiet h (subtree kids p - {p})" and n: "2 * card (subtree kids p) \<le> Suc (Suc n)"
  have p0: "p \<noteq> 0" using repD(1) [OF r p] .
  have chp: "talloc_chunk_from_ptr h p = Ok (ch h p)" using p by (auto simp: talloc_chunk_from_ptr_def ch_def)
  show "\<exists>h'. talloc_free_children dtor nullctx (Suc n) p h = Some (Ok h') \<and> rep {} h' (bare kids p) \<and> freed h (subtree kids p - {p}) h'"
  proof (cases "kids p")
    case Nil
    then have "subtree kids p = {p}" by (simp add: subtree_unfold [of kids p])
    then have "bare kids p = kids" using Nil by (auto simp: bare_def)
    then show ?thesis
      using r p0 chp repD(2) [OF r p] Nil \<open>subtree kids p = {p}\<close> by (simp add: freed_def)
  next
    case (Cons c cs)
    then have c: "c \<in> set (kids p)" by simp
    note kid = rep_kid [OF r c]
    have cp: "t_child (ch h p) = c" using repD(2) [OF r p] Cons by simp
    have pc: "p \<notin> subtree kids c" using repD(8) [OF r] c by (rule subtree_above)
    have sub: "subtree kids c \<subseteq> subtree kids p - {p}" using subtree_child [of c kids p] c pc by blast
    have cq: "quiet h (subtree kids c)" using q sub by (auto simp: quiet_def)
    have card: "card (subtree kids c) + card (subtree kids p - subtree kids c) = card (subtree kids p)"
      using sub by (subst card_Un_disjoint [symmetric]) (auto intro!: arg_cong [of _ _ card])
    have "p \<in> subtree kids p - subtree kids c" using pc by simp
    then have pos: "0 < card (subtree kids c)" "0 < card (subtree kids p - subtree kids c)"
      using card_subtree_pos by (auto simp only: card_gt_0_iff finite)
    have "2 * card (subtree kids c) \<le> n" using card pos n by linarith
    then obtain h1 where h1: "talloc_free dtor nullctx n c h = Some (Ok (True, h1))" "rep {} h1 (prune kids c)" "freed h (subtree kids c) h1"
      using F r kid(2) cq unfolding free_ok_def by blast
    have sub1: "subtree (prune kids c) p = subtree kids p - subtree kids c" using r pc by (rule subtree_prune)
    have live1: "h1 p \<noteq> None" using h1(3) p pc by (simp add: freed_def)
    have q1: "quiet h1 (subtree (prune kids c) p - {p})"
      using h1(3) by (rule freed_quiet) (use q in \<open>auto simp: quiet_def sub1\<close>)
    have "2 * card (subtree (prune kids c) p) \<le> Suc n" using card pos n sub1 by simp
    then obtain h2 where h2: "talloc_free_children dtor nullctx n p h1 = Some (Ok h2)" "rep {} h2 (bare (prune kids c) p)"
        "freed h1 (subtree (prune kids c) p - {p}) h2"
      using G h1(2) live1 q1 unfolding children_ok_def by blast
    have "t_refs (ch h c) = 0" using cq by (simp add: quiet_def)
    then have "talloc_free_children dtor nullctx (Suc n) p h = Some (Ok h2)"
      using p0 chp cp kid(3) h1(1) h2(1) by (simp add: Let_def)
    moreover have "subtree kids c \<union> (subtree (prune kids c) p - {p}) = subtree kids p - {p}"
      using sub by (auto simp: sub1)
    then have "freed h (subtree kids p - {p}) h2" using freed_trans [OF h1(3) h2(3)] by simp
    ultimately show ?thesis using h2(2) bare_prune [of "{}" h kids c p] r c by simp
  qed
qed

lemma free_step:
  assumes G: "children_ok dtor nullctx n"
  shows "free_ok dtor nullctx (Suc n)"
  unfolding free_ok_def
proof (intro allI impI)
  fix p h kids
  assume r: "rep {} h kids" and p: "h p \<noteq> None" and q: "quiet h (subtree kids p)" and n: "2 * card (subtree kids p) \<le> Suc n"
  have chp: "talloc_chunk_from_ptr h p = Ok (ch h p)" using p by (auto simp: talloc_chunk_from_ptr_def ch_def)
  have "quiet h (subtree kids p - {p})" using q by (auto simp: quiet_def)
  then obtain h1 where h1: "talloc_free_children dtor nullctx n p h = Some (Ok h1)" "rep {} h1 (bare kids p)" "freed h (subtree kids p - {p}) h1"
    using G r p n unfolding children_ok_def by blast
  have live: "h1 p \<noteq> None" using h1(3) p by (simp add: freed_def)
  let ?h = "(detach p h1)(p := None)"
  have "talloc_free dtor nullctx (Suc n) p h = Some (Ok (True, ?h))"
    using repD(1) [OF r p] chp q h1(1) subtree_self [of p kids] by (simp add: quiet_def)
  moreover have "rep {} ?h (prune kids p)"
    using rep_without [OF h1(2) live] rep_delete [of p "detach p h1"] without_bare [OF r, of p]
    by (simp add: prune_def)
  moreover have "freed h (subtree kids p) ?h"
    using h1(3) same_chunks_ops(4) [of h1 p] subtree_self [of p kids] by (auto simp: freed_def same_chunks_def ch_fun_upd)
  ultimately show "\<exists>h'. talloc_free dtor nullctx (Suc n) p h = Some (Ok (True, h')) \<and> rep {} h' (prune kids p) \<and> freed h (subtree kids p) h'"
    by blast
qed

lemma free_both: "free_ok dtor nullctx n \<and> children_ok dtor nullctx n"
proof (induction n)
  case 0
  have "\<not> 2 * card (subtree kids p) \<le> Suc 0" for kids p using card_subtree_pos [of kids p] by linarith
  then show ?case unfolding free_ok_def children_ok_def using le_SucI by blast
next
  case (Suc n)
  then show ?case using children_step free_step by blast
qed

lemma talloc_free_spec:
  assumes "rep {} h kids" "h p \<noteq> None" "quiet h (subtree kids p)" "2 * card (subtree kids p) \<le> n"
  shows "\<exists>h'. talloc_free dtor nullctx n p h = Some (Ok (True, h')) \<and> rep {} h' (prune kids p) \<and> freed h (subtree kids p) h'"
  using free_both [of dtor nullctx n] assms unfolding free_ok_def by blast

section \<open>Allocating and moving\<close>

lemma talloc_spec:
  assumes r: "rep {} h kids" and m: "h m = None" "m \<noteq> 0" and sz: "sz < MAX_TALLOC_SIZE" and c: "h ctx \<noteq> None"
  shows "\<exists>h'. talloc nullctx m ctx sz h = Ok (m, h') \<and> rep {} h' (kids(ctx := m # kids ctx)) \<and>
              same_chunks (h(m \<mapsto> fresh_chunk sz)) h'"
proof -
  let ?h = "h(m \<mapsto> fresh_chunk sz)"
  have z: "t_next (fresh_chunk sz) = 0" "t_prev (fresh_chunk sz) = 0" "t_parent (fresh_chunk sz) = 0" "t_child (fresh_chunk sz) = 0"
    by (simp_all add: fresh_chunk_def null_chunk_def)
  have r1: "rep {m} ?h kids" using rep_weaken [OF rep_fresh [OF r m z]] by simp
  have cm: "ctx \<noteq> m" and c0: "ctx \<noteq> 0" using c m repD(1) [OF r c] by auto
  have km: "kids m = []" using repD(4) [OF r m(1)] .
  have root: "root kids m" unfolding root_def using rep_kid(2) [OF r] m(1) by blast
  have "\<not> (ctx, m) \<in> (krel kids)\<^sup>*"
    using km cm by (auto simp: krel_def elim: rtranclE)
  then have r2: "rep {} (add_front ctx m ?h) (kids(ctx := m # kids ctx))"
    using c cm by (intro rep_add [OF r1 _ root]) auto
  have "talloc_chunk_from_ptr ?h ctx = Ok (ch ?h ctx)" using c cm by (auto simp: talloc_chunk_from_ptr_def ch_def)
  then have "talloc nullctx m ctx sz h = Ok (m, add_front ctx m ?h)"
    using sz m(2) c0 cm by (simp add: talloc_def add_front_def Let_def not_le)
  then show ?thesis using r2 same_chunks_add_front by blast
qed

lemma krel_without: "krel (without kids a) \<subseteq> krel kids"
  using set_remove1_subset by (fastforce simp: krel_def without_def)

lemma talloc_steal_spec:
  assumes r: "rep {} h kids" and p: "h p \<noteq> None" and c: "h ctx \<noteq> None" and notin: "ctx \<notin> subtree kids p"
  shows "\<exists>h'. talloc_steal nullctx ctx p h = Ok (p, h') \<and>
              rep {} h' ((without kids p)(ctx := p # without kids p ctx)) \<and> same_chunks h h'"
proof -
  let ?h = "detach p h"
  have w: "rep {p} ?h (without kids p)" "root (without kids p) p" using rep_without [OF r p] by auto
  have "(krel (without kids p))\<^sup>* \<subseteq> (krel kids)\<^sup>*" using krel_without by (rule rtrancl_mono)
  then have "\<not> (ctx, p) \<in> (krel (without kids p))\<^sup>*" using notin by (auto simp: subtree_def)
  then have r2: "rep {} (add_front ctx p ?h) ((without kids p)(ctx := p # without kids p ctx))"
    using p c by (intro rep_add [OF w(1) _ w(2)]) (simp_all add: dom_detach del: not_None_eq)
  have "p \<noteq> 0" "ctx \<noteq> 0" "p \<noteq> ctx" using repD(1) [OF r] p c notin by auto
  then have "talloc_steal nullctx ctx p h = Ok (p, add_front ctx p ?h)"
    using p c by (auto simp: talloc_steal_def talloc_chunk_from_ptr_def add_front_def Let_def)
  then show ?thesis using r2 same_chunks_trans [OF same_chunks_ops(4) same_chunks_add_front] by blast
qed

section \<open>References\<close>

lemma refs_add_remove:
  assumes "t_refs (ch h p) = 0" "h p \<noteq> None" "m \<noteq> p" "m \<noteq> 0" "h m \<noteq> None"
  shows "ch (refs_add p m h) q =
      (if q = m then (ch h q)\<lparr>h_next := 0, h_prev := 0\<rparr> else if q = p then (ch h q)\<lparr>t_refs := m\<rparr> else ch h q)"
    and "(refs_add p m h q = None) = (h q = None)"
  using assms by (simp_all add: refs_add_def)

text \<open>A store that touches no link leaves the trees alone.\<close>

lemma rep_upd_payload:
  assumes r: "rep X h kids"
    and f: "\<And>c. t_next (f c) = t_next c" "\<And>c. t_prev (f c) = t_prev c" "\<And>c. t_parent (f c) = t_parent c" "\<And>c. t_child (f c) = t_child c"
  shows "rep X (upd p f h) kids"
proof -
  have "sibs (upd p f h) q 0 (kids q) 0 = sibs h q 0 (kids q) 0" for q
    by (intro sibs_cong) (simp add: links_def f)
  moreover have "t_child (ch (upd p f h) q) = t_child (ch h q)" "t_next (ch (upd p f h) q) = t_next (ch h q)"
    "t_prev (ch (upd p f h) q) = t_prev (ch h q)" "t_parent (ch (upd p f h) q) = t_parent (ch h q)" for q
    by (simp_all add: f)
  ultimately show ?thesis
    using repD [OF r] by (intro repI) (simp_all only: upd_None not_False_eq_True)
qed

lemma rep_refs_add: "rep X h kids \<Longrightarrow> rep X (refs_add p m h) kids"
  by (simp add: refs_add_def Let_def rep_upd_payload)

lemma rep_refs_remove: "rep X h kids \<Longrightarrow> rep X (refs_remove p m h) kids"
  by (simp add: refs_remove_def Let_def rep_upd_payload)

lemma subtree_leaf: "kids p = [] \<Longrightarrow> subtree kids p = {p}"
  by (simp add: subtree_unfold [of kids p])

lemma prune_added:
  assumes "rep X h (kids(ctx := m # kids ctx))" "m \<noteq> ctx" "kids m = []"
  shows "prune (kids(ctx := m # kids ctx)) m = kids"
proof
  fix q
  have sub: "subtree (kids(ctx := m # kids ctx)) m = {m}" using assms(2,3) by (intro subtree_leaf) simp
  have "m \<notin> set (kids q)" if "q \<noteq> ctx"
    using repD(6) [OF assms(1), of m q ctx] that by auto
  then show "prune (kids(ctx := m # kids ctx)) m q = kids q"
    using assms(2,3) by (auto simp: prune_def sub remove1_idem)
qed

lemma free_undoes_reference:
  assumes r: "rep {} h kids" and p: "h p \<noteq> None" "t_refs (ch h p) = 0" and c: "h ctx \<noteq> None"
    and m: "h m = None" "m \<noteq> 0" and n: "4 \<le> n"
  shows "\<exists>h1 h2. talloc_reference nullctx m ctx p h = Ok (p, h1) \<and> t_refs (ch h1 p) = m \<and>
           talloc_free dtor nullctx n p h1 = Some (Ok (False, h2)) \<and> rep {} h2 kids \<and> same_chunks h h2"
proof -
  have "sizeof_handle < MAX_TALLOC_SIZE" by (simp add: sizeof_handle_def MAX_TALLOC_SIZE_def)
  then obtain h0 where h0: "talloc nullctx m ctx sizeof_handle h = Ok (m, h0)" "rep {} h0 (kids(ctx := m # kids ctx))"
      "same_chunks (h(m \<mapsto> fresh_chunk sizeof_handle)) h0"
    using talloc_spec [OF r m _ c] by blast
  have mp: "m \<noteq> p" "m \<noteq> ctx" and p0: "p \<noteq> 0" using m p(1) c repD(1) [OF r p(1)] by auto
  have live: "h0 m \<noteq> None" "h0 p \<noteq> None" and refs: "t_refs (ch h0 p) = 0" "t_refs (ch h0 m) = 0"
    using h0(3) p mp by (auto simp: same_chunks_def ch_fun_upd payload_def fresh_chunk_def null_chunk_def split: if_splits)
  define h' where "h' = upd m (\<lambda>c. c\<lparr>h_ptr := p\<rparr>) (upd m (\<lambda>c. c\<lparr>t_destructor := Reference_destructor\<rparr>)
      (upd m (\<lambda>c. c\<lparr>t_name := Magic_reference\<rparr>) h0))"
  define h1 where "h1 = refs_add p m h'"
  have ref: "talloc_reference nullctx m ctx p h = Ok (p, h1)"
    using p(1) p0 m(2) live h0(1)
    by (auto simp: talloc_reference_def talloc_named_const_def talloc_set_name_const_def talloc_set_destructor_def
        talloc_chunk_from_ptr_def h1_def h'_def split: option.splits)
  have r1: "rep {} h1 (kids(ctx := m # kids ctx))"
    unfolding h1_def h'_def by (intro rep_refs_add rep_upd_payload h0(2)) simp_all
  have ch1: "ch h1 q = (if q = m then (ch h0 m)\<lparr>t_name := Magic_reference, t_destructor := Reference_destructor, h_ptr := p, h_next := 0, h_prev := 0\<rparr>
      else if q = p then (ch h0 p)\<lparr>t_refs := m\<rparr> else ch h0 q)" for q
    unfolding h1_def using live refs mp m(2) by (subst refs_add_remove(1)) (simp_all add: h'_def)
  have dom1: "h1 q = None \<longleftrightarrow> h0 q = None" for q
    unfolding h1_def by (simp add: refs_add_def Let_def h'_def)
  define h3 where "h3 = refs_remove p m (upd m (\<lambda>c. c\<lparr>t_destructor := No_destructor\<rparr>) h1)"
  have r3: "rep {} h3 (kids(ctx := m # kids ctx))"
    unfolding h3_def by (intro rep_refs_remove rep_upd_payload r1) simp_all
  have ch3: "ch h3 q = (if q = m then (ch h0 m)\<lparr>t_name := Magic_reference, h_ptr := p, t_destructor := No_destructor, h_next := 0, h_prev := 0\<rparr>
      else if q = p then (ch h0 p)\<lparr>t_refs := 0\<rparr> else ch h0 q)" for q
    using live mp m(2) by (simp add: h3_def refs_remove_def ch1 dom1)
  have dom3: "h3 q = None \<longleftrightarrow> h0 q = None" for q by (simp add: h3_def refs_remove_def Let_def dom1)
  have km: "(kids(ctx := m # kids ctx)) m = []" using mp(2) repD(4) [OF r m(1)] by simp
  have sub: "subtree (kids(ctx := m # kids ctx)) m = {m}" using km by (rule subtree_leaf)
  obtain k where k: "n = Suc (Suc k)" "2 \<le> k" using n by (cases n rule: nat.exhaust; force simp: numeral_eq_Suc dest: Suc_le_D)
  have "quiet h3 {m}" using refs by (simp add: quiet_def ch3)
  then obtain h2 where h2: "talloc_free dtor nullctx k m h3 = Some (Ok (True, h2))" "rep {} h2 kids" "freed h3 {m} h2"
    using talloc_free_spec [OF r3, of m k dtor nullctx] live k(2) sub prune_added [OF r3 mp(2)] repD(4) [OF r m(1)]
    by (auto simp: dom3)
  have from1: "talloc_chunk_from_ptr h1 p = Ok (ch h1 p)" "talloc_chunk_from_ptr h1 m = Ok (ch h1 m)"
    using live by (auto simp: talloc_chunk_from_ptr_def ch_def dom1 [symmetric] split: option.splits)
  have free: "talloc_free dtor nullctx n p h1 = Some (Ok (False, h2))"
    using p0 from1 mp m(2) h2(1) by (simp add: k(1) ch1 Let_def h3_def [symmetric])
  have "same_chunks h h2"
    unfolding same_chunks_def
  proof
    fix a
    have "payload (ch h3 a) = payload (ch h0 a)" if "a \<noteq> m" using that refs(1) by (simp add: ch3 payload_def)
    moreover have "h2 m = None" using h2(3) by (auto simp: freed_def)
    then have "ch h2 m = ch h m" using m(1) by (simp add: ch_def)
    ultimately show "(h2 a = None) = (h a = None) \<and> payload (ch h2 a) = payload (ch h a)"
      using h2(3) h0(3) m(1) by (cases "a = m") (simp_all add: freed_def same_chunks_def dom3 ch_fun_upd)
  qed
  then show ?thesis using ref free h2(2) mp by (auto simp: ch1)
qed

section \<open>Counting\<close>

lemma subtree_siblings:
  assumes r: "rep X h kids" and cd: "c \<in> set (kids p)" "d \<in> set (kids p)" "c \<noteq> d"
  shows "subtree kids c \<inter> subtree kids d = {}"
proof (rule ccontr)
  assume "subtree kids c \<inter> subtree kids d \<noteq> {}"
  then obtain a where "(a, c) \<in> (krel kids)\<^sup>*" "a \<in> subtree kids d" by (auto simp: subtree_def)
  then have "c \<in> subtree kids d \<or> d \<in> subtree kids c"
  proof (induction rule: converse_rtrancl_induct)
    case (step y z)
    show ?case
    proof (cases "y = d")
      case True
      then have "(d, c) \<in> (krel kids)\<^sup>*" using step(1,2) by (auto intro: converse_rtrancl_into_rtrancl)
      then show ?thesis by (simp add: subtree_def)
    next
      case False
      then show ?thesis using step subtree_up [OF r, of y d z] by (auto simp: krel_def)
    qed
  qed simp
  then show False
    using subtree_up [OF r, of c d p] subtree_up [OF r, of d c p] subtree_above [OF repD(8) [OF r]] cd by metis
qed

lemma card_subtree:
  assumes "rep X h kids"
  shows "card (subtree kids p) = Suc (\<Sum>c \<in> set (kids p). card (subtree kids c))"
proof -
  have "p \<notin> (\<Union>c \<in> set (kids p). subtree kids c)" using subtree_above [OF repD(8) [OF assms]] by blast
  moreover have "card (\<Union>c \<in> set (kids p). subtree kids c) = (\<Sum>c \<in> set (kids p). card (subtree kids c))"
    using subtree_siblings [OF assms] by (intro card_UN_disjoint) auto
  ultimately show ?thesis by (simp add: subtree_unfold [of kids p])
qed

lemma total_blocks_both:
  assumes r: "rep X h kids"
  shows "(\<forall>p. h p \<noteq> None \<longrightarrow> 2 * card (subtree kids p) \<le> n \<longrightarrow>
            talloc_total_blocks n h p = Some (Ok (int (card (subtree kids p))))) \<and>
         (\<forall>p prv cs. sibs h p prv cs 0 \<longrightarrow> distinct cs \<longrightarrow> set cs \<subseteq> set (kids p) \<longrightarrow>
            2 * (\<Sum>c \<in> set cs. card (subtree kids c)) < n \<longrightarrow>
            total_blocks_list n h (first cs 0) = Some (Ok (int (\<Sum>c \<in> set cs. card (subtree kids c)))))"
proof (induction n)
  case 0
  have "\<not> 2 * card (subtree kids p) \<le> 0" for p using card_subtree_pos [of kids p] by linarith
  then show ?case by simp
next
  case (Suc n)
  have "talloc_total_blocks (Suc n) h p = Some (Ok (int (card (subtree kids p))))"
    if p: "h p \<noteq> None" and n: "2 * card (subtree kids p) \<le> Suc n" for p
  proof -
    have "total_blocks_list n h (first (kids p) 0) = Some (Ok (int (\<Sum>c \<in> set (kids p). card (subtree kids c))))"
      using Suc repD(3) [OF r p] repD(5) [OF r, of p] n card_subtree [OF r, of p] by auto
    moreover have "talloc_chunk_from_ptr h p = Ok (ch h p)" using p by (auto simp: talloc_chunk_from_ptr_def ch_def)
    ultimately show ?thesis using repD(2) [OF r p] card_subtree [OF r, of p] by simp
  qed
  moreover have "total_blocks_list (Suc n) h (first cs 0) = Some (Ok (int (\<Sum>c \<in> set cs. card (subtree kids c))))"
    if s: "sibs h p prv cs 0" "distinct cs" "set cs \<subseteq> set (kids p)" and n: "2 * (\<Sum>c \<in> set cs. card (subtree kids c)) < Suc n" for p prv cs
  proof (cases cs)
    case (Cons c ds)
    have sum: "(\<Sum>c \<in> set cs. card (subtree kids c)) = card (subtree kids c) + (\<Sum>c \<in> set ds. card (subtree kids c))"
      using s(2) Cons by simp
    have pos: "0 < card (subtree kids c)" by (rule card_subtree_pos)
    have "talloc_total_blocks n h c = Some (Ok (int (card (subtree kids c))))"
      using Suc s(1) Cons n sum by auto
    moreover have "total_blocks_list n h (first ds 0) = Some (Ok (int (\<Sum>c \<in> set ds. card (subtree kids c))))"
      using Suc s Cons n sum pos by auto
    ultimately show ?thesis using s(1) Cons sum by simp
  qed simp
  ultimately show ?case by blast
qed

section \<open>Arrays\<close>

lemma same_chunks_size: "same_chunks h h' \<Longrightarrow> t_size (ch h' a) = t_size (ch h a)"
  by (simp add: same_chunks_def payload_def)

lemma talloc_size:
  assumes "talloc nullctx m ctx sz h = Ok (p, h')" "p \<noteq> 0"
  shows "p = m \<and> t_size (ch h' m) = sz"
proof -
  let ?h = "h(m \<mapsto> fresh_chunk sz)"
  have "t_size (ch ?h m) = sz" by (simp add: ch_fun_upd fresh_chunk_def)
  moreover have "same_chunks ?h h'"
    using assms
    by (auto simp: talloc_def Let_def bind_outcome_Ok_iff split: if_splits
        intro!: same_chunks_trans [OF _ same_chunks_ops(2)] same_chunks_upd)
  ultimately show ?thesis
    using assms same_chunks_size by (fastforce simp: talloc_def Let_def bind_outcome_Ok_iff split: if_splits)
qed

lemma array_product:
  fixes el :: u64 and count :: u32
  assumes "el \<noteq> 0" "ucast count < MAX_TALLOC_SIZE div el"
  shows "unat (el * ucast count) = unat el * unat count \<and> unat el * unat count < 268435456"
proof -
  have cnt: "unat (ucast count :: u64) = unat count"
    using unat_u32_less [of count] by (simp add: unsigned_ucast_eq take_bit_nat_eq_self)
  have "unat count < 268435456 div unat el"
    using assms(2) by (simp add: word_less_nat_alt unat_div MAX_TALLOC_SIZE_def cnt)
  then have "Suc (unat count) * unat el \<le> 268435456" by (metis Suc_leI div_times_less_eq_dividend le_trans mult_le_mono1)
  moreover have "0 < unat el" using assms(1) by (simp add: unat_gt_0)
  ultimately have lt: "unat el * unat count < 268435456" by (simp add: mult.commute)
  then have "unat el * unat (ucast count :: u64) < 2 ^ LENGTH(64)" by (simp add: cnt)
  then have "unat (el * ucast count) = unat el * unat (ucast count :: u64)" using unat_mult_lem by blast
  then show ?thesis using lt by (simp add: cnt)
qed

text \<open>The size check of \<open>talloc_array\<close> is sufficient: whenever an array is allocated, the product of element size and
  count did not wrap around, and the chunk has exactly that size, below 256 MiB.\<close>

theorem talloc_array_no_overflow:
  assumes "talloc_array nullctx m ctx el_size count n h = Ok (p, h')" "p \<noteq> 0"
  shows "unat (t_size (ch h' p)) = unat el_size * unat count \<and> unat el_size * unat count < 268435456"
proof -
  have el: "el_size \<noteq> 0" "ucast count < MAX_TALLOC_SIZE div el_size" and
    named: "talloc_named_const nullctx m ctx (el_size * ucast count) n h = Ok (p, h')"
    using assms by (auto simp: talloc_array_def not_le split: if_splits)
  then obtain h1 where h1: "talloc nullctx m ctx (el_size * ucast count) h = Ok (p, h1)"
      "talloc_set_name_const p n h1 = Ok h'"
    using assms(2) by (auto simp: talloc_named_const_def bind_outcome_Ok_iff split: if_splits)
  have "t_size (ch h' p) = el_size * ucast count"
    using talloc_size [OF h1(1) assms(2)] h1(2) by (auto simp: talloc_set_name_const_def bind_outcome_Ok_iff)
  then show ?thesis using array_product [OF el] by simp
qed

section \<open>What the allocator promises\<close>

text \<open>C10. Freeing a chunk whose subtree has no references and no destructors ends, returns 0, and frees exactly the chunk and
  its descendants: every other chunk keeps its contents and its place, and the heap is again a well-formed
  forest, the old one without the subtree. Fuel of twice the size of the subtree is enough.\<close>

theorem talloc_free_subtree:
  assumes "rep {} h kids" "h p \<noteq> None" "quiet h (subtree kids p)" "2 * card (subtree kids p) \<le> n"
  shows "\<exists>h'. talloc_free dtor nullctx n p h = Some (Ok (True, h')) \<and> rep {} h' (prune kids p) \<and> freed h (subtree kids p) h'"
  using assms by (rule talloc_free_spec)

text \<open>C11. The heap stays a well-formed forest: allocation adds the new chunk in front of the children of its context, and
  stealing moves a chunk with its subtree in front of the children of the new context, provided that is not in
  the subtree; both leave sizes, names, contents, references and destructors of all chunks alone.\<close>

theorem talloc_forest:
  assumes "rep {} h kids" "h ctx \<noteq> None"
  shows "(h m = None \<and> m \<noteq> 0 \<and> sz < MAX_TALLOC_SIZE \<longrightarrow>
            (\<exists>h'. talloc nullctx m ctx sz h = Ok (m, h') \<and> rep {} h' (kids(ctx := m # kids ctx)) \<and>
                  same_chunks (h(m \<mapsto> fresh_chunk sz)) h')) \<and>
         (h p \<noteq> None \<and> ctx \<notin> subtree kids p \<longrightarrow>
            (\<exists>h'. talloc_steal nullctx ctx p h = Ok (p, h') \<and>
                  rep {} h' ((without kids p)(ctx := p # without kids p ctx)) \<and> same_chunks h h'))"
  using talloc_spec [OF assms(1) _ _ _ assms(2)] talloc_steal_spec [OF assms(1) _ assms(2)] by blast

text \<open>C12. A reference protects a chunk from one free: \<open>talloc_free\<close> on a chunk with one reference returns -1, removes the
  reference and leaves the heap as it was before \<open>talloc_reference\<close>.\<close>

theorem talloc_free_undoes_reference:
  assumes "rep {} h kids" "h p \<noteq> None" "t_refs (ch h p) = 0" "h ctx \<noteq> None" "h m = None" "m \<noteq> 0" "4 \<le> n"
  shows "\<exists>h1 h2. talloc_reference nullctx m ctx p h = Ok (p, h1) \<and> t_refs (ch h1 p) = m \<and>
           talloc_free dtor nullctx n p h1 = Some (Ok (False, h2)) \<and> rep {} h2 kids \<and> same_chunks h h2"
  using assms by (rule free_undoes_reference)

text \<open>\<open>talloc_total_blocks\<close> ends and counts the chunks of the subtree.\<close>

theorem talloc_total_blocks_count:
  assumes "rep {} h kids" "h p \<noteq> None" "2 * card (subtree kids p) \<le> n"
  shows "talloc_total_blocks n h p = Some (Ok (int (card (subtree kids p))))"
  using total_blocks_both [OF assms(1), of n] assms(2,3) by blast

section \<open>A small heap\<close>

text \<open>Chunk 1 with the child 2.\<close>

definition heap12 :: theap where
  "heap12 = [1 \<mapsto> null_chunk\<lparr>t_child := 2\<rparr>, 2 \<mapsto> null_chunk\<lparr>t_parent := 1\<rparr>]"

definition kids12 :: "ptr \<Rightarrow> ptr list" where
  "kids12 = (\<lambda>_. [])(1 := [2])"

lemma krel12: "krel kids12 = {(2, 1)}"
  by (auto simp: krel_def kids12_def split: if_splits)

lemma rep12: "rep {} heap12 kids12"
proof (rule repI)
  have "(2, 1) \<notin> ({} :: (ptr \<times> ptr) set)" "(1 :: ptr, 2 :: ptr) \<notin> {}\<^sup>*" by auto
  then show "acyclic (krel kids12)" unfolding krel12 by (auto simp: acyclic_def trancl_insert)
next
  fix a assume "heap12 a \<noteq> None" "root kids12 a"
  moreover have "\<not> root kids12 2" unfolding root_def by (intro notI) (drule spec [of _ 1], simp add: kids12_def)
  ultimately show "t_next (ch heap12 a) = 0 \<and> t_prev (ch heap12 a) = 0 \<and> t_parent (ch heap12 a) = 0"
    by (auto simp: heap12_def ch_def null_chunk_def split: if_splits)
qed (auto simp: heap12_def kids12_def ch_def null_chunk_def split: if_splits)

lemma subtree12: "subtree kids12 1 = {1, 2}" "subtree kids12 2 = {2}"
  using subtree_unfold [of kids12 1] subtree_unfold [of kids12 2] by (auto simp: kids12_def)

theorem talloc_free_subtree_witness:
  "\<exists>h'. talloc_free (\<lambda>d p h. (True, h)) 0 4 1 heap12 = Some (Ok (True, h')) \<and> h' 1 = None \<and> h' 2 = None"
  using talloc_free_subtree [OF rep12, of 1 4 "\<lambda>d p h. (True, h)" 0]
  by (auto simp: subtree12 quiet_def heap12_def ch_def null_chunk_def freed_def)

theorem talloc_forest_witness:
  "\<exists>h'. talloc 0 3 1 8 heap12 = Ok (3, h') \<and> rep {} h' (kids12(1 := [3, 2]))"
  using talloc_forest [OF rep12, of 1 3 8 0 0] by (auto simp: heap12_def kids12_def MAX_TALLOC_SIZE_def)

theorem talloc_free_undoes_reference_witness:
  "\<exists>h1 h2. talloc_reference 0 3 1 2 heap12 = Ok (2, h1) \<and> talloc_free (\<lambda>d p h. (True, h)) 0 4 2 h1 = Some (Ok (False, h2)) \<and>
     rep {} h2 kids12"
  using talloc_free_undoes_reference [OF rep12, of 2 1 3 4 0 "\<lambda>d p h. (True, h)"] by (auto simp: heap12_def ch_def null_chunk_def)

theorem talloc_total_blocks_count_witness: "talloc_total_blocks 4 heap12 1 = Some (Ok 2)"
  using talloc_total_blocks_count [OF rep12, of 1 4] by (simp add: subtree12 heap12_def)

theorem talloc_array_no_overflow_witness:
  "\<exists>h'. talloc_array 0 3 0 8 5 No_name heap12 = Ok (3, h') \<and> unat (t_size (ch h' 3)) = 40"
proof -
  have "\<exists>h'. talloc_array 0 3 0 8 5 No_name heap12 = Ok (3, h')"
    by (simp add: talloc_array_def MAX_TALLOC_SIZE_def talloc_named_const_def talloc_def talloc_set_name_const_def
        talloc_chunk_from_ptr_def)
  then show ?thesis using talloc_array_no_overflow [of 0 3 0 8 5 No_name heap12 3] by auto
qed

end
