(* ===== verification/Seq_File.thy ===== *)
theory Seq_File
  imports Nfsim_Prelude
begin

text \<open>
  Synthetic files made of records, core/seq\_file.c. The records come from a table of operations that a kernel module provides,
  so the table is an argument; its laws, those the comment of \<open>seq_open\<close> states, are the locale \<open>seq_source\<close>. Reading
  with buffers of any sizes and seeking are shown to implement a file that holds the concatenated records.
\<close>

section \<open>Files and their operations\<close>

text \<open>
  \<open>m_buf\<close> is the memory of the buffer, \<open>None\<close> for \<^verbatim>\<open>NULL\<close>; offsets are \<^verbatim>\<open>loff_t\<close>, sizes are far below the range of \<^verbatim>\<open>size_t\<close> because
  a buffer that large cannot be allocated. The semaphore is free on entry and exit of every operation.
\<close>

record seq_file =
  m_buf :: "char list option"
  m_size :: nat
  m_from :: nat
  m_count :: nat
  m_index :: int

text \<open>What start and next return: \<^verbatim>\<open>NULL\<close>, an error pointer, or an element. \<open>stop\<close> does not touch the file.\<close>

datatype 'e iter = End | Err int | Elem 'e

record 'e seq_operations =
  op_start :: "int \<Rightarrow> 'e iter \<times> int"
  op_next :: "'e \<Rightarrow> int \<Rightarrow> 'e iter \<times> int"
  op_show :: "'e \<Rightarrow> seq_file \<Rightarrow> int \<times> seq_file"

definition seq_open :: seq_file where
  "seq_open = \<lparr>m_buf = None, m_size = 0, m_from = 0, m_count = 0, m_index = 0\<rparr>"

definition store_at :: "nat \<Rightarrow> char list \<Rightarrow> char list \<Rightarrow> char list" where
  "store_at i s b = take i b @ s @ drop (i + length s) b"

definition put_text :: "string \<Rightarrow> seq_file \<Rightarrow> seq_file" where
  "put_text s m = m\<lparr>m_buf := map_option (store_at (m_count m) s) (m_buf m)\<rparr>"

definition seq_putc :: "char \<Rightarrow> seq_file \<Rightarrow> int \<times> seq_file" where
  "seq_putc c m =
     (if m_count m < m_size m then (0, (put_text [c] m)\<lparr>m_count := m_count m + 1\<rparr>) else (-1, m))"

definition seq_puts :: "string \<Rightarrow> seq_file \<Rightarrow> int \<times> seq_file" where
  "seq_puts s m =
     (if m_count m + length s < m_size m then (0, (put_text s m)\<lparr>m_count := m_count m + length s\<rparr>)
      else (-1, m\<lparr>m_count := m_size m\<rparr>))"

text \<open>\<open>s\<close> is the formatted text; \<^verbatim>\<open>vsnprintf\<close> stores as much of it as fits in front of a null byte.\<close>

definition seq_printf :: "string \<Rightarrow> seq_file \<Rightarrow> int \<times> seq_file" where
  "seq_printf s m =
     (if m_count m < m_size m then
        let m' = put_text (take (m_size m - m_count m - 1) s @ [CHR 0x00]) m in
        if m_count m + length s < m_size m then (0, m'\<lparr>m_count := m_count m + length s\<rparr>)
        else (-1, m'\<lparr>m_count := m_size m\<rparr>)
      else (-1, m\<lparr>m_count := m_size m\<rparr>))"

definition octal_escape :: "char \<Rightarrow> string" where
  "octal_escape c =
     (let n = of_char c :: nat in
      [CHR 0x5C, char_of (48 + n div 64 :: nat), char_of (48 + n div 8 mod 8 :: nat), char_of (48 + n mod 8 :: nat)])"

fun seq_escape_loop :: "string \<Rightarrow> string \<Rightarrow> seq_file \<Rightarrow> int \<times> seq_file" where
  "seq_escape_loop [] esc m = (0, m)"
| "seq_escape_loop (c # s) esc m =
     (if m_count m < m_size m then
        if c \<notin> set esc then seq_escape_loop s esc ((put_text [c] m)\<lparr>m_count := m_count m + 1\<rparr>)
        else if m_count m + 3 < m_size m then seq_escape_loop s esc ((put_text (octal_escape c) m)\<lparr>m_count := m_count m + 4\<rparr>)
        else (-1, m\<lparr>m_count := m_size m\<rparr>)
      else (0, m))"

definition seq_escape :: "string \<Rightarrow> string \<Rightarrow> seq_file \<Rightarrow> int \<times> seq_file" where
  "seq_escape s esc m = seq_escape_loop s esc m"

section \<open>Reading\<close>

text \<open>
  \<open>alloc n\<close> is \<open>talloc_size\<close>: the initial contents of \<open>n\<close> bytes, or nothing. The loop that looks for a buffer large enough and
  the loop that fills it are limited by fuel; \<open>None\<close> means that it ran out.
\<close>

definition PAGE_SIZE :: nat where "PAGE_SIZE = 4096"

type_synonym alloc = "nat \<Rightarrow> char list option"

definition grab_buffer :: "alloc \<Rightarrow> seq_file \<Rightarrow> seq_file" where
  "grab_buffer alloc m =
     (if m_buf m = None then m\<lparr>m_buf := alloc PAGE_SIZE, m_size := PAGE_SIZE\<rparr> else m)"

definition double_buffer :: "alloc \<Rightarrow> seq_file \<Rightarrow> seq_file" where
  "double_buffer alloc m = m\<lparr>m_buf := alloc (2 * m_size m), m_size := 2 * m_size m\<rparr>"

definition flush_buffer :: "nat \<Rightarrow> seq_file \<Rightarrow> string \<times> seq_file" where
  "flush_buffer sz m =
     (let n = min (m_count m) sz;
          out = (case m_buf m of None \<Rightarrow> [] | Some b \<Rightarrow> take n (drop (m_from m) b));
          m = m\<lparr>m_count := m_count m - n, m_from := m_from m + n\<rparr>
      in (out, if m_count m = 0 then m\<lparr>m_index := m_index m + 1\<rparr> else m))"

datatype 'e first_result = Fill seq_file 'e int | Stop seq_file int | Enomem seq_file

fun first_record :: "nat \<Rightarrow> alloc \<Rightarrow> 'e seq_operations \<Rightarrow> seq_file \<Rightarrow> 'e first_result option" where
  "first_record 0 alloc ops m = None"
| "first_record (Suc n) alloc ops m =
     (case op_start ops (m_index m) of
        (End, _) \<Rightarrow> Some (Stop (m\<lparr>m_count := 0\<rparr>) 0)
      | (Err e, _) \<Rightarrow> Some (Stop (m\<lparr>m_count := 0\<rparr>) e)
      | (Elem p, pos) \<Rightarrow>
          let (err, m) = op_show ops p m in
          if err \<noteq> 0 then Some (Stop (m\<lparr>m_count := 0\<rparr>) err)
          else if m_count m < m_size m then Some (Fill m p pos)
          else
            let m = double_buffer alloc m in
            if m_buf m = None then Some (Enomem m)
            else first_record n alloc ops (m\<lparr>m_count := 0\<rparr>))"

fun fill_buffer :: "nat \<Rightarrow> 'e seq_operations \<Rightarrow> nat \<Rightarrow> seq_file \<Rightarrow> 'e \<Rightarrow> int \<Rightarrow> (seq_file \<times> int \<times> int) option" where
  "fill_buffer 0 ops sz m p pos = None"
| "fill_buffer (Suc n) ops sz m p pos =
     (if m_count m < sz then
        case op_next ops p pos of
          (End, _) \<Rightarrow> Some (m, pos, 0)
        | (Err e, _) \<Rightarrow> Some (m, pos, e)
        | (Elem q, next) \<Rightarrow>
            let (err, m') = op_show ops q m in
            if err \<noteq> 0 \<or> m_count m' = m_size m' then Some (m'\<lparr>m_count := m_count m\<rparr>, pos, err)
            else fill_buffer n ops sz m' q next
      else Some (m, pos, 0))"

text \<open>The result is the return value, the bytes stored in the caller's buffer, the file and the new position.\<close>

type_synonym read_result = "int \<times> string \<times> seq_file \<times> int"

definition read_done :: "string \<Rightarrow> int \<Rightarrow> int \<Rightarrow> seq_file \<Rightarrow> read_result" where
  "read_done out err ppos m = (if out = [] then (err, [], m, ppos) else (int (length out), out, m, ppos + int (length out)))"

definition take_filled :: "nat \<Rightarrow> seq_file \<Rightarrow> int \<Rightarrow> string \<times> seq_file" where
  "take_filled sz m pos =
     (let n = min (m_count m) sz;
          out = (case m_buf m of None \<Rightarrow> [] | Some b \<Rightarrow> take n b);
          m = m\<lparr>m_count := m_count m - n\<rparr>
      in (out, if m_count m \<noteq> 0 then m\<lparr>m_from := n, m_index := pos\<rparr> else m\<lparr>m_index := pos + 1\<rparr>))"

definition read_records :: "nat \<Rightarrow> alloc \<Rightarrow> 'e seq_operations \<Rightarrow> nat \<Rightarrow> string \<Rightarrow> int \<Rightarrow> seq_file \<Rightarrow> read_result option" where
  "read_records fuel alloc ops sz out ppos m =
     (case first_record fuel alloc ops m of
        None \<Rightarrow> None
      | Some (Stop m err) \<Rightarrow> Some (read_done out err ppos m)
      | Some (Enomem m) \<Rightarrow> Some (read_done out (- ENOMEM) ppos m)
      | Some (Fill m p pos) \<Rightarrow>
          map_option (\<lambda>(m, pos, err). let (bs, m) = take_filled sz m pos in read_done (out @ bs) err ppos m)
            (fill_buffer fuel ops sz m p pos))"

definition seq_read :: "nat \<Rightarrow> alloc \<Rightarrow> 'e seq_operations \<Rightarrow> nat \<Rightarrow> int \<Rightarrow> seq_file \<Rightarrow> read_result option" where
  "seq_read fuel alloc ops sz ppos m =
     (let m = grab_buffer alloc m in
      if m_buf m = None then Some (read_done [] (- ENOMEM) ppos m)
      else if m_count m \<noteq> 0 then
        let n = min (m_count m) sz;
            (out, m) = flush_buffer sz m
        in if sz - n = 0 then Some (read_done out 0 ppos m)
           else read_records fuel alloc ops (sz - n) out ppos m
      else read_records fuel alloc ops sz [] ppos m)"

section \<open>Seeking\<close>

text \<open>One pass of \<open>traverse\<close> over the records from the element \<open>p\<close>; \<open>pos\<close> bytes have been passed.\<close>

fun traverse_loop :: "nat \<Rightarrow> alloc \<Rightarrow> 'e seq_operations \<Rightarrow> nat \<Rightarrow> nat \<Rightarrow> 'e iter \<Rightarrow> seq_file \<Rightarrow> (int \<times> seq_file) option" where
  "traverse_loop 0 alloc ops off pos p m = None"
| "traverse_loop (Suc n) alloc ops off pos p m =
     (case p of
        End \<Rightarrow> Some (0, m)
      | Err e \<Rightarrow> Some (e, m)
      | Elem q \<Rightarrow>
          let (err, m) = op_show ops q m in
          if err \<noteq> 0 then Some (err, m)
          else if m_count m = m_size m then
            let m = double_buffer alloc m in Some (if m_buf m = None then - ENOMEM else - EAGAIN, m)
          else if pos + m_count m > off then
            Some (0, m\<lparr>m_from := off - pos, m_count := m_count m - (off - pos)\<rparr>)
          else
            let pos = pos + m_count m; m = m\<lparr>m_count := 0\<rparr> in
            if pos = off then Some (0, m\<lparr>m_index := m_index m + 1\<rparr>)
            else
              let (p, i) = op_next ops q (m_index m)
              in traverse_loop n alloc ops off pos p (m\<lparr>m_index := i\<rparr>))"

definition traverse :: "nat \<Rightarrow> alloc \<Rightarrow> 'e seq_operations \<Rightarrow> nat \<Rightarrow> seq_file \<Rightarrow> (int \<times> seq_file) option" where
  "traverse fuel alloc ops off m =
     (let m = m\<lparr>m_index := 0, m_count := 0, m_from := 0\<rparr> in
      if off = 0 then Some (0, m)
      else
        let m = grab_buffer alloc m in
        if m_buf m = None then Some (- ENOMEM, m)
        else
          let (p, i) = op_start ops (m_index m)
          in traverse_loop fuel alloc ops off 0 p (m\<lparr>m_index := i\<rparr>))"

fun traverse_again :: "nat \<Rightarrow> nat \<Rightarrow> alloc \<Rightarrow> 'e seq_operations \<Rightarrow> nat \<Rightarrow> seq_file \<Rightarrow> (int \<times> seq_file) option" where
  "traverse_again 0 fuel alloc ops off m = None"
| "traverse_again (Suc n) fuel alloc ops off m =
     (case traverse fuel alloc ops off m of
        None \<Rightarrow> None
      | Some (ret, m) \<Rightarrow> if ret = - EAGAIN then traverse_again n fuel alloc ops off m else Some (ret, m))"

text \<open>The result is the return value, the new \<^verbatim>\<open>f_pos\<close> and the file. An origin other than 0 and 1 is refused.\<close>

definition seq_lseek :: "nat \<Rightarrow> alloc \<Rightarrow> 'e seq_operations \<Rightarrow> int \<Rightarrow> int \<Rightarrow> int \<Rightarrow> seq_file \<Rightarrow> (int \<times> int \<times> seq_file) option" where
  "seq_lseek fuel alloc ops offset origin f_pos m =
     (if origin \<noteq> 0 \<and> origin \<noteq> 1 then Some (- EINVAL, f_pos, m)
      else
        let offset = (if origin = 1 then offset + f_pos else offset) in
        if offset < 0 then Some (- EINVAL, f_pos, m)
        else if offset = f_pos then Some (offset, f_pos, m)
        else
          map_option (\<lambda>(ret, m). if ret \<noteq> 0 then (ret, 0, m\<lparr>m_index := 0, m_count := 0\<rparr>) else (offset, offset, m))
            (traverse_again fuel fuel alloc ops (nat offset) m))"

section \<open>Files with a single record\<close>

definition single_start :: "int \<Rightarrow> unit iter \<times> int" where
  "single_start pos = (if pos = 0 then Elem () else End, pos)"

definition single_next :: "unit \<Rightarrow> int \<Rightarrow> unit iter \<times> int" where
  "single_next v pos = (End, pos + 1)"

definition single_open :: "(unit \<Rightarrow> seq_file \<Rightarrow> int \<times> seq_file) \<Rightarrow> unit seq_operations \<times> seq_file" where
  "single_open showf = (\<lparr>op_start = single_start, op_next = single_next, op_show = showf\<rparr>, seq_open)"

section \<open>What an operation appends\<close>

definition buf_ok :: "seq_file \<Rightarrow> bool" where
  "buf_ok m \<longleftrightarrow> (case m_buf m of None \<Rightarrow> False | Some b \<Rightarrow> length b = m_size m \<and> 0 < m_size m \<and> m_count m \<le> m_size m)"

definition held :: "seq_file \<Rightarrow> string" where
  "held m = (case m_buf m of None \<Rightarrow> [] | Some b \<Rightarrow> take (m_count m) b)"

text \<open>
  The contract of everything that prints: the text is appended if it fits with a byte to spare, and otherwise the file
  is marked as overflown by a full count; what was there before is kept.
\<close>

definition appended :: "string \<Rightarrow> seq_file \<Rightarrow> seq_file \<Rightarrow> bool" where
  "appended s m m' \<longleftrightarrow>
     buf_ok m' \<and> m_size m' = m_size m \<and> m_index m' = m_index m \<and> m_from m' = m_from m \<and>
     held (m'\<lparr>m_count := m_count m\<rparr>) = held m \<and>
     (if m_count m + length s < m_size m then m_count m' = m_count m + length s \<and> held m' = held m @ s
      else m_count m' = m_size m)"

lemma store_at_length: "i + length s \<le> length b \<Longrightarrow> length (store_at i s b) = length b"
  by (simp add: store_at_def)

lemma take_store_at: "i \<le> length b \<Longrightarrow> take i (store_at i s b) = take i b"
  by (simp add: store_at_def)

lemma take_store_at_all: "i \<le> length b \<Longrightarrow> take (i + length s) (store_at i s b) = take i b @ s"
  by (simp add: store_at_def)

lemma buf_okE:
  assumes "buf_ok m"
  obtains b where "m_buf m = Some b" "length b = m_size m" "0 < m_size m" "m_count m \<le> m_size m"
  using assms by (auto simp: buf_ok_def split: option.splits)

lemma held_length: "buf_ok m \<Longrightarrow> length (held m) = m_count m"
  by (auto simp: buf_ok_def held_def split: option.splits)

lemma appended_overflow: "buf_ok m \<Longrightarrow> m_size m \<le> m_count m + length s \<Longrightarrow> appended s m (m\<lparr>m_count := m_size m\<rparr>)"
  by (auto simp: appended_def buf_ok_def held_def split: option.splits)

lemma appended_put:
  assumes "buf_ok m" "m_count m + length s \<le> m_size m"
  shows "appended s m ((put_text s m)\<lparr>m_count := m_count m + length s\<rparr>)"
  using assms
  by (auto simp: appended_def buf_ok_def held_def put_text_def store_at_length take_store_at take_store_at_all split: option.splits)

lemma appended_Nil: "buf_ok m \<Longrightarrow> m_count m < m_size m \<Longrightarrow> appended [] m m"
  by (auto simp: appended_def held_def)

lemma held_shorter: "k \<le> m_count m \<Longrightarrow> held (m\<lparr>m_count := k\<rparr>) = take k (held m)"
  by (simp add: held_def min_def split: option.splits)

lemma appended_count: "buf_ok m \<Longrightarrow> appended s m m' \<Longrightarrow> m_count m \<le> m_count m'"
  by (auto simp: appended_def elim!: buf_okE split: if_splits)

lemma appended_append:
  assumes "buf_ok m" "appended s m m'" "appended t m' m''"
  shows "appended (s @ t) m m''"
proof -
  have m': "buf_ok m'" using assms(2) by (simp add: appended_def)
  have "held (m''\<lparr>m_count := m_count m\<rparr>) = held ((m''\<lparr>m_count := m_count m'\<rparr>)\<lparr>m_count := m_count m\<rparr>)" by simp
  also have "\<dots> = take (m_count m) (held (m''\<lparr>m_count := m_count m'\<rparr>))"
    using appended_count [OF assms(1,2)] by (subst held_shorter) simp_all
  also have "\<dots> = take (m_count m) (held m')" using assms(3) by (simp add: appended_def)
  also have "\<dots> = held m" using assms(2) held_shorter [OF appended_count [OF assms(1,2)]] by (simp add: appended_def)
  finally show ?thesis using assms appended_count [OF m' assms(3)] by (auto simp: appended_def split: if_splits elim!: buf_okE)
qed

lemma seq_putc_appends: "buf_ok m \<Longrightarrow> appended [c] m (snd (seq_putc c m))"
  using appended_put [of m "[c]"] by (auto simp: seq_putc_def appended_def elim!: buf_okE)

lemma seq_puts_appends: "buf_ok m \<Longrightarrow> appended s m (snd (seq_puts s m))"
  using appended_put [of m s] appended_overflow [of m s] by (auto simp: seq_puts_def)

lemma seq_printf_appends: "buf_ok m \<Longrightarrow> appended s m (snd (seq_printf s m))"
proof (cases "m_count m < m_size m")
  case True
  assume "buf_ok m"
  then obtain b where b: "m_buf m = Some b" "length b = m_size m" "0 < m_size m" by (elim buf_okE)
  let ?s = "take (m_size m - m_count m - 1) s @ [CHR 0x00]"
  have l: "length (store_at (m_count m) ?s b) = length b" using True b by (intro store_at_length) simp
  have "take (m_count m) (store_at (m_count m) ?s b) = take (m_count m) b" using True b by (simp add: take_store_at)
  moreover have "take (m_count m + length s) (store_at (m_count m) ?s b) = take (m_count m) b @ s"
    if "m_count m + length s < m_size m"
    using that b by (simp add: store_at_def)
  ultimately show ?thesis
    using True b l by (cases "m_count m + length s < m_size m") (simp_all add: seq_printf_def Let_def appended_def buf_ok_def held_def put_text_def)
next
  case False
  assume "buf_ok m"
  then show ?thesis using False appended_overflow [of m s] by (simp add: seq_printf_def)
qed

definition escaped :: "string \<Rightarrow> string \<Rightarrow> string" where
  "escaped esc s = concat (map (\<lambda>c. if c \<in> set esc then octal_escape c else [c]) s)"

lemma appended_full: "buf_ok m \<Longrightarrow> m_count m = m_size m \<Longrightarrow> appended s m m"
  by (auto simp: appended_def held_def split: option.split)

lemma octal_escape_length: "length (octal_escape c) = 4"
  by (simp add: octal_escape_def Let_def)

lemma seq_escape_loop_appends:
  "buf_ok m \<Longrightarrow> m_count m < m_size m \<or> s \<noteq> [] \<Longrightarrow> appended (escaped esc s) m (snd (seq_escape_loop s esc m))"
proof (induction s esc m rule: seq_escape_loop.induct)
  case (1 esc m)
  then show ?case by (simp add: escaped_def appended_Nil)
next
  case (2 c s esc m)
  let ?x = "if c \<in> set esc then octal_escape c else [c]"
  let ?m = "(put_text ?x m)\<lparr>m_count := m_count m + length ?x\<rparr>"
  have e: "escaped esc (c # s) = ?x @ escaped esc s" by (simp add: escaped_def)
  show ?case
  proof (cases "m_count m < m_size m \<and> m_count m + length ?x \<le> m_size m")
    case True
    then have a: "appended ?x m ?m" using 2 appended_put by blast
    then have ok: "buf_ok ?m" by (simp add: appended_def)
    have step: "seq_escape_loop (c # s) esc m = seq_escape_loop s esc ?m" using True by (auto simp: octal_escape_length)
    have "appended (escaped esc s) ?m (snd (seq_escape_loop s esc ?m))"
    proof (cases "m_count ?m < m_size ?m \<or> s \<noteq> []")
      case True
      then show ?thesis using "2.IH" ok \<open>m_count m < m_size m \<and> _\<close> by (auto simp: octal_escape_length)
    next
      case False
      then show ?thesis using ok appended_full [of ?m] by (auto elim: buf_okE)
    qed
    then show ?thesis unfolding step e by (rule appended_append [OF "2.prems"(1) a])
  next
    case False
    then have "snd (seq_escape_loop (c # s) esc m) = m\<lparr>m_count := m_size m\<rparr> \<or> m_count m = m_size m \<and> snd (seq_escape_loop (c # s) esc m) = m"
      using "2.prems"(1) by (auto simp: octal_escape_length elim!: buf_okE split: if_splits)
    moreover have "m_size m \<le> m_count m + length (escaped esc (c # s))" using False by (auto simp: e)
    ultimately show ?thesis using "2.prems"(1) appended_overflow appended_full by metis
  qed
qed

section \<open>Files with records\<close>

definition rec_pos :: "string list \<Rightarrow> nat \<Rightarrow> nat" where
  "rec_pos recs i = length (concat (take i recs))"

lemma concat_take_Suc: "i < length recs \<Longrightarrow> concat (take (Suc i) recs) = concat (take i recs) @ recs ! i"
  by (simp add: take_Suc_conv_app_nth)

lemma rec_pos_Suc: "i < length recs \<Longrightarrow> rec_pos recs (Suc i) = rec_pos recs i + length (recs ! i)"
  by (simp add: rec_pos_def concat_take_Suc)

lemma rec_pos_le: "i \<le> j \<Longrightarrow> rec_pos recs i \<le> rec_pos recs j"
proof -
  assume "i \<le> j"
  then have "take j recs = take i recs @ take (j - i) (drop i recs)" by (metis le_add_diff_inverse take_add)
  then show ?thesis by (simp add: rec_pos_def)
qed

lemma rec_pos_all: "length recs \<le> i \<Longrightarrow> rec_pos recs i = length (concat recs)"
  by (simp add: rec_pos_def)

lemma take_content: "concat (take i recs) = take (rec_pos recs i) (concat recs)"
  by (metis append_eq_conv_conj append_take_drop_id concat_append rec_pos_def)

text \<open>
  The state of the file when the next byte to be read is number \<open>pos\<close>: either nothing is buffered and the index is that of
  the record that starts there, or the buffer holds the rest of the records up to and including the one of the index.
\<close>

definition seq_at :: "string list \<Rightarrow> nat \<Rightarrow> seq_file \<Rightarrow> bool" where
  "seq_at recs pos m \<longleftrightarrow>
     (m_buf m \<noteq> None \<longrightarrow> buf_ok m) \<and> (m_buf m = None \<longrightarrow> m_count m = 0) \<and>
     (\<exists>i. m_index m = int i \<and>
       (if m_count m = 0 then pos = rec_pos recs i \<or> length recs \<le> i \<and> length (concat recs) \<le> pos
        else i < length recs \<and> m_from m + m_count m \<le> m_size m \<and> pos + m_count m = rec_pos recs (Suc i) \<and>
             take (m_count m) (drop (m_from m) (the (m_buf m))) = take (m_count m) (drop pos (concat recs))))"

lemma seq_at_between:
  "buf_ok m \<Longrightarrow> m_count m = 0 \<Longrightarrow> m_index m = int i \<Longrightarrow>
    pos = rec_pos recs i \<or> length recs \<le> i \<and> length (concat recs) \<le> pos \<Longrightarrow> seq_at recs pos m"
  by (auto simp: seq_at_def elim: buf_okE)

lemma buf_ok_empty: "buf_ok m \<Longrightarrow> buf_ok (m\<lparr>m_count := 0, m_index := i\<rparr>)" "buf_ok m \<Longrightarrow> buf_ok (m\<lparr>m_count := 0\<rparr>)"
  by (auto simp: buf_ok_def split: option.splits)

locale seq_source =
  fixes ops :: "'e seq_operations" and elem :: "nat \<Rightarrow> 'e" and recs :: "string list"
  assumes start: "op_start ops (int i) = (if i < length recs then Elem (elem i) else End, int i)"
    and step: "i < length recs \<Longrightarrow>
      op_next ops (elem i) (int i) = (if Suc i < length recs then Elem (elem (Suc i)) else End, int (Suc i))"
    and prints: "i < length recs \<Longrightarrow> buf_ok m \<Longrightarrow> \<exists>m'. op_show ops (elem i) m = (0, m') \<and> appended (recs ! i) m m'"
begin

lemma first_record_end:
  "m_index m = int i \<Longrightarrow> length recs \<le> i \<Longrightarrow> first_record (Suc n) alloc ops m = Some (Stop (m\<lparr>m_count := 0\<rparr>) 0)"
  by (simp add: start)

lemma first_record_fits:
  assumes "\<And>n. \<exists>b. alloc n = Some b \<and> length b = n" "i < length recs"
  shows "buf_ok m \<Longrightarrow> m_count m = 0 \<Longrightarrow> m_index m = int i \<Longrightarrow> length (recs ! i) < m_size m + n \<Longrightarrow>
    \<exists>m'. first_record (Suc n) alloc ops m = Some (Fill m' (elem i) (int i)) \<and> buf_ok m' \<and> m_index m' = int i \<and>
      m_count m' < m_size m' \<and> held m' = recs ! i"
proof (induction n arbitrary: m)
  case (0 m)
  from prints [OF assms(2) "0.prems"(1)] obtain m' where "op_show ops (elem i) m = (0, m')" "appended (recs ! i) m m'" by blast
  then show ?case using 0 assms(2) by (auto simp: start appended_def held_def split: if_splits option.splits)
next
  case (Suc n m)
  from prints [OF assms(2) Suc.prems(1)] obtain m' where m': "op_show ops (elem i) m = (0, m')" "appended (recs ! i) m m'" by blast
  show ?case
  proof (cases "length (recs ! i) < m_size m")
    case True
    then show ?thesis using m' Suc.prems assms(2) by (auto simp: start appended_def held_def split: if_splits option.splits)
  next
    case False
    then have full: "m_count m' = m_size m" "m_size m' = m_size m" "m_index m' = int i" "buf_ok m'"
      using m'(2) Suc.prems by (auto simp: appended_def)
    obtain b where b: "alloc (2 * m_size m) = Some b" "length b = 2 * m_size m" using assms(1) by blast
    let ?m = "(double_buffer alloc m')\<lparr>m_count := 0\<rparr>"
    have "buf_ok ?m" "m_count ?m = 0" "m_index ?m = int i" "length (recs ! i) < m_size ?m + n"
      using b full Suc.prems by (auto simp: double_buffer_def buf_ok_def split: option.splits)
    note IH = Suc.IH [OF this]
    have "first_record (Suc (Suc n)) alloc ops m = first_record (Suc n) alloc ops ?m"
      using m' full b assms(2) Suc.prems(3) by (simp add: start double_buffer_def del: first_record.simps(2)) (simp add: start double_buffer_def)
    then show ?thesis using IH by simp
  qed
qed

lemma fill_buffer_ok:
  "i < length recs \<Longrightarrow> buf_ok m \<Longrightarrow> m_count m < m_size m \<Longrightarrow> P \<le> rec_pos recs i \<Longrightarrow> held m = drop P (concat (take (Suc i) recs)) \<Longrightarrow>
    length recs - i \<le> n \<Longrightarrow>
    \<exists>m' j. fill_buffer n ops sz m (elem i) (int i) = Some (m', int j, 0) \<and> i \<le> j \<and> j < length recs \<and> buf_ok m' \<and>
      held m' = drop P (concat (take (Suc j) recs))"
proof (induction n arbitrary: i m)
  case (Suc n i m)
  show ?case
  proof (cases "m_count m < sz \<and> Suc i < length recs")
    case False
    then show ?thesis using Suc.prems step [of i] by (intro exI [of _ m] exI [of _ i]) auto
  next
    case True
    from prints [of "Suc i"] True Suc.prems(2) obtain m' where m': "op_show ops (elem (Suc i)) m = (0, m')" "appended (recs ! Suc i) m m'"
      by blast
    show ?thesis
    proof (cases "m_count m + length (recs ! Suc i) < m_size m")
      case fits: True
      then have a: "buf_ok m'" "m_count m' < m_size m'" "held m' = held m @ recs ! Suc i" using m'(2) by (auto simp: appended_def)
      have "P \<le> rec_pos recs (Suc i)" using Suc.prems(4) rec_pos_le [of i "Suc i" recs] by simp
      moreover have "held m' = drop P (concat (take (Suc (Suc i)) recs))"
        using a(3) Suc.prems(5) True calculation by (simp add: concat_take_Suc [of "Suc i"] rec_pos_def)
      moreover have "length recs - Suc i \<le> n" using Suc.prems(6) by linarith
      ultimately obtain m'' j where "fill_buffer n ops sz m' (elem (Suc i)) (int (Suc i)) = Some (m'', int j, 0)" "Suc i \<le> j" "j < length recs"
        "buf_ok m''" "held m'' = drop P (concat (take (Suc j) recs))"
        using Suc.IH [of "Suc i" m'] True a(1,2) by blast
      then show ?thesis
        using True step [of i] m'(1) a(2) by (intro exI [of _ m''] exI [of _ j]) auto
    next
      case False
      then have "m_count m' = m_size m'" "held (m'\<lparr>m_count := m_count m\<rparr>) = held m" "buf_ok (m'\<lparr>m_count := m_count m\<rparr>)"
        using m'(2) Suc.prems(3) by (auto simp: appended_def buf_ok_def split: option.splits)
      then show ?thesis
        using True step [of i] m'(1) Suc.prems by (intro exI [of _ "m'\<lparr>m_count := m_count m\<rparr>"] exI [of _ i]) auto
    qed
  qed
qed simp

text \<open>What is taken from the filled buffer, and the state it leaves.\<close>

lemma take_filled_ok:
  assumes "buf_ok m" "held m = drop (rec_pos recs i) (concat (take (Suc j) recs))" "i \<le> j" "j < length recs"
    "take_filled sz m (int j) = (bs, m')"
  shows "\<exists>k. bs = take k (drop (rec_pos recs i) (concat recs)) \<and> k \<le> sz \<and> length bs = k \<and> seq_at recs (rec_pos recs i + k) m' \<and>
    (0 < sz \<longrightarrow> rec_pos recs i < rec_pos recs (Suc j) \<longrightarrow> 0 < k)"
proof -
  obtain b where b: "m_buf m = Some b" "length b = m_size m" "0 < m_size m" "m_count m \<le> m_size m" using assms(1) by (rule buf_okE)
  let ?P = "rec_pos recs i" and ?Q = "rec_pos recs (Suc j)"
  have PQ: "?P \<le> ?Q" using assms(3) by (intro rec_pos_le) simp
  have Q: "?Q \<le> length (concat recs)" using rec_pos_le [of "Suc j" "length recs" recs] assms(4) by (simp add: rec_pos_all)
  have held: "take (m_count m) b = take (?Q - ?P) (drop ?P (concat recs))"
    using assms(2) b(1) by (simp add: held_def take_content [of "Suc j"] drop_take)
  have c: "m_count m = ?Q - ?P" using arg_cong [OF held, of length] b Q by simp
  let ?k = "min (m_count m) sz"
  have bs: "bs = take ?k b" "m' = (if m_count m - ?k \<noteq> 0 then m\<lparr>m_count := m_count m - ?k, m_from := ?k, m_index := int j\<rparr>
      else m\<lparr>m_count := 0, m_index := int j + 1\<rparr>)"
    using assms(5) b(1) by (auto simp: take_filled_def Let_def split: if_splits)
  have heldc: "take (m_count m) b = take (m_count m) (drop ?P (concat recs))" using held c by simp
  have "bs = take ?k (take (m_count m) b)" unfolding bs(1) by (simp add: min_def)
  also note heldc
  also have "take ?k (take (m_count m) (drop ?P (concat recs))) = take ?k (drop ?P (concat recs))" by (simp add: min_def)
  finally have 1: "bs = take ?k (drop ?P (concat recs))" .
  have 2: "length bs = ?k" using bs(1) b by simp
  have "take (m_count m - ?k) (drop ?k b) = drop ?k (take (m_count m) b)" by (simp add: drop_take)
  also have "\<dots> = take (m_count m - ?k) (drop (?P + ?k) (concat recs))" unfolding heldc by (simp add: drop_take add.commute)
  finally have 3: "take (m_count m - ?k) (drop ?k b) = take (m_count m - ?k) (drop (?P + ?k) (concat recs))" .
  have "seq_at recs (?P + ?k) m'"
  proof (cases "m_count m - ?k = 0")
    case True
    then have "?P + ?k = ?Q" using c PQ by simp
    then show ?thesis using True b bs(2) by (simp add: seq_at_def buf_ok_def) (intro exI [of _ "Suc j"], simp)
  next
    case False
    then have "?P + ?k + (m_count m - ?k) = ?Q" using c PQ by simp
    then show ?thesis using False b bs(2) 3 assms(4) by (simp add: seq_at_def buf_ok_def)
  qed
  then show ?thesis using 1 2 c by (intro exI [of _ ?k]) simp
qed

lemma read_records_ok:
  assumes "\<And>n. \<exists>b. alloc n = Some b \<and> length b = n" "buf_ok m" "m_count m = 0" "m_index m = int i"
    and "pos = rec_pos recs i \<or> length recs \<le> i \<and> length (concat recs) \<le> pos"
    and "length (concat recs) + length recs < fuel"
  shows "\<exists>k m'. read_records fuel alloc ops sz out ppos m = Some (read_done (out @ take k (drop pos (concat recs))) 0 ppos m') \<and>
    k \<le> sz \<and> length (take k (drop pos (concat recs))) = k \<and> seq_at recs (pos + k) m' \<and>
    (0 < sz \<longrightarrow> [] \<notin> set recs \<longrightarrow> pos < length (concat recs) \<longrightarrow> 0 < k)"
proof (cases "i < length recs")
  case False
  then have p: "length (concat recs) \<le> pos" using assms(5) by (auto simp: rec_pos_all)
  obtain n where n: "fuel = Suc n" using assms(6) by (cases fuel) auto
  have "seq_at recs pos (m\<lparr>m_count := 0\<rparr>)" using False assms p by (auto simp: seq_at_def buf_ok_def split: option.splits)
  then show ?thesis
    using False first_record_end [OF assms(4)] n p
    by (intro exI [of _ 0] exI [of _ "m\<lparr>m_count := 0\<rparr>"]) (simp add: read_records_def)
next
  case True
  have pos: "pos = rec_pos recs i" using True assms(5) by auto
  obtain n where n: "fuel = Suc n" using assms(6) by (cases fuel) auto
  have "length (recs ! i) \<le> rec_pos recs (Suc i)" using True by (simp add: rec_pos_Suc)
  also have "\<dots> \<le> length (concat recs)" using rec_pos_le [of "Suc i" "length recs" recs] True by (simp add: rec_pos_all)
  finally have "length (recs ! i) < m_size m + n" using assms(2,6) n by (auto elim: buf_okE)
  from first_record_fits [OF assms(1) True assms(2-4) this] obtain m1 where
    m1: "first_record fuel alloc ops m = Some (Fill m1 (elem i) (int i))" "buf_ok m1" "m_count m1 < m_size m1" "held m1 = recs ! i"
    using n by blast
  have "held m1 = drop (rec_pos recs i) (concat (take (Suc i) recs))" using m1(4) True by (simp add: concat_take_Suc rec_pos_def)
  moreover have "length recs - i \<le> fuel" using assms(6) by simp
  ultimately obtain m2 j where m2: "fill_buffer fuel ops sz m1 (elem i) (int i) = Some (m2, int j, 0)" "i \<le> j" "j < length recs" "buf_ok m2"
    "held m2 = drop (rec_pos recs i) (concat (take (Suc j) recs))"
    using fill_buffer_ok [OF True m1(2,3) order_refl] by blast
  obtain bs m3 where m3: "take_filled sz m2 (int j) = (bs, m3)" by fastforce
  from take_filled_ok [OF m2(4,5,2,3) m3] obtain k where k: "bs = take k (drop pos (concat recs))" "k \<le> sz" "length bs = k"
    "seq_at recs (pos + k) m3" "0 < sz \<longrightarrow> rec_pos recs i < rec_pos recs (Suc j) \<longrightarrow> 0 < k"
    unfolding pos by blast
  have "rec_pos recs i < rec_pos recs (Suc j)" if "[] \<notin> set recs"
  proof -
    have "recs ! i \<noteq> []" using that True nth_mem by metis
    then have "rec_pos recs i < rec_pos recs (Suc i)" using True by (simp add: rec_pos_Suc)
    also have "\<dots> \<le> rec_pos recs (Suc j)" using m2(2) by (intro rec_pos_le) simp
    finally show ?thesis .
  qed
  then show ?thesis using m1(1) m2(1) m3 k by (intro exI [of _ k] exI [of _ m3]) (simp add: read_records_def)
qed

lemma flush_buffer_ok:
  assumes "seq_at recs pos m" "m_count m \<noteq> 0" "flush_buffer sz m = (out, m')" "k = min (m_count m) sz"
  shows "out = take k (drop pos (concat recs)) \<and> length out = k \<and> seq_at recs (pos + k) m' \<and> m_buf m' = m_buf m \<and> m_size m' = m_size m \<and>
    m_count m' = m_count m - k"
proof -
  from assms(1,2) obtain i b where b: "m_buf m = Some b" "length b = m_size m" "0 < m_size m" "m_count m \<le> m_size m"
    and i: "m_index m = int i" "i < length recs" "m_from m + m_count m \<le> m_size m" "pos + m_count m = rec_pos recs (Suc i)"
      "take (m_count m) (drop (m_from m) b) = take (m_count m) (drop pos (concat recs))"
    by (auto simp: seq_at_def elim!: buf_okE)
  have m': "out = take k (drop (m_from m) b)"
      "m' = (if m_count m - k = 0 then m\<lparr>m_count := 0, m_from := m_from m + k, m_index := m_index m + 1\<rparr>
             else m\<lparr>m_count := m_count m - k, m_from := m_from m + k\<rparr>)"
    using assms(3,4) b(1) by (auto simp: flush_buffer_def Let_def split: if_splits)
  have k: "k \<le> m_count m" using assms(4) by simp
  have "out = take k (take (m_count m) (drop (m_from m) b))" using m'(1) k by (simp add: min_absorb1)
  then have 1: "out = take k (drop pos (concat recs))" unfolding i(5) using k by (simp add: min_absorb1)
  have "take (m_count m - k) (drop (m_from m + k) b) = drop k (take (m_count m) (drop (m_from m) b))"
    by (simp add: drop_take add.commute)
  also have "\<dots> = take (m_count m - k) (drop (pos + k) (concat recs))" unfolding i(5) by (simp add: drop_take add.commute)
  finally have 2: "take (m_count m - k) (drop (m_from m + k) b) = take (m_count m - k) (drop (pos + k) (concat recs))" .
  have "seq_at recs (pos + k) m'"
  proof (cases "m_count m - k = 0")
    case True
    then show ?thesis using i k b m'(2) by (simp add: seq_at_def buf_ok_def) (intro exI [of _ "Suc i"], simp)
  next
    case False
    then show ?thesis using i k b m'(2) 2 by (simp add: seq_at_def buf_ok_def)
  qed
  moreover have "length out = k" using m'(1) i(3) b k by simp
  ultimately show ?thesis using 1 m'(2) k by simp
qed

lemma seq_read_ok:
  assumes "\<And>n. \<exists>b. alloc n = Some b \<and> length b = n" "seq_at recs pos m" "length (concat recs) + length recs < fuel"
  shows "\<exists>k m'. seq_read fuel alloc ops sz ppos m = Some (int k, take k (drop pos (concat recs)), m', ppos + int k) \<and>
    k \<le> sz \<and> seq_at recs (pos + k) m' \<and> (0 < sz \<longrightarrow> [] \<notin> set recs \<longrightarrow> pos < length (concat recs) \<longrightarrow> 0 < k)"
proof -
  let ?c = "concat recs"
  define m1 where "m1 = grab_buffer alloc m"
  obtain b0 where b0: "alloc PAGE_SIZE = Some b0" "length b0 = PAGE_SIZE" using assms(1) by blast
  have m1: "seq_at recs pos m1" "m_buf m1 \<noteq> None" "m_count m1 = m_count m" "m_index m1 = m_index m"
    using assms(2) b0 by (auto simp: m1_def grab_buffer_def seq_at_def buf_ok_def PAGE_SIZE_def)
  then have ok: "buf_ok m1" by (simp add: seq_at_def)
  have fin: "read_done (out @ bs) 0 ppos m' = (int k, out @ bs, m', ppos + int k)" if "length out + length bs = k" for out bs k and m' :: seq_file
    using that by (auto simp: read_done_def)
  show ?thesis
  proof (cases "m_count m1 = 0")
    case True
    then obtain i where i: "m_index m1 = int i" "pos = rec_pos recs i \<or> length recs \<le> i \<and> length ?c \<le> pos"
      using m1(1) by (auto simp: seq_at_def)
    from read_records_ok [OF assms(1) ok True i assms(3), of sz "[]" ppos] obtain k m' where
      "read_records fuel alloc ops sz [] ppos m1 = Some (read_done (take k (drop pos ?c)) 0 ppos m')" "k \<le> sz"
      "length (take k (drop pos ?c)) = k" "seq_at recs (pos + k) m'" "0 < sz \<longrightarrow> [] \<notin> set recs \<longrightarrow> pos < length ?c \<longrightarrow> 0 < k"
      by auto
    then show ?thesis using fin [of "[]"] True m1(2) by (intro exI [of _ k] exI [of _ m']) (auto simp: seq_read_def m1_def [symmetric] Let_def)
  next
    case False
    let ?n = "min (m_count m1) sz"
    obtain out m2 where f: "flush_buffer sz m1 = (out, m2)" by fastforce
    note fl = flush_buffer_ok [OF m1(1) False f refl]
    have r: "seq_read fuel alloc ops sz ppos m =
        (if sz - ?n = 0 then Some (read_done out 0 ppos m2) else read_records fuel alloc ops (sz - ?n) out ppos m2)"
      using False m1(2) f by (auto simp: seq_read_def m1_def [symmetric] Let_def)
    show ?thesis
    proof (cases "sz - ?n = 0")
      case True
      then show ?thesis using r fl False fin [of out "[]" ?n] by (intro exI [of _ ?n] exI [of _ m2]) auto
    next
      case more: False
      then have n: "?n = m_count m1" "m_count m2 = 0" using fl by auto
      have ok2: "buf_ok m2" using fl m1(2) by (simp add: seq_at_def)
      obtain i where i: "m_index m2 = int i" "pos + ?n = rec_pos recs i \<or> length recs \<le> i \<and> length ?c \<le> pos + ?n"
        using fl n(2) by (auto simp: seq_at_def)
      from read_records_ok [OF assms(1) ok2 n(2) i assms(3), of "sz - ?n" out ppos] obtain k m' where
        k: "read_records fuel alloc ops (sz - ?n) out ppos m2 = Some (read_done (out @ take k (drop (pos + ?n) ?c)) 0 ppos m')" "k \<le> sz - ?n"
          "length (take k (drop (pos + ?n) ?c)) = k" "seq_at recs (pos + ?n + k) m'"
        by blast
      have "out @ take k (drop (pos + ?n) ?c) = take (?n + k) (drop pos ?c)"
        using fl by (simp add: take_add) (simp add: add.commute)
      then show ?thesis using r more k fl False fin [of out "take k (drop (pos + ?n) ?c)" "?n + k"]
        by (intro exI [of _ "?n + k"] exI [of _ m']) (auto simp: add.assoc)
    qed
  qed
qed

lemma record_content: "i < length recs \<Longrightarrow> take (length (recs ! i)) (drop (rec_pos recs i) (concat recs)) = recs ! i"
proof -
  assume "i < length recs"
  then have "concat recs = concat (take i recs) @ recs ! i @ concat (drop (Suc i) recs)"
    by (metis append.assoc concat_append concat_take_Suc append_take_drop_id)
  then show ?thesis by (simp add: rec_pos_def)
qed

definition more_space :: "nat \<Rightarrow> seq_file \<Rightarrow> bool" where
  "more_space n m \<longleftrightarrow> (case m_buf m of None \<Rightarrow> False | Some b \<Rightarrow> length b = m_size m \<and> m_size m = n)"

lemma seek_within:
  assumes "i < length recs" "buf_ok m" "m_index m = int i" "held m = recs ! i" "rec_pos recs i < off" "off < rec_pos recs i + m_count m"
  defines "d \<equiv> off - rec_pos recs i"
  shows "seq_at recs off (m\<lparr>m_from := d, m_count := m_count m - d\<rparr>)"
proof -
  obtain b where b: "m_buf m = Some b" "length b = m_size m" "0 < m_size m" "m_count m \<le> m_size m" using assms(2) by (rule buf_okE)
  have c: "m_count m = length (recs ! i)" using held_length [OF assms(2)] assms(4) by simp
  have h: "take (m_count m) b = take (m_count m) (drop (rec_pos recs i) (concat recs))"
    using assms(1,4) b(1) c by (simp add: held_def record_content)
  have "take (m_count m - d) (drop d b) = drop d (take (m_count m) b)" by (simp add: drop_take)
  also have "\<dots> = take (m_count m - d) (drop off (concat recs))" unfolding h using assms(5) by (simp add: drop_take d_def)
  finally show ?thesis
    using assms b c by (simp add: seq_at_def buf_ok_def d_def rec_pos_Suc)
qed

lemma traverse_loop_ok:
  assumes alloc: "\<And>n. \<exists>b. alloc n = Some b \<and> length b = n"
  shows "i \<le> length recs \<Longrightarrow> buf_ok m \<Longrightarrow> m_count m = 0 \<Longrightarrow> m_index m = int i \<Longrightarrow> rec_pos recs i < off \<Longrightarrow> length recs - i < n \<Longrightarrow>
    p = (if i < length recs then Elem (elem i) else End) \<Longrightarrow>
    \<exists>ret m'. traverse_loop n alloc ops off (rec_pos recs i) p m = Some (ret, m') \<and>
      (ret = 0 \<and> seq_at recs off m' \<or> ret = - EAGAIN \<and> more_space (2 * m_size m) m' \<and> m_size m \<le> length (concat recs))"
proof (induction n arbitrary: i m p)
  case (Suc n i m p)
  show ?case
  proof (cases "i < length recs")
    case False
    then show ?thesis using Suc.prems by (auto simp: seq_at_def rec_pos_all)
  next
    case True
    let ?l = "length (recs ! i)"
    have le: "rec_pos recs i + ?l \<le> length (concat recs)"
      using rec_pos_le [of "Suc i" "length recs" recs] True by (simp add: rec_pos_Suc rec_pos_all)
    from prints [OF True Suc.prems(2)] obtain m1 where m1: "op_show ops (elem i) m = (0, m1)" "appended (recs ! i) m m1" by blast
    have p: "p = Elem (elem i)" using Suc.prems True by simp
    show ?thesis
    proof (cases "?l < m_size m")
      case False
      then have full: "m_count m1 = m_size m1" "m_size m1 = m_size m" using m1(2) Suc.prems(3) by (auto simp: appended_def)
      obtain b where "alloc (2 * m_size m) = Some b" "length b = 2 * m_size m" using alloc by blast
      then show ?thesis using p m1(1) full False le by (auto simp: double_buffer_def Let_def more_space_def)
    next
      case fits: True
      then have a: "m_count m1 = ?l" "held m1 = recs ! i" "buf_ok m1" "m_index m1 = int i" "m_size m1 = m_size m"
        using m1(2) Suc.prems(2-4) by (auto simp: appended_def held_def split: option.splits)
      let ?m = "m1\<lparr>m_count := 0\<rparr>"
      have ok: "buf_ok ?m" using a(3) by (auto simp: buf_ok_def split: option.splits)
      consider "off < rec_pos recs i + ?l" | "rec_pos recs i + ?l = off" | "rec_pos recs i + ?l < off" by linarith
      then show ?thesis
      proof cases
        case 1
        then show ?thesis using p m1(1) a fits seek_within [OF True a(3,4,2) Suc.prems(5)] by (simp add: Let_def)
      next
        case 2
        then have "seq_at recs off (?m\<lparr>m_index := int i + 1\<rparr>)"
          using True buf_ok_empty(1) [OF a(3)] by (intro seq_at_between [of _ "Suc i"]) (simp_all add: rec_pos_Suc)
        then show ?thesis using p m1(1) a fits 2 by (simp add: Let_def)
      next
        case 3
        then have "rec_pos recs (Suc i) < off" using True by (simp add: rec_pos_Suc)
        moreover have "buf_ok (?m\<lparr>m_index := int (Suc i)\<rparr>)" by (rule buf_ok_empty(1) [OF a(3)])
        moreover have "length recs - Suc i < n" using Suc.prems(6) True by linarith
        ultimately obtain ret m' where r: "traverse_loop n alloc ops off (rec_pos recs (Suc i)) (if Suc i < length recs then Elem (elem (Suc i)) else End)
            (?m\<lparr>m_index := int (Suc i)\<rparr>) = Some (ret, m')"
          "ret = 0 \<and> seq_at recs off m' \<or> ret = - EAGAIN \<and> more_space (2 * m_size m) m' \<and> m_size m \<le> length (concat recs)"
          using Suc.IH [of "Suc i" "?m\<lparr>m_index := int (Suc i)\<rparr>"] True a(5) by auto
        then show ?thesis using p m1(1) a fits 3 step [OF True] True by (simp add: Let_def rec_pos_Suc)
      qed
    qed
  qed
qed simp

definition buf_size :: "seq_file \<Rightarrow> nat" where
  "buf_size m = (if m_buf m = None then 0 else m_size m)"

definition has_space :: "seq_file \<Rightarrow> bool" where
  "has_space m \<longleftrightarrow> (m_buf m \<noteq> None \<longrightarrow> more_space (m_size m) m \<and> 0 < m_size m)"

lemma traverse_ok:
  assumes alloc: "\<And>n. \<exists>b. alloc n = Some b \<and> length b = n" and "has_space m" "length recs < fuel"
  shows "\<exists>ret m'. traverse fuel alloc ops off m = Some (ret, m') \<and>
      (ret = 0 \<and> seq_at recs off m' \<or>
       ret = - EAGAIN \<and> has_space m' \<and> buf_size m < buf_size m' \<and> buf_size m \<le> length (concat recs))"
proof (cases "off = 0")
  case True
  then show ?thesis
    using assms(2) by (auto simp: traverse_def has_space_def seq_at_def buf_ok_def more_space_def rec_pos_def split: option.splits)
next
  case False
  define m1 where "m1 = grab_buffer alloc (m\<lparr>m_index := 0, m_count := 0, m_from := 0\<rparr>)"
  obtain b0 where b0: "alloc PAGE_SIZE = Some b0" "length b0 = PAGE_SIZE" using alloc by blast
  have ok: "buf_ok m1" "m_buf m1 \<noteq> None" "m_count m1 = 0" "m_index m1 = int 0" "buf_size m \<le> m_size m1" "0 < m_size m1"
    using assms(2) b0
    by (auto simp: m1_def grab_buffer_def buf_ok_def more_space_def has_space_def buf_size_def PAGE_SIZE_def split: option.splits)
  let ?p = "if 0 < length recs then Elem (elem 0) else End"
  have s: "op_start ops (m_index m1) = (?p, 0)" using start [of 0] ok(4) by simp
  have e: "m1\<lparr>m_index := 0\<rparr> = m1" using ok(4) by (cases m1) simp
  have t: "traverse fuel alloc ops off m = traverse_loop fuel alloc ops off (rec_pos recs 0) ?p m1"
    unfolding traverse_def Let_def m1_def [symmetric] s using False ok(2) by (simp add: e rec_pos_def del: not_None_eq)
  obtain ret m' where "traverse_loop fuel alloc ops off (rec_pos recs 0) ?p m1 = Some (ret, m')"
    "ret = 0 \<and> seq_at recs off m' \<or> ret = - EAGAIN \<and> more_space (2 * m_size m1) m' \<and> m_size m1 \<le> length (concat recs)"
    using traverse_loop_ok [OF alloc _ ok(1,3,4), of off fuel ?p] False assms(3) by (auto simp: rec_pos_def)
  then show ?thesis
    unfolding t using ok(5,6) by (auto simp: has_space_def more_space_def buf_size_def split: option.splits if_splits)
qed

lemma traverse_again_ok:
  assumes alloc: "\<And>n. \<exists>b. alloc n = Some b \<and> length b = n" and "length recs < fuel"
  shows "has_space m \<Longrightarrow> length (concat recs) < buf_size m + n \<Longrightarrow>
    \<exists>m'. traverse_again (Suc n) fuel alloc ops off m = Some (0, m') \<and> seq_at recs off m'"
proof (induction n arbitrary: m)
  case (0 m)
  then show ?case using traverse_ok [OF alloc 0(1) assms(2), of off] by (auto simp: EAGAIN_def)
next
  case (Suc n m)
  from traverse_ok [OF alloc Suc.prems(1) assms(2), of off] obtain ret m' where r: "traverse fuel alloc ops off m = Some (ret, m')"
    "ret = 0 \<and> seq_at recs off m' \<or> ret = - EAGAIN \<and> has_space m' \<and> buf_size m < buf_size m'" by auto
  from r(2) show ?case
  proof
    assume "ret = 0 \<and> seq_at recs off m'"
    then show ?thesis using r(1) by (simp add: EAGAIN_def)
  next
    assume e: "ret = - EAGAIN \<and> has_space m' \<and> buf_size m < buf_size m'"
    then have "length (concat recs) < buf_size m' + n" using Suc.prems(2) by linarith
    then show ?thesis using Suc.IH [of m'] e r(1) by simp
  qed
qed

lemma seq_at_space: "seq_at recs pos m \<Longrightarrow> has_space m"
  by (auto simp: seq_at_def has_space_def more_space_def elim!: buf_okE)

lemma seq_lseek_ok:
  assumes alloc: "\<And>n. \<exists>b. alloc n = Some b \<and> length b = n" and "length (concat recs) + length recs + 1 < fuel"
    and "seq_at recs pos m" "0 \<le> offset"
  shows "\<exists>m'. seq_lseek fuel alloc ops offset 0 (int pos) m = Some (offset, offset, m') \<and> seq_at recs (nat offset) m'"
proof (cases "offset = int pos")
  case True
  then show ?thesis using assms(3) by (simp add: seq_lseek_def Let_def)
next
  case False
  obtain n where n: "fuel = Suc n" using assms(2) by (cases fuel) auto
  then have "length recs < fuel" "length (concat recs) < buf_size m + n" using assms(2) by simp_all
  from traverse_again_ok [OF alloc this(1) seq_at_space [OF assms(3)] this(2), of "nat offset"] n obtain m' where
    "traverse_again fuel fuel alloc ops (nat offset) m = Some (0, m')" "seq_at recs (nat offset) m'" by auto
  then show ?thesis using False assms(4) by (simp add: seq_lseek_def Let_def)
qed

end

section \<open>The files of the simulator\<close>

interpretation single: seq_source "fst (single_open (\<lambda>_ m. (0, snd (seq_puts s m))))" "\<lambda>_. ()" "[s]"
  for s
  by unfold_locales (auto simp: single_open_def single_start_def single_next_def seq_puts_appends)

interpretation single_printf: seq_source "fst (single_open (\<lambda>_ m. (0, snd (seq_printf s m))))" "\<lambda>_. ()" "[s]"
  for s
  by unfold_locales (auto simp: single_open_def single_start_def single_next_def seq_printf_appends)

text \<open>The four functions that print into the buffer keep one contract: the text is appended if it fits with a byte to
  spare, otherwise the buffer is marked as overflown, and what it held before is kept.\<close>

theorem seq_output_appends:
  assumes "buf_ok m"
  shows "appended [c] m (snd (seq_putc c m)) \<and> appended s m (snd (seq_puts s m)) \<and> appended s m (snd (seq_printf s m)) \<and>
    (s \<noteq> [] \<longrightarrow> appended (escaped esc s) m (snd (seq_escape s esc m)))"
  using assms seq_putc_appends seq_puts_appends seq_printf_appends seq_escape_loop_appends by (simp add: seq_escape_def)

theorem seq_output_appends_witness:
  "buf_ok \<lparr>m_buf = Some ''        '', m_size = 8, m_from = 0, m_count = 2, m_index = 0\<rparr> \<and>
   appended (escaped '' '' ''a b'') \<lparr>m_buf = Some ''        '', m_size = 8, m_from = 0, m_count = 2, m_index = 0\<rparr>
     (snd (seq_escape ''a b'' '' '' \<lparr>m_buf = Some ''        '', m_size = 8, m_from = 0, m_count = 2, m_index = 0\<rparr>))"
proof -
  let ?m = "\<lparr>m_buf = Some ''        '', m_size = 8, m_from = 0, m_count = 2, m_index = 0\<rparr>"
  have "buf_ok ?m" by (simp add: buf_ok_def)
  then show ?thesis using seq_output_appends [of ?m _ "''a b''"] by blast
qed

lemma seq_at_open: "seq_at recs 0 seq_open"
  by (simp add: seq_at_def seq_open_def rec_pos_def)

text \<open>
  C16. A sequential file is a plain file with the concatenated records as its contents: when the module keeps its contract (\<open>seq_source\<close>) and no
  allocation fails, in any state reached, a read of any
  size ends and returns the next bytes, at most as many as asked for, and 0 bytes only at the end if no record is
  empty; seeking to any offset ends and is followed by the bytes from there on.
\<close>

theorem seq_read_refines:
  assumes "seq_source ops elem recs" "\<And>n. \<exists>b. alloc n = Some b \<and> length b = n"
    and "length (concat recs) + length recs + 1 < fuel" "seq_at recs pos m" "0 \<le> offset"
  shows "(\<exists>k m'. seq_read fuel alloc ops sz (int pos) m = Some (int k, take k (drop pos (concat recs)), m', int (pos + k)) \<and>
      k \<le> sz \<and> seq_at recs (pos + k) m' \<and> (0 < sz \<longrightarrow> [] \<notin> set recs \<longrightarrow> pos < length (concat recs) \<longrightarrow> 0 < k)) \<and>
    (\<exists>m'. seq_lseek fuel alloc ops offset 0 (int pos) m = Some (offset, offset, m') \<and> seq_at recs (nat offset) m')"
proof -
  have "length (concat recs) + length recs < fuel" using assms(3) by simp
  from seq_source.seq_read_ok [OF assms(1,2,4) this, of sz "int pos"] seq_source.seq_lseek_ok [OF assms(1-5)]
  show ?thesis by simp
qed

theorem seq_read_refines_witness:
  "\<exists>k m'. seq_read 20 (\<lambda>n. Some (replicate n CHR ''x'')) (fst (single_open (\<lambda>_ m. (0, snd (seq_puts ''hello'' m))))) 3 0 seq_open
     = Some (int k, take k ''hello'', m', int k) \<and> 0 < k"
  using seq_read_refines [OF single.seq_source_axioms, of "\<lambda>n. Some (replicate n CHR ''x'')" "''hello''" 20 0 seq_open 0 3]
  by (auto simp: seq_at_open)

fun read_many :: "nat \<Rightarrow> alloc \<Rightarrow> 'e seq_operations \<Rightarrow> nat list \<Rightarrow> int \<Rightarrow> seq_file \<Rightarrow> (string \<times> seq_file \<times> int) option" where
  "read_many fuel alloc ops [] ppos m = Some ([], m, ppos)"
| "read_many fuel alloc ops (sz # szs) ppos m =
     (case seq_read fuel alloc ops sz ppos m of
        None \<Rightarrow> None
      | Some (_, out, m, ppos) \<Rightarrow> map_option (\<lambda>(r, m, p). (out @ r, m, p)) (read_many fuel alloc ops szs ppos m))"

lemma read_many_ok:
  assumes "seq_source ops elem recs" "\<And>n. \<exists>b. alloc n = Some b \<and> length b = n" "length (concat recs) + length recs < fuel" "[] \<notin> set recs"
  shows "seq_at recs pos m \<Longrightarrow> \<forall>sz \<in> set szs. 0 < sz \<Longrightarrow> length (concat recs) \<le> pos + length szs \<Longrightarrow>
    \<exists>m' p. read_many fuel alloc ops szs (int pos) m = Some (drop pos (concat recs), m', p)"
proof (induction szs arbitrary: pos m)
  case (Cons sz szs)
  let ?c = "concat recs"
  from seq_source.seq_read_ok [OF assms(1,2) Cons.prems(1) assms(3), of sz "int pos"] obtain k m' where
    k: "seq_read fuel alloc ops sz (int pos) m = Some (int k, take k (drop pos ?c), m', int (pos + k))" "seq_at recs (pos + k) m'"
      "0 < sz \<longrightarrow> [] \<notin> set recs \<longrightarrow> pos < length ?c \<longrightarrow> 0 < k" by auto
  have "length ?c \<le> pos + k + length szs" using k(3) Cons.prems(2,3) assms(4) by (cases "pos < length ?c") auto
  then obtain m'' p where "read_many fuel alloc ops szs (int (pos + k)) m' = Some (drop (pos + k) ?c, m'', p)"
    using Cons.IH [OF k(2)] Cons.prems(2) by auto
  moreover have "take k (drop pos ?c) @ drop (pos + k) ?c = drop pos ?c" by (metis add.commute append_take_drop_id drop_drop)
  ultimately show ?case using k(1) by simp
qed simp

text \<open>
  A program that opens such a file, seeks to any offset and reads with buffers of any positive sizes, as many times as there
  are bytes left, gets exactly the contents from there to the end.
\<close>

theorem seq_file_contents:
  assumes "seq_source ops elem recs" "\<And>n. \<exists>b. alloc n = Some b \<and> length b = n"
    and "length (concat recs) + length recs + 1 < fuel" "[] \<notin> set recs"
    and "\<forall>sz \<in> set szs. 0 < sz" "length (concat recs) \<le> off + length szs"
  shows "\<exists>m m' p. seq_lseek fuel alloc ops (int off) 0 0 seq_open = Some (int off, int off, m) \<and>
    read_many fuel alloc ops szs (int off) m = Some (drop off (concat recs), m', p)"
proof -
  have f: "length (concat recs) + length recs < fuel" using assms(3) by simp
  from seq_source.seq_lseek_ok [OF assms(1-3) seq_at_open, of "int off"] obtain m where
    m: "seq_lseek fuel alloc ops (int off) 0 0 seq_open = Some (int off, int off, m)" "seq_at recs off m" by auto
  with read_many_ok [OF assms(1,2) f assms(4) m(2) assms(5,6)] show ?thesis by blast
qed

theorem seq_file_contents_witness:
  "\<exists>m m' p. seq_lseek 20 (\<lambda>n. Some (replicate n CHR ''x'')) (fst (single_open (\<lambda>_ m. (0, snd (seq_printf ''hello'' m))))) 2 0 0 seq_open = Some (2, 2, m) \<and>
     read_many 20 (\<lambda>n. Some (replicate n CHR ''x'')) (fst (single_open (\<lambda>_ m. (0, snd (seq_printf ''hello'' m))))) [1, 1, 7] 2 m = Some (''llo'', m', p)"
  using seq_file_contents [OF single_printf.seq_source_axioms, of "\<lambda>n. Some (replicate n CHR ''x'')" "''hello''" 20 "[1, 1, 7]" 2] by simp

text \<open>
  When the buffer cannot be enlarged the file keeps the full count of the buffer it has lost, and the next read
  hands out bytes of the new buffer that nobody wrote.
\<close>

lemma seq_read_after_enomem:
  "(case seq_read 9 (\<lambda>n. if n = 4 then None else Some ''fresh'') (fst (single_open (\<lambda>_ m. (0, snd (seq_puts ''text'' m))))) 3 0
         \<lparr>m_buf = Some ''??'', m_size = 2, m_from = 0, m_count = 0, m_index = 0\<rparr> of
      Some (ret, out, m, pos) \<Rightarrow>
        ret = - 12 \<and> (\<exists>m'. seq_read 9 (\<lambda>n. Some ''fresh'') (fst (single_open (\<lambda>_ m. (0, snd (seq_puts ''text'' m))))) 2 pos m = Some (2, ''fr'', m', 2))
    | None \<Rightarrow> False)"
  by (simp add: seq_read_def grab_buffer_def flush_buffer_def read_records_def single_open_def single_start_def seq_puts_def
      double_buffer_def read_done_def ENOMEM_def Let_def numeral_eq_Suc)

end
