(* ===== verification/Proc_Tree.thy ===== *)
theory Proc_Tree
  imports Seq_File Tui "HOL-Library.Sublist"
begin

text \<open>
  The /proc file system of kernelenv/proc\_stuff.c and tools/proc.c: the tree of entries, opening, reading and writing of a
  file, and the registration of sysctl tables. An entry is known by a number that stands for its address. Entries that are
  created are found under their path, removing them restores the tree, and the tree is not disturbed elsewhere.
\<close>

section \<open>The tree\<close>

text \<open>
  \<open>pe_sub\<close> is the chain from \<^verbatim>\<open>subdir\<close> through \<^verbatim>\<open>next\<close>. The functions of an entry (\<^verbatim>\<open>proc_fops\<close>, \<^verbatim>\<open>get_info\<close>, \<^verbatim>\<open>read_proc\<close>,
  \<^verbatim>\<open>write_proc\<close>, \<^verbatim>\<open>data\<close>) are one value of a type \<open>'f\<close>.
\<close>

datatype 'f proc_dir_entry =
  Entry (pe_id: nat) (pe_name: string) (pe_namelen: nat) (pe_mode: u32) (pe_ops: 'f) (pe_sub: "'f proc_dir_entry list")

text \<open>
  \<open>proc_ids\<close> is not a variable of the program: it supplies the identities that stand for the addresses which the allocator returns. The root and
  the three directories are the static variables of kernelenv/proc\_stuff.c.
\<close>

record 'f proc_state =
  proc_root :: "'f proc_dir_entry"
  proc_ids :: nat
  proc_net :: "nat option"
  proc_net_stat :: "nat option"
  proc_sys_root :: "nat option"

definition proc_match :: "nat \<Rightarrow> string \<Rightarrow> 'f proc_dir_entry \<Rightarrow> bool" where
  "proc_match len name de \<longleftrightarrow> pe_namelen de = len \<and> take len name = take len (pe_name de)"

fun walk :: "string list \<Rightarrow> 'f proc_dir_entry \<Rightarrow> 'f proc_dir_entry option" where
  "walk [] de = Some de"
| "walk (c # cs) de =
     (case find (proc_match (length c) c) (pe_sub de) of None \<Rightarrow> None | Some d \<Rightarrow> walk cs d)"

text \<open>The directory of a path and the name in it.\<close>

definition xlate_proc_name :: "string \<Rightarrow> 'f proc_dir_entry \<Rightarrow> (nat \<times> string) option" where
  "xlate_proc_name name root =
     (let cs = split_on CHR ''/'' name in map_option (\<lambda>d. (pe_id d, last cs)) (walk (butlast cs) root))"

fun on_entry :: "nat \<Rightarrow> ('f proc_dir_entry \<Rightarrow> 'f proc_dir_entry) \<Rightarrow> 'f proc_dir_entry \<Rightarrow> 'f proc_dir_entry" where
  "on_entry i f (Entry j n l m ops sub) =
     (if i = j then f (Entry j n l m ops sub) else Entry j n l m ops (map (on_entry i f) sub))"

definition proc_register :: "'f proc_dir_entry \<Rightarrow> 'f proc_dir_entry \<Rightarrow> 'f proc_dir_entry" where
  "proc_register dp dir = (case dir of Entry j n l m ops sub \<Rightarrow> Entry j n l m ops (dp # sub))"

text \<open>The name stored is the whole path, but the length is that of its last part.\<close>

definition proc_create :: "bool \<Rightarrow> 'f \<Rightarrow> nat option \<Rightarrow> string \<Rightarrow> u32 \<Rightarrow> 'f proc_state \<Rightarrow> (nat \<times> 'f proc_dir_entry) option" where
  "proc_create fail ops parent name mode st =
     (if name = [] then None
      else
        case (case parent of Some p \<Rightarrow> Some (p, name) | None \<Rightarrow> xlate_proc_name name (proc_root st)) of
          None \<Rightarrow> None
        | Some (p, fn) \<Rightarrow> if fail then None else Some (p, Entry (proc_ids st) name (length fn) mode ops []))"

definition create_proc_entry :: "bool \<Rightarrow> 'f \<Rightarrow> string \<Rightarrow> u32 \<Rightarrow> nat option \<Rightarrow> 'f proc_state \<Rightarrow> nat option \<times> 'f proc_state" where
  "create_proc_entry fail ops name mode parent st =
     (case proc_create fail ops parent name mode st of
        None \<Rightarrow> (None, st)
      | Some (p, ent) \<Rightarrow>
          (Some (pe_id ent), st\<lparr>proc_root := on_entry p (proc_register ent) (proc_root st), proc_ids := Suc (proc_ids st)\<rparr>))"

definition S_IFMT :: u32 where "S_IFMT = 0xF000"
definition S_IFREG :: u32 where "S_IFREG = 0x8000"
definition S_IFDIR :: u32 where "S_IFDIR = 0x4000"
definition S_IRUGO :: u32 where "S_IRUGO = 0x124"
definition S_IXUGO :: u32 where "S_IXUGO = 0x49"
definition S_IWUSR :: u32 where "S_IWUSR = 0x80"

definition S_ISDIR :: "u32 \<Rightarrow> bool" where
  "S_ISDIR m \<longleftrightarrow> m AND S_IFMT = S_IFDIR"

definition proc_mkdir :: "bool \<Rightarrow> 'f \<Rightarrow> string \<Rightarrow> nat option \<Rightarrow> 'f proc_state \<Rightarrow> nat option \<times> 'f proc_state" where
  "proc_mkdir fail ops name parent st = create_proc_entry fail ops name (S_IFDIR OR S_IRUGO OR S_IXUGO) parent st"

fun entry_at :: "nat \<Rightarrow> 'f proc_dir_entry \<Rightarrow> 'f proc_dir_entry option"
and entry_in :: "nat \<Rightarrow> 'f proc_dir_entry list \<Rightarrow> 'f proc_dir_entry option" where
  "entry_at i (Entry j n l m ops sub) = (if i = j then Some (Entry j n l m ops sub) else entry_in i sub)"
| "entry_in i [] = None"
| "entry_in i (e # es) = (case entry_at i e of Some d \<Rightarrow> Some d | None \<Rightarrow> entry_in i es)"

fun remove_match :: "('a \<Rightarrow> bool) \<Rightarrow> 'a list \<Rightarrow> 'a list" where
  "remove_match P [] = []"
| "remove_match P (x # xs) = (if P x then xs else x # remove_match P xs)"

definition unlink_child :: "string \<Rightarrow> 'f proc_dir_entry \<Rightarrow> 'f proc_dir_entry" where
  "unlink_child fn dir =
     (case dir of Entry j n l m ops sub \<Rightarrow> Entry j n l m ops (remove_match (proc_match (length fn) fn) sub))"

definition remove_proc_entry :: "bool \<Rightarrow> string \<Rightarrow> nat option \<Rightarrow> 'f proc_state \<Rightarrow> 'f proc_state outcome" where
  "remove_proc_entry ignore_proc_issues name parent st =
     (case (case parent of Some p \<Rightarrow> Some (p, name) | None \<Rightarrow> xlate_proc_name name (proc_root st)) of
        None \<Rightarrow> Barf (''Cannot remove non-existent entry '' @ CHR 0x27 # name @ [CHR 0x27])
      | Some (p, fn) \<Rightarrow>
          (case entry_at p (proc_root st) of
             None \<Rightarrow> Barf ''use of a freed directory''
           | Some dir \<Rightarrow>
               if list_ex (proc_match (length fn) fn) (pe_sub dir)
               then Ok (st\<lparr>proc_root := on_entry p (unlink_child fn) (proc_root st)\<rparr>)
               else if ignore_proc_issues then Ok st
               else Barf (''Cannot find entry '' @ CHR 0x27 # name @ CHR 0x27 # '' under '' @ pe_name dir @ '' to remove'')))"

definition set_ops :: "'f \<Rightarrow> 'f proc_dir_entry \<Rightarrow> 'f proc_dir_entry" where
  "set_ops ops e = (case e of Entry j n l m _ sub \<Rightarrow> Entry j n l m ops sub)"

definition create_proc_info_entry :: "bool \<Rightarrow> 'f \<Rightarrow> 'f \<Rightarrow> string \<Rightarrow> u32 \<Rightarrow> nat option \<Rightarrow> 'f proc_state \<Rightarrow> nat option \<times> 'f proc_state" where
  "create_proc_info_entry fail ops get_info name mode base st =
     (case create_proc_entry fail ops name mode base st of
        (None, st) \<Rightarrow> (None, st)
      | (Some i, st) \<Rightarrow> (Some i, st\<lparr>proc_root := on_entry i (set_ops get_info) (proc_root st)\<rparr>))"

definition proc_net_create :: "bool \<Rightarrow> 'f \<Rightarrow> 'f \<Rightarrow> string \<Rightarrow> u32 \<Rightarrow> 'f proc_state \<Rightarrow> nat option \<times> 'f proc_state" where
  "proc_net_create fail ops get_info name mode st = create_proc_info_entry fail ops get_info name mode (proc_net st) st"

definition proc_net_fops_create :: "bool \<Rightarrow> 'f \<Rightarrow> 'f \<Rightarrow> string \<Rightarrow> u32 \<Rightarrow> 'f proc_state \<Rightarrow> nat option \<times> 'f proc_state" where
  "proc_net_fops_create fail ops fops name mode st = create_proc_info_entry fail ops fops name mode (proc_net st) st"

definition proc_net_remove :: "bool \<Rightarrow> string \<Rightarrow> 'f proc_state \<Rightarrow> 'f proc_state outcome" where
  "proc_net_remove ignore_proc_issues name st = remove_proc_entry ignore_proc_issues name (proc_net st) st"

definition find_proc_entry :: "string \<Rightarrow> 'f proc_state \<Rightarrow> 'f proc_dir_entry option outcome" where
  "find_proc_entry name st =
     (if length name < 6 then Barf ''read past the end of the name''
      else Ok (walk (split_on CHR ''/'' (drop 6 name)) (proc_root st)))"

section \<open>Files\<close>

text \<open>
  The functions of a file belong to the kernel modules, apart from those below: they are arguments, on a state \<open>'s\<close> of theirs.
  \<open>f_open\<close> gets the mode of the inode and that of the file. Reading gets a size and an offset and returns the bytes it
  put into the buffer; writing gets the text, which a null byte ends in memory, and an offset.
\<close>

record 's file_operations =
  f_open :: "(u32 \<Rightarrow> u32 \<Rightarrow> 's \<Rightarrow> int \<times> 's) option"
  f_read :: "nat \<Rightarrow> int \<Rightarrow> 's \<Rightarrow> (int \<times> string \<times> 's) outcome"
  f_write :: "string \<Rightarrow> int \<Rightarrow> 's \<Rightarrow> (int \<times> 's) outcome"
  f_release :: "('s \<Rightarrow> 's) option"

definition FMODE_READ :: u32 where "FMODE_READ = 1"
definition FMODE_WRITE :: u32 where "FMODE_WRITE = 2"

text \<open>The entry that was opened, the module's state and that of the log.\<close>

type_synonym ('s, 'z) proc_run = "(bool \<times> 's \<times> 'z log_full_scheme) outcome"

definition log_ui :: "string \<Rightarrow> 'z log_full_scheme \<Rightarrow> 'z log_full_scheme" where
  "log_ui msg l = snd (nfsim_log LOG_UI msg l)"

definition nfsim_proc_open ::
    "string \<Rightarrow> u32 \<Rightarrow> 's file_operations proc_state \<Rightarrow> 's \<Rightarrow> 'z log_full_scheme \<Rightarrow>
     ('s file_operations proc_dir_entry option \<times> 's \<times> 'z log_full_scheme) outcome" where
  "nfsim_proc_open name mode st s l =
     bind_outcome (find_proc_entry name st) (\<lambda>dir.
       case dir of
         None \<Rightarrow> Ok (None, s, log_ui (''proc file not found: '' @ name) l)
       | Some dir \<Rightarrow>
           if S_ISDIR (pe_mode dir) then Ok (None, s, log_ui (''proc entry '' @ name @ '' is a directory'') l)
           else if mode = FMODE_WRITE \<and> pe_mode dir AND 0x80 = 0 then Ok (None, s, log_ui (''proc entry '' @ name @ '' not writable'') l)
           else
             case f_open (pe_ops dir) of
               None \<Rightarrow> Ok (Some dir, s, l)
             | Some openf \<Rightarrow>
                 (case openf (pe_mode dir) mode s of
                    (ret, s) \<Rightarrow> Ok (if ret < 0 then (None, s, log_ui (''proc entry '' @ name @ '' open failed!'') l) else (Some dir, s, l))))"

definition nfsim_proc_close :: "'s file_operations proc_dir_entry \<Rightarrow> 's \<Rightarrow> 's" where
  "nfsim_proc_close dir s = (case f_release (pe_ops dir) of None \<Rightarrow> s | Some release \<Rightarrow> release s)"

text \<open>Printing, by \<open>printk\<close> with its buffer, stops at a null byte.\<close>

definition nfsim_proc_cat :: "string \<Rightarrow> 's file_operations proc_state \<Rightarrow> 's \<Rightarrow> 'z log_full_scheme \<Rightarrow> ('s, 'z) proc_run" where
  "nfsim_proc_cat name st s l =
     bind_outcome (nfsim_proc_open name FMODE_READ st s l) (\<lambda>(r, s, l).
       case r of
         None \<Rightarrow> Ok (False, s, l)
       | Some dir \<Rightarrow>
           bind_outcome (f_read (pe_ops dir) 16383 0 s) (\<lambda>(ret, buf, s).
             let s = nfsim_proc_close dir s in
             if ret < 0 then Ok (False, s, log_ui (''proc entry '' @ name @ '' read failed '' @ show_int ret @ ''!'') l)
             else Ok (True, s, printk (takeWhile (\<lambda>c. c \<noteq> CHR 0x00) (take (nat ret) buf)) l)))"

fun join_args :: "string list \<Rightarrow> string" where
  "join_args [] = []"
| "join_args [a] = a"
| "join_args (a # b # r) = a @ CHR '' '' # join_args (b # r)"

definition nfsim_proc_write :: "string \<Rightarrow> string list \<Rightarrow> 's file_operations proc_state \<Rightarrow> 's \<Rightarrow> 'z log_full_scheme \<Rightarrow> ('s, 'z) proc_run" where
  "nfsim_proc_write name argv st s l =
     bind_outcome (nfsim_proc_open name FMODE_WRITE st s l) (\<lambda>(r, s, l).
       case r of
         None \<Rightarrow> Ok (False, s, l)
       | Some dir \<Rightarrow>
           bind_outcome (f_write (pe_ops dir) (join_args argv) 0 s) (\<lambda>(ret, s).
             let s = nfsim_proc_close dir s in
             if ret < 0 then Ok (False, s, log_ui (''proc entry '' @ name @ '' write failed '' @ show_int ret @ ''!'') l)
             else Ok (True, s, l)))"

text \<open>tools/proc.c: the lines of the tree, indented by two blanks for every level; the buffer holds 79.\<close>

function proc_tree :: "nat \<Rightarrow> 'f proc_dir_entry \<Rightarrow> string list outcome"
and proc_trees :: "nat \<Rightarrow> 'f proc_dir_entry list \<Rightarrow> string list outcome" where
  "proc_tree i (Entry j n l m ops sub) =
     (if i \<ge> 80 then Barf ''Assertion `i < 80' failed''
      else
        bind_outcome (proc_trees (i + 2) sub) (\<lambda>ls.
          Ok ((replicate i CHR '' '' @ CHR ''-'' # (if n \<noteq> [] \<and> hd n = CHR ''/'' then tl n else n)) # ls)))"
| "proc_trees i [] = Ok []"
| "proc_trees i (e # es) = bind_outcome (proc_tree i e) (\<lambda>ls. bind_outcome (proc_trees i es) (\<lambda>ms. Ok (ls @ ms)))"
  by pat_completeness auto
termination
  by (relation "measure (case_sum (\<lambda>(i, e). size e) (\<lambda>(i, es). size_list size es))") auto

definition proc :: "nat \<Rightarrow> string list \<Rightarrow> 's file_operations proc_state \<Rightarrow> 's \<Rightarrow> 'z log_full_scheme \<Rightarrow> ('s, 'z) proc_run" where
  "proc argc argv st s l =
     (if argc = 1 then bind_outcome (proc_tree 0 (proc_root st)) (\<lambda>ls. Ok (True, s, fold (\<lambda>t l. snd (nfsim_log LOG_ALWAYS t l)) ls l))
      else if argv ! 1 = ''cat'' then if argc \<noteq> 3 then Ok (False, s, l) else nfsim_proc_cat (argv ! 2) st s l
      else if argv ! 1 = ''write'' then if argc < 4 then Ok (False, s, l) else nfsim_proc_write (argv ! 2) (drop 3 argv) st s l
      else Ok (True, s, l))"

section \<open>Set-up\<close>

definition proc_init :: "(string \<Rightarrow> bool) \<Rightarrow> 'f \<Rightarrow> 'f proc_state" where
  "proc_init fail ops =
     (let st = \<lparr>proc_root = Entry 0 ''/proc'' 5 0 ops [], proc_ids = 1, proc_net = None, proc_net_stat = None, proc_sys_root = None\<rparr>;
          (net, st) = proc_mkdir (fail ''net'') ops ''net'' None st;
          st = st\<lparr>proc_net := net\<rparr>;
          (stat, st) = proc_mkdir (fail ''stat'') ops ''stat'' net st;
          st = st\<lparr>proc_net_stat := stat\<rparr>;
          (sys, st) = proc_mkdir (fail ''sys'') ops ''sys'' None st
      in st\<lparr>proc_sys_root := sys\<rparr>)"

definition proc_cleanup :: "bool \<Rightarrow> 'f \<Rightarrow> 'f proc_state \<Rightarrow> 'f proc_state" where
  "proc_cleanup ignore_proc_issues ops st = (if ignore_proc_issues then proc_init (\<lambda>_. False) ops else st)"

section \<open>Sysctl tables\<close>

text \<open>
  A table is a list of entries, ended in C by one without \<^verbatim>\<open>ctl_name\<close>; \<open>ct_de\<close> is the entry made for it. Both functions
  return the table with these fields set.
\<close>

datatype 'h ctl_table =
  Ctl (ct_procname: "string option") (ct_mode: u32) (ct_handler: "'h option") (ct_child: "'h ctl_table list option") (ct_de: "nat option")

definition make_table_entry :: "('h ctl_table \<Rightarrow> 'f) \<Rightarrow> 'f \<Rightarrow> nat \<Rightarrow> string \<Rightarrow> 'h ctl_table \<Rightarrow> 'f proc_state \<Rightarrow> (nat \<times> u32) option \<times> 'f proc_state" where
  "make_table_entry sysops ops root name t st =
     (let mode = ct_mode t OR (if ct_handler t \<noteq> None then S_IFREG else S_IFDIR);
          found = (if ct_handler t \<noteq> None then None
                   else case entry_at root (proc_root st) of None \<Rightarrow> None
                        | Some d \<Rightarrow> find (proc_match (length name) name) (pe_sub d))
      in case found of
           Some d \<Rightarrow> (Some (pe_id d, pe_mode d), st)
         | None \<Rightarrow>
             (case create_proc_entry False ops name mode (Some root) st of
                (None, st) \<Rightarrow> (None, st)
              | (Some i, st) \<Rightarrow> (Some (i, mode), st\<lparr>proc_root := on_entry i (set_ops (sysops t)) (proc_root st)\<rparr>)))"

function register_proc_table ::
    "('h ctl_table \<Rightarrow> 'f) \<Rightarrow> 'f \<Rightarrow> 'h ctl_table list \<Rightarrow> nat \<Rightarrow> 'f proc_state \<Rightarrow> ('h ctl_table list \<times> 'f proc_state) outcome"
and register_entry ::
    "('h ctl_table \<Rightarrow> 'f) \<Rightarrow> 'f \<Rightarrow> 'h ctl_table \<Rightarrow> nat \<Rightarrow> 'f proc_state \<Rightarrow> ('h ctl_table \<times> 'f proc_state) outcome" where
  "register_proc_table sysops ops [] root st = Ok ([], st)"
| "register_proc_table sysops ops (t # ts) root st =
     bind_outcome (register_entry sysops ops t root st) (\<lambda>(t, st).
     bind_outcome (register_proc_table sysops ops ts root st) (\<lambda>(ts, st). Ok (t # ts, st)))"
| "register_entry sysops ops (Ctl pn md h ch de) root st =
     (case pn of
        None \<Rightarrow> Ok (Ctl pn md h ch de, st)
      | Some name \<Rightarrow>
          if h = None \<and> ch = None then Barf (''SYSCTL: Can'' @ CHR 0x27 # ''t register '' @ name)
          else
            case make_table_entry sysops ops root name (Ctl pn md h ch de) st of
              (None, st) \<Rightarrow> Ok (Ctl pn md h ch de, st)
            | (Some (i, mode), st) \<Rightarrow>
                if mode AND S_IFDIR = 0 then Ok (Ctl pn md h ch (Some i), st)
                else
                  case ch of
                    None \<Rightarrow> Barf ''null table''
                  | Some cs \<Rightarrow>
                      bind_outcome (register_proc_table sysops ops cs i st) (\<lambda>(cs, st). Ok (Ctl pn md h (Some cs) (Some i), st)))"
  by pat_completeness auto
termination
  by (relation "measure (case_sum (\<lambda>(_, _, ts, _, _). size_list size ts) (\<lambda>(_, _, t, _, _). size t))") auto

function unregister_proc_table ::
    "bool \<Rightarrow> 'h ctl_table list \<Rightarrow> nat \<Rightarrow> 'f proc_state \<Rightarrow> ('h ctl_table list \<times> 'f proc_state) outcome"
and unregister_entry :: "bool \<Rightarrow> 'h ctl_table \<Rightarrow> nat \<Rightarrow> 'f proc_state \<Rightarrow> ('h ctl_table \<times> 'f proc_state) outcome" where
  "unregister_proc_table ign [] root st = Ok ([], st)"
| "unregister_proc_table ign (t # ts) root st =
     bind_outcome (unregister_entry ign t root st) (\<lambda>(t, st).
     bind_outcome (unregister_proc_table ign ts root st) (\<lambda>(ts, st). Ok (t # ts, st)))"
| "unregister_entry ign (Ctl pn md h ch de) root st =
     (case de of
        None \<Rightarrow> Ok (Ctl pn md h ch de, st)
      | Some i \<Rightarrow>
          case entry_at i (proc_root st) of
            None \<Rightarrow> Barf ''use of a freed entry''
          | Some d \<Rightarrow>
              if pe_mode d AND S_IFDIR = 0 then
                bind_outcome (remove_proc_entry ign (case pn of None \<Rightarrow> [] | Some n \<Rightarrow> n) (Some root) st) (\<lambda>st. Ok (Ctl pn md h ch None, st))
              else
                case ch of
                  None \<Rightarrow> Ok (Ctl pn md h ch de, st)
                | Some cs \<Rightarrow>
                    bind_outcome (unregister_proc_table ign cs i st) (\<lambda>(cs, st).
                      case entry_at i (proc_root st) of
                        None \<Rightarrow> Barf ''use of a freed entry''
                      | Some d \<Rightarrow>
                          if pe_sub d \<noteq> [] then Ok (Ctl pn md h (Some cs) de, st)
                          else
                            bind_outcome (remove_proc_entry ign (case pn of None \<Rightarrow> [] | Some n \<Rightarrow> n) (Some root) st) (\<lambda>st.
                              Ok (Ctl pn md h (Some cs) None, st))))"
  by pat_completeness auto
termination
  by (relation "measure (case_sum (\<lambda>(_, ts, _, _). size_list size ts) (\<lambda>(_, t, _, _). size t))") auto

definition register_sysctl_table ::
    "bool \<Rightarrow> ('h ctl_table \<Rightarrow> 'f) \<Rightarrow> 'f \<Rightarrow> 'h ctl_table list \<Rightarrow> 'f proc_state \<Rightarrow> ('h ctl_table list option \<times> 'f proc_state) outcome" where
  "register_sysctl_table fail sysops ops table st =
     (if fail then Ok (None, st)
      else
        case proc_sys_root st of
          None \<Rightarrow> Barf ''null directory''
        | Some root \<Rightarrow> bind_outcome (register_proc_table sysops ops table root st) (\<lambda>(ts, st). Ok (Some ts, st)))"

definition unregister_sysctl_table :: "bool \<Rightarrow> 'h ctl_table list \<Rightarrow> 'f proc_state \<Rightarrow> ('h ctl_table list \<times> 'f proc_state) outcome" where
  "unregister_sysctl_table ign table st =
     (case proc_sys_root st of None \<Rightarrow> Barf ''null directory'' | Some root \<Rightarrow> unregister_proc_table ign table root st)"

section \<open>Facts about trees\<close>

fun ids :: "'f proc_dir_entry \<Rightarrow> nat list" where
  "ids (Entry j n l m ops sub) = j # concat (map ids sub)"

lemma on_entry_absent [simp]: "i \<notin> set (ids t) \<Longrightarrow> on_entry i f t = t"
  by (induction i f t rule: on_entry.induct) (auto intro!: map_idI)

lemma on_entry_self [simp]: "on_entry (pe_id t) f t = f t"
  by (cases t) simp

lemma pe_id_in_ids [simp]: "pe_id t \<in> set (ids t)"
  by (cases t) simp

lemma on_entry_comp:
  "(\<And>e. pe_id e = i \<Longrightarrow> pe_id (g e) = i) \<Longrightarrow> on_entry i f (on_entry i g t) = on_entry i (\<lambda>e. f (g e)) t"
proof (induction i g t rule: on_entry.induct)
  case (1 i g j n l m ops sub)
  then show ?case
  proof (cases "i = j")
    case True
    then have "pe_id (g (Entry j n l m ops sub)) = i" using 1(2) by simp
    then show ?thesis using True on_entry_self [of "g (Entry j n l m ops sub)" f] by simp
  qed (use 1 in auto)
qed

lemma entry_at_self [simp]: "entry_at (pe_id t) t = Some t"
  by (cases t) simp

lemma entry_at_absent:
  fixes t :: "'f proc_dir_entry" and ts :: "'f proc_dir_entry list"
  shows "i \<notin> set (ids t) \<Longrightarrow> entry_at i t = None" and "\<forall>t \<in> set ts. i \<notin> set (ids t) \<Longrightarrow> entry_in i ts = None"
  by (induction i t and i ts rule: entry_at_entry_in.induct) auto

lemma entry_at_None:
  fixes t :: "'f proc_dir_entry" and ts :: "'f proc_dir_entry list"
  shows "entry_at i t = None \<Longrightarrow> i \<notin> set (ids t)" and "entry_in i ts = None \<Longrightarrow> \<forall>t \<in> set ts. i \<notin> set (ids t)"
  by (induction i t and i ts rule: entry_at_entry_in.induct) (auto split: if_splits option.splits)

lemma entry_at_id:
  fixes t :: "'f proc_dir_entry" and ts :: "'f proc_dir_entry list"
  shows "entry_at i t = Some d \<Longrightarrow> pe_id d = i" and "entry_in i ts = Some d \<Longrightarrow> pe_id d = i"
  by (induction i t and i ts rule: entry_at_entry_in.induct) (auto split: if_splits option.splits)

lemma entry_at_ids:
  fixes t :: "'f proc_dir_entry" and ts :: "'f proc_dir_entry list"
  shows "entry_at i t = Some d \<Longrightarrow> set (ids d) \<subseteq> set (ids t)" and "entry_in i ts = Some d \<Longrightarrow> set (ids d) \<subseteq> (\<Union>t \<in> set ts. set (ids t))"
  by (induction i t and i ts rule: entry_at_entry_in.induct) (auto split: if_splits option.splits)

text \<open>
  Working on an entry inside a directory that was changed: changing entry \<open>i\<close> after directory \<open>p\<close> is changing what was put
  into \<open>p\<close>, if \<open>i\<close> is new. \<open>with_sub\<close> replaces the entries of a directory.
\<close>

definition with_sub :: "('f proc_dir_entry list \<Rightarrow> 'f proc_dir_entry list) \<Rightarrow> 'f proc_dir_entry \<Rightarrow> 'f proc_dir_entry" where
  "with_sub g dir = (case dir of Entry j n l m ops sub \<Rightarrow> Entry j n l m ops (g sub))"

lemma with_sub_simps [simp]:
  "pe_id (with_sub g d) = pe_id d" "pe_sub (with_sub g d) = g (pe_sub d)" "pe_name (with_sub g d) = pe_name d"
  "pe_namelen (with_sub g d) = pe_namelen d" "pe_mode (with_sub g d) = pe_mode d" "with_sub f (with_sub g d) = with_sub (\<lambda>s. f (g s)) d"
  by (cases d; simp add: with_sub_def)+

lemma proc_register_with_sub: "proc_register e = with_sub (\<lambda>sub. e # sub)"
  by (auto simp: proc_register_def with_sub_def fun_eq_iff split: proc_dir_entry.splits)

lemma unlink_child_with_sub: "unlink_child fn = with_sub (remove_match (proc_match (length fn) fn))"
  by (auto simp: unlink_child_def with_sub_def fun_eq_iff split: proc_dir_entry.splits)

lemma on_entry_inside:
  assumes "i \<noteq> p" "i \<notin> set (ids t)"
  shows "on_entry i f (on_entry p (with_sub g) t) = on_entry p (with_sub (\<lambda>sub. map (on_entry i f) (g sub))) t"
  using assms
proof (induction p "with_sub g" t rule: on_entry.induct)
  case (1 p j n l m ops sub)
  then show ?case by (cases "p = j") (auto simp: with_sub_def)
qed

lemma entry_at_on_entry:
  fixes t :: "'f proc_dir_entry" and ts :: "'f proc_dir_entry list"
  shows "entry_at p t = Some d \<Longrightarrow> pe_id (f d) = p \<Longrightarrow> entry_at p (on_entry p f t) = Some (f d)"
    and "entry_in p ts = Some d \<Longrightarrow> pe_id (f d) = p \<Longrightarrow> entry_in p (map (on_entry p f) ts) = Some (f d)"
proof (induction p t and p ts rule: entry_at_entry_in.induct)
  case (1 i j n l m ops sub)
  then show ?case by (cases "i = j") (use entry_at_self [of "f d"] in auto)
next
  case (3 i e es)
  have "entry_at i (on_entry i f e) = None" if "entry_at i e = None"
    using that entry_at_None(1) [OF that] by simp
  then show ?case using 3 by (auto split: option.splits)
qed simp

lemma on_entry_id: "(\<And>e. f e = e) \<Longrightarrow> on_entry i f t = t"
  by (induction i f t rule: on_entry.induct) (auto intro!: map_idI)

lemma with_sub_id: "with_sub (\<lambda>sub. sub) d = d"
  by (cases d) (simp add: with_sub_def)

lemma on_entry_keeps [simp]:
  assumes "\<And>e. pe_name (f e) = pe_name e \<and> pe_namelen (f e) = pe_namelen e"
  shows "pe_name (on_entry i f t) = pe_name t" "pe_namelen (on_entry i f t) = pe_namelen t"
  using assms by (cases t; simp)+

lemma find_on_entry:
  assumes "\<And>e. pe_name (f e) = pe_name e \<and> pe_namelen (f e) = pe_namelen e"
  shows "find (proc_match l c) (map (on_entry i f) sub) = map_option (on_entry i f) (find (proc_match l c) sub)"
  by (induction sub) (simp_all add: proc_match_def on_entry_keeps [OF assms])

lemma proc_match_exact: "pe_namelen e = length (pe_name e) \<Longrightarrow> proc_match (length c) c e \<longleftrightarrow> c = pe_name e"
  unfolding proc_match_def by (metis order_refl take_all)

lemma proc_match_unique: "proc_match (length c) c e \<Longrightarrow> proc_match (length x) x e \<Longrightarrow> c = x"
  unfolding proc_match_def by (metis order_refl take_all)

lemma find_Some: "find P xs = Some x \<Longrightarrow> x \<in> set xs \<and> P x"
  by (auto simp: find_Some_iff)

lemma walk_ids: "walk cs t = Some d \<Longrightarrow> set (ids d) \<subseteq> set (ids t)"
proof (induction cs arbitrary: t)
  case (Cons c cs)
  then obtain e where e: "find (proc_match (length c) c) (pe_sub t) = Some e" "walk cs e = Some d" by (auto split: option.splits)
  have "set (ids e) \<subseteq> set (ids t)" using find_Some [OF e(1)] by (cases t) auto
  then show ?case using Cons.IH [OF e(2)] by blast
qed simp

lemma distinct_concat_same:
  "distinct (concat (map g xs)) \<Longrightarrow> a \<in> set xs \<Longrightarrow> b \<in> set xs \<Longrightarrow> p \<in> set (g a) \<Longrightarrow> p \<in> set (g b) \<Longrightarrow> a = b"
  by (induction xs) auto

lemma distinct_ids_sub: "distinct (ids t) \<Longrightarrow> e \<in> set (pe_sub t) \<Longrightarrow> distinct (ids e) \<and> pe_id t \<notin> set (ids e)"
  by (cases t) (auto simp: distinct_concat_iff dest: in_set_conv_nth [THEN iffD1])

lemma walk_on_entry:
  assumes "\<And>e. pe_name (f e) = pe_name e \<and> pe_namelen (f e) = pe_namelen e"
  shows "distinct (ids t) \<Longrightarrow> walk cs t = Some d \<Longrightarrow> walk cs (on_entry (pe_id d) f t) = Some (f d)"
proof (induction cs arbitrary: t)
  case (Cons c cs)
  then obtain e where e: "find (proc_match (length c) c) (pe_sub t) = Some e" "walk cs e = Some d" by (auto split: option.splits)
  have "pe_id d \<in> set (ids e)" using walk_ids [OF e(2)] pe_id_in_ids [of d] by (rule subsetD)
  then have d: "distinct (ids e)" "pe_id t \<noteq> pe_id d" using distinct_ids_sub [OF Cons.prems(1), of e] find_Some [OF e(1)] by auto
  then have "pe_sub (on_entry (pe_id d) f t) = map (on_entry (pe_id d) f) (pe_sub t)" by (cases t) simp
  then show ?case using Cons.IH [OF d(1) e(2)] e(1) by (simp add: find_on_entry [OF assms])
qed simp

lemma walk_elsewhere:
  assumes "pe_namelen e = length (pe_name e)"
  shows "distinct (ids t) \<Longrightarrow> walk dirs t = Some d \<Longrightarrow> \<not> prefix (dirs @ [pe_name e]) cs \<Longrightarrow>
    map_option pe_id (walk cs (on_entry (pe_id d) (with_sub (\<lambda>sub. e # sub)) t)) = map_option pe_id (walk cs t)"
proof (induction cs arbitrary: t dirs)
  case Nil
  show ?case by (cases t) (auto simp: with_sub_def)
next
  case (Cons c cs)
  let ?f = "with_sub (\<lambda>sub. e # sub)"
  show ?case
  proof (cases dirs)
    case Nil
    then have "c \<noteq> pe_name e" "d = t" using Cons.prems by auto
    then show ?thesis by (simp add: proc_match_exact [OF assms])
  next
    case dirs: (Cons x xs)
    then obtain ex where ex: "find (proc_match (length x) x) (pe_sub t) = Some ex" "walk xs ex = Some d"
      using Cons.prems(2) by (auto split: option.splits)
    have p: "pe_id d \<in> set (ids ex)" using walk_ids [OF ex(2)] pe_id_in_ids [of d] by (rule subsetD)
    have dx: "distinct (ids ex)" "pe_id t \<noteq> pe_id d"
      using distinct_ids_sub [OF Cons.prems(1), of ex] find_Some [OF ex(1)] p by auto
    then have sub: "pe_sub (on_entry (pe_id d) ?f t) = map (on_entry (pe_id d) ?f) (pe_sub t)" by (cases t) simp
    show ?thesis
    proof (cases "find (proc_match (length c) c) (pe_sub t)")
      case None
      then show ?thesis by (simp add: sub find_on_entry)
    next
      case (Some ec)
      show ?thesis
      proof (cases "c = x")
        case True
        then show ?thesis using Some ex Cons.IH [OF dx(1) ex(2)] Cons.prems(3) dirs by (simp add: sub find_on_entry)
      next
        case False
        have ec: "ec \<in> set (pe_sub t)" "proc_match (length c) c ec" using find_Some [OF Some] by simp_all
        have ex': "ex \<in> set (pe_sub t)" "proc_match (length x) x ex" using find_Some [OF ex(1)] by simp_all
        have dist: "distinct (concat (map ids (pe_sub t)))" using Cons.prems(1) by (cases t) simp
        have "pe_id d \<notin> set (ids ec)"
        proof
          assume "pe_id d \<in> set (ids ec)"
          then have "ec = ex" using distinct_concat_same [OF dist ec(1) ex'(1)] p by simp
          then show False using proc_match_unique [OF ec(2)] ex'(2) False by simp
        qed
        then show ?thesis using Some by (simp add: sub find_on_entry)
      qed
    qed
  qed
qed

section \<open>Creating and removing an entry\<close>

text \<open>The invariant of the tree: every entry is there once, and the next address is new.\<close>

definition proc_ok :: "'f proc_state \<Rightarrow> bool" where
  "proc_ok st \<longleftrightarrow> distinct (ids (proc_root st)) \<and> list_all (\<lambda>i. i < proc_ids st) (ids (proc_root st))"

lemma proc_ok_fresh: "proc_ok st \<Longrightarrow> proc_ids st \<notin> set (ids (proc_root st))"
  by (auto simp: proc_ok_def list_all_iff)

lemma create_in_dir:
  "name \<noteq> [] \<Longrightarrow> create_proc_entry False ops name mode (Some p) st =
     (Some (proc_ids st), st\<lparr>proc_root := on_entry p (with_sub (\<lambda>sub. Entry (proc_ids st) name (length name) mode ops [] # sub)) (proc_root st),
       proc_ids := Suc (proc_ids st)\<rparr>)"
  by (simp add: create_proc_entry_def proc_create_def proc_register_with_sub)

lemma on_entry_cons_ids:
  assumes "distinct (ids t)" "pe_id e \<notin> set (ids t)" "ids e = [pe_id e]"
  shows "set (ids (on_entry p (with_sub (\<lambda>sub. e # sub)) t)) \<subseteq> insert (pe_id e) (set (ids t))"
    and "distinct (ids (on_entry p (with_sub (\<lambda>sub. e # sub)) t))"
proof -
  have sub: "set (ids (on_entry p (with_sub (\<lambda>sub. e # sub)) u)) \<subseteq> insert (pe_id e) (set (ids u))" for u
    by (induction p "with_sub (\<lambda>sub. e # sub)" u rule: on_entry.induct) (use assms(3) in \<open>auto simp: with_sub_def\<close>)
  then show "set (ids (on_entry p (with_sub (\<lambda>sub. e # sub)) t)) \<subseteq> insert (pe_id e) (set (ids t))" .
  show "distinct (ids (on_entry p (with_sub (\<lambda>sub. e # sub)) t))"
    using assms(1,2)
  proof (induction t)
    case (Entry j n l m ops ts)
    show ?case
    proof (cases "p = j")
      case True
      then show ?thesis using Entry.prems assms(3) by (auto simp: with_sub_def)
    next
      case False
      have "distinct (concat (map ids (map (on_entry p (with_sub (\<lambda>sub. e # sub))) ts)))"
        using Entry.prems Entry.IH
      proof (induction ts)
        case (Cons u us)
        show ?case
        proof (cases "p \<in> set (ids u)")
          case True
          then have "map (on_entry p (with_sub (\<lambda>sub. e # sub))) us = us"
            using Cons.prems(1) by (intro map_idI on_entry_absent) auto
          then show ?thesis using Cons subsetD [OF sub [of u]] by auto (metis disjoint_iff UN_I)
        next
          case False
          then have "on_entry p (with_sub (\<lambda>sub. e # sub)) u = u" by (rule on_entry_absent)
          then show ?thesis using Cons subsetD [OF sub] by auto (metis disjoint_iff UN_I)
        qed
      qed simp
      then show ?thesis using False Entry.prems sub by (auto simp: subset_iff)
    qed
  qed
qed

lemma proc_ok_create:
  assumes ok: "proc_ok st"
  shows "proc_ok (snd (create_proc_entry fail ops name mode parent st))"
proof (cases "proc_create fail ops parent name mode st")
  case None
  then show ?thesis using ok by (simp add: create_proc_entry_def)
next
  case (Some r)
  obtain p e where r: "r = (p, e)" by (cases r)
  have e: "pe_id e = proc_ids st" "ids e = [proc_ids st]"
    using Some by (auto simp: r proc_create_def split: if_splits option.splits)
  have d: "distinct (ids (proc_root st))" and f: "pe_id e \<notin> set (ids (proc_root st))" "ids e = [pe_id e]"
    using ok proc_ok_fresh [OF ok] e by (simp_all add: proc_ok_def)
  have "i < Suc (proc_ids st)" if "i \<in> set (ids (on_entry p (with_sub (\<lambda>sub. e # sub)) (proc_root st)))" for i
    using subsetD [OF on_entry_cons_ids(1) [OF d f] that] ok e(1) by (auto simp: proc_ok_def list_all_iff)
  then show ?thesis
    using on_entry_cons_ids(2) [OF d f] Some r by (simp add: create_proc_entry_def proc_ok_def proc_register_with_sub list_all_iff)
qed

text \<open>Functions that do not add entries keep the invariant.\<close>

lemma on_entry_sub:
  assumes "\<And>e. subseq (ids (f e)) (ids e)"
  shows "subseq (ids (on_entry i f t)) (ids t)"
proof (induction t)
  case (Entry j n l m ops ts)
  have "subseq (concat (map ids (map (on_entry i f) us))) (concat (map ids us))" if "set us \<subseteq> set ts" for us
    using that Entry by (induction us) (auto intro: list_emb_append_mono)
  from this [of ts] show ?case using assms [of "Entry j n l m ops ts"] by auto
qed

lemma subseq_elem: "subseq xs ys \<Longrightarrow> x \<in> set xs \<Longrightarrow> x \<in> set ys"
  by (induction rule: list_emb.induct) auto

lemma subseq_distinct_list: "subseq xs ys \<Longrightarrow> distinct ys \<Longrightarrow> distinct xs"
  by (induction rule: list_emb.induct) (auto dest: subseq_elem)

lemma proc_ok_sub:
  assumes "\<And>e. subseq (ids (f e)) (ids e)" "proc_ok st"
  shows "proc_ok (st\<lparr>proc_root := on_entry i f (proc_root st)\<rparr>)"
  using on_entry_sub [OF assms(1), of i "proc_root st"] assms(2)
  by (auto simp: proc_ok_def list_all_iff dest: subseq_distinct_list subseq_elem)

lemma subseq_set_ops: "subseq (ids (set_ops ops e)) (ids e)"
  by (cases e) (simp add: set_ops_def)

lemma subseq_concat: "subseq xs ys \<Longrightarrow> subseq (concat (map g xs)) (concat (map g ys))"
  by (induction rule: list_emb.induct) (auto intro: list_emb_append_mono list_emb_append2)

lemma subseq_remove_match: "subseq (remove_match P xs) xs"
  by (induction xs) (auto intro: list_emb_Cons)

lemma subseq_unlink: "subseq (ids (unlink_child fn e)) (ids e)"
  by (cases e) (simp add: unlink_child_def subseq_concat subseq_remove_match)

lemma walk_append: "walk (cs @ ds) t = Option.bind (walk cs t) (walk ds)"
  by (induction cs t rule: walk.induct) (auto split: option.splits)

text \<open>The text of a path below /proc.\<close>

definition proc_path :: "string list \<Rightarrow> string" where
  "proc_path cs = ''/proc'' @ concat (map (\<lambda>c. CHR ''/'' # c) cs)"

lemma split_on_free [simp]: "x \<notin> set s \<Longrightarrow> split_on x s = [s]"
  by (induction s) auto

lemma split_on_sep: "x \<notin> set s \<Longrightarrow> split_on x (s @ x # r) = s # split_on x r"
  by (induction s) auto

lemma split_on_path:
  "CHR ''/'' \<notin> set c \<Longrightarrow> \<forall>d \<in> set cs. CHR ''/'' \<notin> set d \<Longrightarrow>
    split_on CHR ''/'' (c @ concat (map (\<lambda>c. CHR ''/'' # c) cs)) = c # cs"
  by (induction cs arbitrary: c) (simp_all add: split_on_sep)

lemma find_proc_path:
  assumes "cs \<noteq> []" "\<forall>c \<in> set cs. CHR ''/'' \<notin> set c"
  shows "find_proc_entry (proc_path cs) st = Ok (walk cs (proc_root st))"
proof -
  obtain c ds where cs: "cs = c # ds" using assms(1) by (cases cs) auto
  then show ?thesis using assms(2) split_on_path [of c ds] by (simp add: find_proc_entry_def proc_path_def)
qed

lemma prefix_longer: "\<not> prefix (cs @ [x]) cs"
  by (auto dest: prefix_length_le)

lemma proc_create_effect:
  assumes ok: "proc_ok st" and d: "walk dirs (proc_root st) = Some d" and name: "name \<noteq> []"
    and c: "create_proc_entry False ops name mode (Some (pe_id d)) st = (r, st')"
  shows "walk (dirs @ [name]) (proc_root st') = Some (Entry (proc_ids st) name (length name) mode ops [])"
    and "\<not> prefix (dirs @ [name]) cs \<Longrightarrow> map_option pe_id (walk cs (proc_root st')) = map_option pe_id (walk cs (proc_root st))"
    and "remove_proc_entry ign name (Some (pe_id d)) st' = Ok (st'\<lparr>proc_root := proc_root st\<rparr>)"
proof -
  let ?e = "Entry (proc_ids st) name (length name) mode ops []"
  let ?f = "with_sub (\<lambda>sub. ?e # sub)"
  have dist: "distinct (ids (proc_root st))" using ok by (simp add: proc_ok_def)
  have root: "proc_root st' = on_entry (pe_id d) ?f (proc_root st)" using c name by (auto simp: create_in_dir)
  have w: "walk dirs (proc_root st') = Some (?f d)" using walk_on_entry [OF _ dist d] by (simp add: root)
  have match: "proc_match (length name) name ?e" by (simp add: proc_match_def)
  show "walk (dirs @ [name]) (proc_root st') = Some ?e" using w match by (simp add: walk_append)
  show "\<not> prefix (dirs @ [name]) cs \<Longrightarrow> map_option pe_id (walk cs (proc_root st')) = map_option pe_id (walk cs (proc_root st))"
    using walk_elsewhere [OF _ dist d, of ?e cs] by (simp add: root)
  have in_t: "pe_id d \<in> set (ids (proc_root st))" using walk_ids [OF d] pe_id_in_ids [of d] by (rule subsetD)
  then obtain d' where d': "entry_at (pe_id d) (proc_root st) = Some d'"
    using entry_at_None(1) [of "pe_id d" "proc_root st"] by (cases "entry_at (pe_id d) (proc_root st)") auto
  have "entry_at (pe_id d) (proc_root st') = Some (?f d')"
    unfolding root using entry_at_on_entry(1) [OF d', of ?f] entry_at_id(1) [OF d'] by simp
  moreover have "on_entry (pe_id d) (unlink_child name) (proc_root st') = proc_root st"
    unfolding root unlink_child_with_sub by (subst on_entry_comp) (use match in \<open>auto intro!: on_entry_id simp: with_sub_id\<close>)
  ultimately show "remove_proc_entry ign name (Some (pe_id d)) st' = Ok (st'\<lparr>proc_root := proc_root st\<rparr>)"
    using match by (simp add: remove_proc_entry_def)
qed

text \<open>C18. Let the tree hold every entry once, and create an entry under a name of one component in a directory that a path reaches.
  The new state keeps the invariant; opening the path with the name finds the new entry with the given mode and functions;
  a path that does not go through the new entry leads where it led before (or nowhere, as before), so a file of the same name
  elsewhere is not disturbed; and removing the entry restores the tree exactly.\<close>

theorem proc_entry_lifecycle:
  assumes "proc_ok st" "walk dirs (proc_root st) = Some d" "name \<noteq> []" "\<forall>c \<in> set (name # dirs). CHR ''/'' \<notin> set c"
    and "create_proc_entry False ops name mode (Some (pe_id d)) st = (r, st')"
  shows "proc_ok st' \<and>
    find_proc_entry (proc_path (dirs @ [name])) st' = Ok (Some (Entry (the r) name (length name) mode ops [])) \<and>
    (\<forall>cs. \<not> prefix (dirs @ [name]) cs \<longrightarrow> map_option pe_id (walk cs (proc_root st')) = map_option pe_id (walk cs (proc_root st))) \<and>
    remove_proc_entry ign name (Some (pe_id d)) st' = Ok (st'\<lparr>proc_root := proc_root st\<rparr>)"
proof -
  have r: "r = Some (proc_ids st)" using assms(3,5) by (simp add: create_in_dir)
  have "proc_ok st'" using proc_ok_create [OF assms(1), of False ops name mode "Some (pe_id d)"] assms(5) by simp
  moreover have "find_proc_entry (proc_path (dirs @ [name])) st' = Ok (Some (Entry (the r) name (length name) mode ops []))"
    using proc_create_effect(1) [OF assms(1-3,5)] assms(4) by (simp add: find_proc_path r)
  ultimately show ?thesis using proc_create_effect(2,3) [OF assms(1-3,5)] by blast
qed

theorem proc_entry_lifecycle_witness:
  "let st = proc_init (\<lambda>_. False) (0 :: nat) in
    proc_ok (snd (create_proc_entry False 7 ''ip_conntrack'' 0x1A4 (proc_net st) st)) \<and>
    remove_proc_entry False ''ip_conntrack'' (proc_net st) (snd (create_proc_entry False 7 ''ip_conntrack'' 0x1A4 (proc_net st) st)) =
      Ok (st\<lparr>proc_ids := 5\<rparr>)"
proof -
  define st where "st = proc_init (\<lambda>_. False) (0 :: nat)"
  have ok: "proc_ok st" and d: "walk [''net''] (proc_root st) = Some (Entry 1 ''net'' 3 0x416D 0 [Entry 2 ''stat'' 4 0x416D 0 []])"
    and net: "proc_net st = Some 1" and i: "proc_ids st = 4"
    unfolding st_def by code_simp+
  then show ?thesis
    unfolding st_def [symmetric] Let_def
    using proc_entry_lifecycle [OF ok d _ _ prod.collapse [symmetric], of "''ip_conntrack''" 7 "0x1A4" False]
    by (simp add: create_in_dir)
qed

text \<open>
  A path given without a parent directory is stored whole, with the length of its last part: the first characters of the path
  are compared instead of the name, so that the entry is not found and cannot be removed again.
\<close>

lemma create_by_path_lost:
  "let st = snd (create_proc_entry False (7 :: nat) ''net/conn'' 0x1A4 None (proc_init (\<lambda>_. False) 0)) in
    find_proc_entry ''/proc/net/conn'' st = Ok None \<and>
    remove_proc_entry False ''net/conn'' None st =
      Barf (''Cannot find entry '' @ CHR 0x27 # ''net/conn'' @ CHR 0x27 # '' under net to remove'')"
  by code_simp

section \<open>Reachable trees\<close>

lemma proc_ok_remove: "remove_proc_entry ign name parent st = Ok st' \<Longrightarrow> proc_ok st \<Longrightarrow> proc_ok st'"
  by (auto simp: remove_proc_entry_def proc_ok_sub subseq_unlink split: option.splits if_splits)

lemma proc_ok_created: "create_proc_entry fail ops name mode parent st = (r, st') \<Longrightarrow> proc_ok st \<Longrightarrow> proc_ok st'"
  using proc_ok_create [of st fail ops name mode parent] by simp

lemma proc_ok_set_ops: "proc_ok st \<Longrightarrow> proc_ok (st\<lparr>proc_root := on_entry i (set_ops ops) (proc_root st)\<rparr>)"
  by (rule proc_ok_sub [OF subseq_set_ops])

lemma proc_ok_info: "create_proc_info_entry fail ops get_info name mode base st = (r, st') \<Longrightarrow> proc_ok st \<Longrightarrow> proc_ok st'"
  by (auto simp: create_proc_info_entry_def proc_ok_set_ops dest!: proc_ok_created split: prod.splits option.splits)

lemma proc_ok_make_table: "make_table_entry sysops ops root name t st = (r, st') \<Longrightarrow> proc_ok st \<Longrightarrow> proc_ok st'"
  by (auto simp: make_table_entry_def Let_def proc_ok_set_ops dest!: proc_ok_created split: prod.splits option.splits if_splits)

lemma proc_ok_register_table:
  fixes ts :: "'h ctl_table list" and t :: "'h ctl_table" and st st' :: "'f proc_state"
  shows "register_proc_table sysops ops ts root st = Ok (ts', st') \<Longrightarrow> proc_ok st \<Longrightarrow> proc_ok st'"
    and "register_entry sysops ops t root st = Ok (t', st') \<Longrightarrow> proc_ok st \<Longrightarrow> proc_ok st'"
proof (induction sysops ops ts root st and sysops ops t root st arbitrary: ts' st' and t' st'
    rule: register_proc_table_register_entry.induct)
  case (2 sysops ops t ts root st)
  then show ?case by (auto simp: bind_outcome_Ok_iff)
next
  case (3 sysops ops pn md h ch de root st)
  show ?case
  proof (cases pn)
    case None
    then show ?thesis using 3 by simp
  next
    case (Some name)
    obtain r st1 where m: "make_table_entry sysops ops root name (Ctl pn md h ch de) st = (r, st1)" by fastforce
    have ok: "proc_ok st1" by (rule proc_ok_make_table [OF m 3(3)])
    show ?thesis
      using 3(1) [OF Some _ m [symmetric]] 3(2) ok m Some
      by (auto simp: bind_outcome_Ok_iff split: if_splits option.splits)
  qed
qed auto

lemma proc_ok_unregister_table:
  fixes ts :: "'h ctl_table list" and t :: "'h ctl_table" and st st' :: "'f proc_state"
  shows "unregister_proc_table ign ts root st = Ok (ts', st') \<Longrightarrow> proc_ok st \<Longrightarrow> proc_ok st'"
    and "unregister_entry ign t root st = Ok (t', st') \<Longrightarrow> proc_ok st \<Longrightarrow> proc_ok st'"
proof (induction ign ts root st and ign t root st arbitrary: ts' st' and t' st'
    rule: unregister_proc_table_unregister_entry.induct)
  case (2 ign t ts root st)
  then show ?case by (auto simp: bind_outcome_Ok_iff)
next
  case (3 ign pn md h ch de root st)
  show ?case
  proof (cases de)
    case None
    then show ?thesis using 3 by simp
  next
    case (Some i)
    then show ?thesis
      using 3(1) [OF Some] 3(2,3)
      by (auto simp: bind_outcome_Ok_iff proc_ok_remove split: if_splits option.splits)
  qed
qed auto

lemma proc_ok_init: "proc_ok (proc_init fail ops)"
proof -
  have mk: "proc_ok (snd (proc_mkdir f ops n p st))" if "proc_ok st" for f n p and st :: "'a proc_state"
    using proc_ok_create [OF that] by (simp add: proc_mkdir_def)
  have ext: "proc_ok (st\<lparr>proc_net := x\<rparr>) = proc_ok st" "proc_ok (st\<lparr>proc_net_stat := x\<rparr>) = proc_ok st"
    "proc_ok (st\<lparr>proc_sys_root := x\<rparr>) = proc_ok st" for x and st :: "'a proc_state"
    by (simp_all add: proc_ok_def)
  show ?thesis
    by (simp add: proc_init_def Let_def split_beta ext mk proc_ok_def [of "\<lparr>proc_root = _, proc_ids = _, proc_net = _, proc_net_stat = _, proc_sys_root = _\<rparr>"])
qed

inductive proc_reach :: "'f proc_state \<Rightarrow> bool" where
  init: "proc_reach (proc_init fail ops)"
| create: "proc_reach st \<Longrightarrow> create_proc_entry fail ops name mode parent st = (r, st') \<Longrightarrow> proc_reach st'"
| mkdir: "proc_reach st \<Longrightarrow> proc_mkdir fail ops name parent st = (r, st') \<Longrightarrow> proc_reach st'"
| net_create: "proc_reach st \<Longrightarrow> proc_net_create fail ops get_info name mode st = (r, st') \<Longrightarrow> proc_reach st'"
| net_fops: "proc_reach st \<Longrightarrow> proc_net_fops_create fail ops fops name mode st = (r, st') \<Longrightarrow> proc_reach st'"
| remove: "proc_reach st \<Longrightarrow> remove_proc_entry ign name parent st = Ok st' \<Longrightarrow> proc_reach st'"
| register: "proc_reach st \<Longrightarrow> register_sysctl_table fail sysops ops (table :: 'f ctl_table list) st = Ok (r, st') \<Longrightarrow> proc_reach st'"
| unregister: "proc_reach st \<Longrightarrow> unregister_sysctl_table ign (table :: 'f ctl_table list) st = Ok (r, st') \<Longrightarrow> proc_reach st'"
| cleanup: "proc_reach st \<Longrightarrow> proc_reach (proc_cleanup ign ops st)"

text \<open>
  The representation is sound: whatever the modules create, register, unregister and remove, failures included, the identities that stand for the
  addresses stay distinct, so that an entry can be named by its identity.
\<close>

lemma proc_reach_ok:
  "proc_reach st \<Longrightarrow> proc_ok st"
  by (induction rule: proc_reach.induct)
    (auto simp: proc_ok_init proc_ok_remove proc_cleanup_def register_sysctl_table_def unregister_sysctl_table_def bind_outcome_Ok_iff
      proc_mkdir_def proc_net_create_def proc_net_fops_create_def
      dest: proc_ok_created proc_ok_info proc_ok_register_table proc_ok_unregister_table split: if_splits option.splits)

end
