(* ===== verification/Proc_Sysctl.thy ===== *)
theory Proc_Sysctl
  imports Proc_Tree Gen_Ip
begin

text \<open>
  What the files of /proc do when they are read and written, kernelenv/proc\_stuff.c: pages produced by a module's function, and
  sysctl variables, vectors of integers as text. Reading pages returns the text of the file from the offset on; integers
  written as text are stored and read back as the same text.
\<close>

section \<open>Files made of pages\<close>

text \<open>
  What the module's function returns besides \<open>n\<close>: the page it filled and \<^verbatim>\<open>start\<close>, which is \<^verbatim>\<open>NULL\<close>, a number (an address
  below the page, used as an amount by which the offset advances) or an offset into the page. \<open>eof\<close> is \<^verbatim>\<open>*peof\<close>.
\<close>

datatype start = Null | Amount nat | Within nat

record page_reply =
  pr_n :: int
  pr_page :: "char list"
  pr_start :: start
  pr_eof :: bool

datatype proc_reader =
  Get_info "int \<Rightarrow> nat \<Rightarrow> page_reply"
| Read_proc "int \<Rightarrow> nat \<Rightarrow> page_reply"
| No_reader

definition PROC_BLOCK_SIZE :: nat where "PROC_BLOCK_SIZE = PAGE_SIZE - 1024"

text \<open>
  How many bytes of a reply are taken, from which offset in the page, and by how much the file offset advances; \<open>None\<close> when the
  offset lies behind the data. A reply has a page of \<open>PAGE_SIZE\<close> bytes.
\<close>

definition page_part :: "page_reply \<Rightarrow> int \<Rightarrow> nat \<Rightarrow> (nat \<times> nat \<times> nat) option" where
  "page_part r ppos count =
     (case pr_start r of
        Null \<Rightarrow>
          let n = min (pr_n r) (int PAGE_SIZE) - ppos in
          if n \<le> 0 then None else let n = min (nat n) count in Some (nat ppos, n, n)
      | Amount a \<Rightarrow> Some (0, min (nat (pr_n r)) PAGE_SIZE, a)
      | Within off \<Rightarrow> let n = min (min (nat (pr_n r)) (PAGE_SIZE - off)) count in Some (off, n, n))"

text \<open>
  The loop of \<open>proc_file_read\<close>; the result is the return value, the bytes copied and the offset. With an amount for \<^verbatim>\<open>start\<close>
  more bytes than the buffer holds may be copied.
\<close>

fun proc_file_loop :: "nat \<Rightarrow> proc_reader \<Rightarrow> nat \<Rightarrow> int \<Rightarrow> int \<Rightarrow> string \<Rightarrow> (int \<times> string \<times> int) outcome option" where
  "proc_file_loop 0 rd nbytes ppos retval out = None"
| "proc_file_loop (Suc fuel) rd nbytes ppos retval out =
     (if nbytes = 0 then Some (Ok (retval, out, ppos))
      else
        let count = min PROC_BLOCK_SIZE nbytes;
            reply = (case rd of
                       Get_info f \<Rightarrow> let r = f ppos count in Some (r\<lparr>pr_eof := pr_n r < int count\<rparr>)
                     | Read_proc f \<Rightarrow> Some (f ppos count)
                     | No_reader \<Rightarrow> None)
        in case reply of
             None \<Rightarrow> Some (Ok (retval, out, ppos))
           | Some r \<Rightarrow>
               if pr_n r = 0 then Some (Ok (retval, out, ppos))
               else if pr_n r < 0 then Some (Ok (if retval = 0 then pr_n r else retval, out, ppos))
               else
                 case page_part r ppos count of
                   None \<Rightarrow> Some (Ok (retval, out, ppos))
                 | Some (off, n, adv) \<Rightarrow>
                     if nbytes < n then Some (Barf ''write past the end of the buffer'')
                     else
                       let out = out @ take n (drop off (pr_page r));
                           ppos = ppos + int adv;
                           retval = retval + int n
                       in if pr_eof r then Some (Ok (retval, out, ppos))
                          else proc_file_loop fuel rd (nbytes - n) ppos retval out)"

definition proc_file_read :: "nat \<Rightarrow> proc_reader \<Rightarrow> nat \<Rightarrow> int \<Rightarrow> (int \<times> string \<times> int) outcome option" where
  "proc_file_read fuel rd nbytes ppos = proc_file_loop fuel rd nbytes ppos 0 []"

definition proc_file_write :: "('s \<Rightarrow> string \<Rightarrow> int \<times> 's) option \<Rightarrow> string \<Rightarrow> 's \<Rightarrow> int \<times> 's" where
  "proc_file_write write_proc buf s = (case write_proc of None \<Rightarrow> (- EIO, s) | Some w \<Rightarrow> w s buf)"

section \<open>Access to sysctl variables\<close>

definition test_perm :: "u32 \<Rightarrow> u32 \<Rightarrow> int" where
  "test_perm mode op = (if drop_bit 6 mode AND op AND 7 = op then 0 else - EACCES)"

text \<open>
  A handler gets whether it writes, the memory from the buffer on, the size and the offset, and works on the memory of the
  variables; it returns its result, the new size and offset, the bytes put into the buffer, and the memory.
\<close>

type_synonym 's proc_handler = "bool \<Rightarrow> string \<Rightarrow> u64 \<Rightarrow> int \<Rightarrow> 's \<Rightarrow> (int \<times> u64 \<times> int \<times> string \<times> 's) outcome"

definition do_rw_proc :: "'s proc_handler ctl_table option \<Rightarrow> bool \<Rightarrow> string \<Rightarrow> u64 \<Rightarrow> int \<Rightarrow> 's \<Rightarrow> (int \<times> string \<times> 's) outcome" where
  "do_rw_proc data write buf count ppos s =
     (case data of
        None \<Rightarrow> Ok (- ENOTDIR, [], s)
      | Some table \<Rightarrow>
          (case ct_handler table of
             None \<Rightarrow> Ok (- ENOTDIR, [], s)
           | Some handler \<Rightarrow>
               if test_perm (ct_mode table) (if write then 2 else 4) \<noteq> 0 then Ok (- EPERM, [], s)
               else
                 bind_outcome (handler write buf count ppos s) (\<lambda>(error, res, _, out, s).
                   Ok (if error \<noteq> 0 then error else sint res, out, s))))"

definition proc_opensys :: "u32 \<Rightarrow> u32 \<Rightarrow> int" where
  "proc_opensys i_mode f_mode = (if f_mode AND FMODE_WRITE \<noteq> 0 \<and> i_mode AND S_IWUSR = 0 then - EPERM else 0)"

definition proc_sys_file_operations :: "'s proc_handler ctl_table \<Rightarrow> 's file_operations" where
  "proc_sys_file_operations table =
     \<lparr>f_open = Some (\<lambda>im fm s. (proc_opensys im fm, s)),
      f_read = (\<lambda>count ppos s. do_rw_proc (Some table) False [] (word_of_nat count) ppos s),
      f_write = (\<lambda>str ppos s. bind_outcome (do_rw_proc (Some table) True (str @ [CHR 0x00]) (word_of_nat (length str)) ppos s)
                   (\<lambda>(ret, _, s). Ok (ret, s))),
      f_release = None\<rparr>"

section \<open>Vectors of integers\<close>

record conv =
  conv_write :: "bool \<Rightarrow> u64 \<Rightarrow> u32 \<Rightarrow> int \<times> u32"
  conv_read :: "u32 \<Rightarrow> bool \<times> u64"

definition read_conv :: "u32 \<Rightarrow> bool \<times> u64" where
  "read_conv val = (if val <s 0 then (True, scast (- val)) else (False, scast val))"

definition do_proc_dointvec_conv :: conv where
  "do_proc_dointvec_conv = \<lparr>conv_write = (\<lambda>neg lval val. (0, ucast (if neg then - lval else lval))), conv_read = read_conv\<rparr>"

definition do_proc_dointvec_jiffies_conv :: conv where
  "do_proc_dointvec_jiffies_conv =
     \<lparr>conv_write = (\<lambda>neg lval val. (0, ucast (if neg then - (lval * ucast HZ) else lval * ucast HZ))),
      conv_read = (\<lambda>val. let (neg, lval) = read_conv val in (neg, lval div ucast HZ))\<rparr>"

definition do_proc_dointvec_minmax_conv :: "u32 option \<Rightarrow> u32 option \<Rightarrow> conv" where
  "do_proc_dointvec_minmax_conv mn mx =
     \<lparr>conv_write = (\<lambda>neg lval old.
        let val = ucast (if neg then - lval else lval) in
        if (case mn of None \<Rightarrow> False | Some m \<Rightarrow> val <s m) \<or> (case mx of None \<Rightarrow> False | Some m \<Rightarrow> m <s val)
        then (- EINVAL, old) else (0, val)),
      conv_read = read_conv\<rparr>"

definition TMPBUFLEN :: nat where "TMPBUFLEN = 21"

text \<open>
  Text is read from the memory behind the buffer, \<open>s\<close>, and \<open>left\<close> counts the bytes; the two agree as long as no number
  is negative, because its sign is counted twice.
\<close>

fun skip_blanks :: "u64 \<Rightarrow> string \<Rightarrow> (u64 \<times> string) outcome" where
  "skip_blanks left [] = (if left = 0 then Ok (left, []) else Barf ''read past the end of the buffer'')"
| "skip_blanks left (c # s) = (if left \<noteq> 0 \<and> isspace c then skip_blanks (left - 1) s else Ok (left, c # s))"

text \<open>
  A number at the start of \<open>s\<close>: the sign, its value, its length with the sign, and what is left after the sign; or that the
  loop ends here.
\<close>

datatype int_token = Token bool u64 nat u64 | Break u64

definition read_token :: "u64 \<Rightarrow> string \<Rightarrow> int_token outcome" where
  "read_token left s =
     (let len = min (unat left) (TMPBUFLEN - 1) in
      if length s < len then Barf ''read past the end of the buffer''
      else
        let buf = take len s;
            neg = (hd buf = CHR ''-'' \<and> left > 1);
            left = (if neg then left - 1 else left);
            p = (if neg then tl buf else buf)
        in if p = [] \<or> \<not> isdigit (hd p) then Ok (Break left)
           else
             let (lval, rest) = strtoul0 p;
                 len = length buf - length rest
             in if word_of_nat len < left \<and> rest \<noteq> [] \<and> hd rest \<noteq> CHR 0x00 \<and> \<not> isspace (hd rest)
                then Ok (Break left) else Ok (Token neg lval len left))"

fun write_ints :: "conv \<Rightarrow> u32 list \<Rightarrow> u64 \<Rightarrow> string \<Rightarrow> bool \<Rightarrow> (u32 list \<times> u64 \<times> string \<times> bool) outcome" where
  "write_ints conv [] left s first = Ok ([], left, s, first)"
| "write_ints conv (v # vs) left s first =
     (if left = 0 then Ok (v # vs, left, s, first)
      else
        bind_outcome (skip_blanks left s) (\<lambda>(left, s).
          if left = 0 then Ok (v # vs, left, s, first)
          else
            bind_outcome (read_token left s) (\<lambda>tok.
              case tok of
                Break left \<Rightarrow> Ok (v # vs, left, s, first)
              | Token neg lval len left \<Rightarrow>
                  let s = drop len s;
                      left = left - word_of_nat len;
                      (err, v') = conv_write conv neg lval v
                  in if err \<noteq> 0 then Ok (v' # vs, left, s, first)
                     else
                       bind_outcome (write_ints conv vs left s False) (\<lambda>(vs, left, s, first).
                         Ok (v' # vs, left, s, first)))))"

definition int_text :: "conv \<Rightarrow> bool \<Rightarrow> u32 \<Rightarrow> string" where
  "int_text conv first v =
     (let (neg, lval) = conv_read conv v in (if first then [] else [CHR 0x09]) @ (if neg then ''-'' else []) @ show_nat (unat lval))"

text \<open>\<^verbatim>\<open>sprintf\<close> writes into the buffer of \<open>TMPBUFLEN\<close> bytes.\<close>

fun read_ints :: "conv \<Rightarrow> u32 list \<Rightarrow> nat \<Rightarrow> bool \<Rightarrow> (string \<times> nat \<times> bool) outcome" where
  "read_ints conv [] left first = Ok ([], left, first)"
| "read_ints conv (v # vs) left first =
     (if left = 0 then Ok ([], left, first)
      else
        let txt = int_text conv first v in
        if TMPBUFLEN < length txt + 1 then Barf ''write past the end of the buffer''
        else
          bind_outcome (read_ints conv vs (left - length txt) False) (\<lambda>(out, left', first).
            Ok (take left txt @ out, left', first)))"

text \<open>
  A variable: where its integers are, its size in bytes, and its bounds. The memory holds a vector of integers at every
  address.
\<close>

record int_table =
  td_data :: "nat option"
  td_maxlen :: nat
  td_min :: "u32 option"
  td_max :: "u32 option"

type_synonym int_memory = "nat \<Rightarrow> u32 list"

definition do_proc_dointvec :: "conv \<Rightarrow> int_table \<Rightarrow> int_memory proc_handler" where
  "do_proc_dointvec conv table write buffer lenp ppos mem =
     (case td_data table of
        None \<Rightarrow> Ok (0, 0, ppos, [], mem)
      | Some a \<Rightarrow>
          if td_maxlen table = 0 \<or> lenp = 0 \<or> ppos \<noteq> 0 \<and> \<not> write then Ok (0, 0, ppos, [], mem)
          else
            let k = td_maxlen table div 4; i = take k (mem a); others = drop k (mem a) in
            if length (mem a) < k then Barf ''access past the end of the vector''
            else if write then
              bind_outcome (write_ints conv i lenp buffer True) (\<lambda>(i, left, s, first).
              bind_outcome (skip_blanks left s) (\<lambda>(left, s).
                let mem = mem(a := i @ others) in
                if first then Ok (- EINVAL, lenp, ppos, [], mem)
                else Ok (0, lenp - left, ppos + uint (lenp - left), [], mem)))
            else
              bind_outcome (read_ints conv i (unat lenp) True) (\<lambda>(out, left, first).
                let newline = \<not> first \<and> 0 < left;
                    left = (if newline then left - 1 else left);
                    lenp = lenp - word_of_nat left
                in Ok (0, lenp, ppos + uint lenp, out @ (if newline then [CHR 0x0A] else []), mem)))"

definition proc_dointvec :: "int_table \<Rightarrow> int_memory proc_handler" where
  "proc_dointvec table = do_proc_dointvec do_proc_dointvec_conv table"

definition proc_dointvec_jiffies :: "int_table \<Rightarrow> int_memory proc_handler" where
  "proc_dointvec_jiffies table = do_proc_dointvec do_proc_dointvec_jiffies_conv table"

definition proc_dointvec_minmax :: "int_table \<Rightarrow> int_memory proc_handler" where
  "proc_dointvec_minmax table = do_proc_dointvec (do_proc_dointvec_minmax_conv (td_min table) (td_max table)) table"

text \<open>
  The check of a binary sysctl; here the bounds are vectors. \<open>newval\<close> are the integers at the new value, \<open>newlen\<close> their size.
\<close>

fun vec_in_bounds :: "u32 list \<Rightarrow> u32 list option \<Rightarrow> u32 list option \<Rightarrow> bool outcome" where
  "vec_in_bounds [] mn mx = Ok True"
| "vec_in_bounds (v # vs) mn mx =
     (case (mn, mx) of
        (Some [], _) \<Rightarrow> Barf ''read past the end of the bounds''
      | _ \<Rightarrow>
          if (case mn of None \<Rightarrow> False | Some ms \<Rightarrow> v <s hd ms) then Ok False
          else if mx = Some [] then Barf ''read past the end of the bounds''
          else if (case mx of None \<Rightarrow> False | Some ms \<Rightarrow> hd ms <s v) then Ok False
          else vec_in_bounds vs (map_option tl mn) (map_option tl mx))"

definition sysctl_intvec :: "nat \<Rightarrow> u32 list option \<Rightarrow> u32 list option \<Rightarrow> u32 list option \<Rightarrow> nat \<Rightarrow> int outcome" where
  "sysctl_intvec maxlen mn mx newval newlen =
     (case newval of
        None \<Rightarrow> Ok 0
      | Some vec \<Rightarrow>
          if newlen = 0 then Ok 0
          else if newlen mod 4 \<noteq> 0 then Ok (- EINVAL)
          else if mn = None \<and> mx = None then Ok 0
          else
            let k = min newlen maxlen div 4 in
            if length vec < k then Barf ''read past the end of the value''
            else bind_outcome (vec_in_bounds (take k vec) mn mx) (\<lambda>ok. Ok (if ok then 0 else - EINVAL)))"

section \<open>Pages make up the file\<close>

text \<open>
  The first of the three ways for a module to supply data, as the comment in \<open>proc_file_read\<close> states it, for a file with contents
  \<open>c\<close> that fits into a page: \<^verbatim>\<open>start\<close> is left alone, the data lies at its own offset in the page, something is supplied
  unless the offset is behind the end, and \<^verbatim>\<open>eof\<close> is set only when everything has been supplied.
\<close>

definition page_source :: "(int \<Rightarrow> nat \<Rightarrow> page_reply) \<Rightarrow> string \<Rightarrow> bool" where
  "page_source f c \<longleftrightarrow> length c \<le> PAGE_SIZE \<and>
     (\<forall>off count. 0 \<le> off \<longrightarrow> 0 < count \<longrightarrow>
       (let r = f off count in
        pr_start r = Null \<and> 0 \<le> pr_n r \<and> pr_n r \<le> int (length c) \<and> take (nat (pr_n r)) (pr_page r) = take (nat (pr_n r)) c \<and>
        (off < int (length c) \<longrightarrow> off < pr_n r) \<and> (pr_eof r \<longrightarrow> int (length c) = pr_n r \<and> int (length c) \<le> off + int count)))"

lemma page_sourceD:
  assumes "page_source f c" "0 < count"
  shows "length c \<le> PAGE_SIZE" "pr_start (f (int o') count) = Null" "0 \<le> pr_n (f (int o') count)" "pr_n (f (int o') count) \<le> int (length c)"
    "take (nat (pr_n (f (int o') count))) (pr_page (f (int o') count)) = take (nat (pr_n (f (int o') count))) c"
    "o' < length c \<Longrightarrow> int o' < pr_n (f (int o') count)"
    "pr_eof (f (int o') count) \<Longrightarrow> pr_n (f (int o') count) = int (length c) \<and> length c \<le> o' + count"
  using assms unfolding page_source_def Let_def by (auto dest!: spec [of _ "int o'"] spec [of _ count])

lemma take_page: "take m p = take m c \<Longrightarrow> o' + n \<le> m \<Longrightarrow> take n (drop o' p) = take n (drop o' c)"
  by (metis add.commute drop_take min.absorb1 take_take take_drop)

lemma take_split: "m \<le> n \<Longrightarrow> take n (drop i c) = take m (drop i c) @ take (n - m) (drop (i + m) c)"
  using take_add [of m "n - m" "drop i c"] by (simp add: add.commute)

lemma proc_file_loop_slice:
  assumes src: "page_source f c"
  shows "nbytes < fuel \<Longrightarrow>
    proc_file_loop fuel (Read_proc f) nbytes (int o') retval out =
      Some (Ok (retval + int (length (take nbytes (drop o' c))), out @ take nbytes (drop o' c), int o' + int (length (take nbytes (drop o' c)))))"
proof (induction fuel arbitrary: nbytes o' retval out)
  case (Suc fuel)
  show ?case
  proof (cases "nbytes = 0")
    case False
    let ?count = "min PROC_BLOCK_SIZE nbytes"
    have count: "0 < ?count" using False by (simp add: PROC_BLOCK_SIZE_def PAGE_SIZE_def)
    let ?r = "f (int o') ?count"
    note r = page_sourceD(1) [OF src count] page_sourceD(2-7) [OF src count, where o' = o']
    show ?thesis
    proof (cases "o' < length c")
      case True
      define m where "m = min (nat (pr_n ?r - int o')) ?count"
      have pos: "int o' < pr_n ?r" by (rule r(6) [OF True])
      have part: "page_part ?r (int o') ?count = Some (o', m, m)"
        using pos r(1,4) by (simp add: page_part_def r(2) Let_def m_def)
      have m: "0 < m" "m \<le> nbytes" "m \<le> nat (pr_n ?r - int o')" using pos count by (auto simp: m_def)
      have piece: "take m (drop o' (pr_page ?r)) = take m (drop o' c)"
        by (rule take_page [OF r(5)]) (use pos m(3) in linarith)
      have len: "o' + m \<le> length c" using pos r(4) m(3) by linarith
      then have plen: "length (take m (drop o' c)) = m" and mm: "min (length c - o') m = m" by auto
      show ?thesis
      proof (cases "pr_eof ?r")
        case eof: True
        have "m = length c - o'" using r(7) [OF eof] by (auto simp: m_def)
        then have "take m (drop o' c) = drop o' c" "take nbytes (drop o' c) = drop o' c" using m by auto
        then show ?thesis using False pos part piece eof m plen by (simp add: Let_def)
      next
        case False
        have split: "take nbytes (drop o' c) = take m (drop o' c) @ take (nbytes - m) (drop (o' + m) c)"
          by (rule take_split [OF m(2)])
        have "proc_file_loop fuel (Read_proc f) (nbytes - m) (int (o' + m)) (retval + int m) (out @ take m (drop o' c)) =
          Some (Ok (retval + int m + int (length (take (nbytes - m) (drop (o' + m) c))),
            (out @ take m (drop o' c)) @ take (nbytes - m) (drop (o' + m) c),
            int (o' + m) + int (length (take (nbytes - m) (drop (o' + m) c)))))"
          using m Suc.prems \<open>nbytes \<noteq> 0\<close> by (intro Suc.IH) auto
        then show ?thesis using \<open>nbytes \<noteq> 0\<close> False pos part piece m(2) mm unfolding split by (simp add: Let_def)
      qed
    next
      case False
      then have "pr_n ?r = 0 \<or> page_part ?r (int o') ?count = None"
        using r(3,4) by (auto simp: page_part_def r(2) Let_def)
      then show ?thesis using \<open>nbytes \<noteq> 0\<close> False r(3) by (auto simp: Let_def)
    qed
  qed simp
qed simp

text \<open>
  C33. A file of at most one page whose text a module supplies in the first of the ways that the comment in \<open>proc_file_read\<close> prescribes (\<open>page_source\<close>:
  \<^verbatim>\<open>start\<close> is left alone, the data lie at their own offset, some are supplied unless the offset is behind the end, and \<^verbatim>\<open>eof\<close> is set only when all have
  been supplied) reads like a plain file: the loop ends, in at most as many rounds as bytes are asked for, and returns exactly the bytes from the offset on, as many
  as are asked for, however few of them the module supplies per call, and the offset advances by as many.
\<close>

theorem proc_file_read_slice:
  assumes "page_source f c" "nbytes < fuel"
  shows "proc_file_read fuel (Read_proc f) nbytes (int off) =
    Some (Ok (int (length (take nbytes (drop off c))), take nbytes (drop off c), int off + int (length (take nbytes (drop off c)))))"
  using proc_file_loop_slice [OF assms, of off 0 "[]"] by (simp add: proc_file_read_def)

theorem proc_file_read_slice_witness:
  "proc_file_read 10 (Read_proc (\<lambda>off count. \<lparr>pr_n = 5, pr_page = ''hello'', pr_start = Null, pr_eof = 5 \<le> off + int count\<rparr>)) 9 (int 2) =
    Some (Ok (3, ''llo'', 5))"
  using proc_file_read_slice [of "\<lambda>off count. \<lparr>pr_n = 5, pr_page = ''hello'', pr_start = Null, pr_eof = 5 \<le> off + int count\<rparr>" "''hello''" 9 10 2]
  by (simp add: page_source_def PAGE_SIZE_def)

section \<open>Integers as text\<close>

lemma space_no_digit: "isspace c \<Longrightarrow> \<not> base_digit b c \<and> c \<noteq> CHR ''x'' \<and> c \<noteq> CHR ''X'' \<and> c \<noteq> CHR 0x00"
  by (auto simp: isspace_def base_digit_def hex_value_def)

lemma scan_number_show_rest:
  assumes "isspace x"
  shows "scan_number 0 (show_nat n @ x # r) = Some (False, int n, x # r)"
proof (cases "n = 0")
  case True
  have "base_digit 8 CHR ''0''" "value_in 8 ''0'' = 0" by code_simp+
  then show ?thesis
    using space_no_digit [OF assms] True by (auto simp: scan_number_def show_nat.simps digit_chars isspace_def)
next
  case False
  have d: "list_all isdigit (show_nat n)" "show_nat n \<noteq> []" "digits_value (show_nat n) = int n"
    using show_nat_digits by auto
  then obtain c cs where c: "show_nat n = c # cs" "isdigit c" "c \<noteq> CHR ''0''"
    using hd_show_nat [of n] False by (cases "show_nat n") auto
  have b: "base_digit 10 = isdigit" by (intro ext base_digit_10)
  have x: "\<not> isdigit x" using space_no_digit [OF assms, of 10] by (simp add: b)
  have cs: "takeWhile isdigit (cs @ x # r) = cs" "dropWhile isdigit (cs @ x # r) = x # r"
    using d(1) c(1) x by (simp_all add: list_all_iff takeWhile_append dropWhile_append)
  moreover have "value_in 10 (c # cs) = int n" using d c(1) by (simp add: value_in_10)
  ultimately show ?thesis using c isdigit_not [OF c(2)] by (simp add: scan_number_def b)
qed

lemma strtoul0_show: "isspace x \<Longrightarrow> int n < 18446744073709551616 \<Longrightarrow> strtoul0 (show_nat n @ x # r) = (word_of_nat n, x # r)"
  by (simp add: strtoul0_def scan_number_show_rest)

text \<open>The text of a vector: numbers with one character between them, a tab when it is read.\<close>

primrec ints_text :: "char \<Rightarrow> conv \<Rightarrow> bool \<Rightarrow> u32 list \<Rightarrow> string" where
  "ints_text sep conv first [] = []"
| "ints_text sep conv first (v # vs) = (if first then [] else [sep]) @ int_text conv True v @ ints_text sep conv False vs"

lemma int_text_tab: "int_text conv first v = (if first then [] else [CHR 0x09]) @ int_text conv True v"
  by (simp add: int_text_def split_beta)

lemma read_token_show:
  assumes "n < 2147483648" "r = [] \<or> isspace (hd r)" "left = word_of_nat (length (show_nat n @ r))" "int (length (show_nat n @ r)) < 18446744073709551616"
  shows "read_token left (show_nat n @ r @ t) = Ok (Token False (word_of_nat n) (length (show_nat n)) left)"
proof -
  have l: "length (show_nat n) \<le> 10" using assms(1) by (intro show_nat_length) auto
  have u: "unat left = length (show_nat n @ r)" using assms(4) unfolding assms(3) by (intro unat_of_nat_u64) simp
  define b where "b = take (min (length (show_nat n @ r)) 20 - length (show_nat n)) r"
  have buf: "take (min (unat left) 20) (show_nat n @ r @ t) = show_nat n @ b"
    unfolding u b_def using l by auto
  have b: "b = [] \<or> isspace (hd b)" using assms(2) by (cases r) (auto simp: b_def take_Cons')
  obtain c cs where c: "show_nat n = c # cs" "isdigit c" using show_nat_digits [of n] by (cases "show_nat n") auto
  have s: "strtoul0 (show_nat n @ b) = (word_of_nat n, b)"
    using assms(1) b by (cases b) (simp_all add: strtoul0_show strtoul0_def [of "show_nat n"] scan_number_show)
  have short: "\<not> length (show_nat n @ r @ t) < min (unat left) 20" unfolding u by auto
  show ?thesis
    using short s buf c isdigit_not [OF c(2)] b by (auto simp: read_token_def TMPBUFLEN_def Let_def)
qed

lemma skip_blanks_all:
  "list_all isspace e \<Longrightarrow> int (length e) < 18446744073709551616 \<Longrightarrow> skip_blanks (word_of_nat (length e)) (e @ t) = Ok (0, t)"
proof (induction e)
  case Nil
  then show ?case by (cases t) simp_all
next
  case (Cons c e)
  have "unat (word_of_nat (length (c # e)) :: u64) = length (c # e)" using Cons.prems(2) by (intro unat_of_nat_u64) simp
  then have "(word_of_nat (length (c # e)) :: u64) \<noteq> 0" by auto
  then show ?case using Cons by simp
qed

text \<open>Conversions that read and write the same numbers, those that satisfy \<open>P\<close>.\<close>

locale int_conv =
  fixes conv :: conv and P :: "u32 \<Rightarrow> bool"
  assumes reads: "P v \<Longrightarrow> \<exists>n < 2147483648. conv_read conv v = (False, word_of_nat n)"
    and writes: "P v \<Longrightarrow> conv_write conv False (snd (conv_read conv v)) old = (0, v)"
begin

lemma int_text_ok:
  assumes "P v"
  obtains n where "n < 2147483648" "int_text conv True v = show_nat n" "\<And>old. conv_write conv False (word_of_nat n) old = (0, v)"
proof -
  obtain n where n: "n < 2147483648" "conv_read conv v = (False, word_of_nat n)" using reads [OF assms] by auto
  have "unat (word_of_nat n :: u64) = n" using n(1) by (intro unat_of_nat_u64) simp
  then show thesis using that [OF n(1)] writes [OF assms] n(2) by (simp add: int_text_def)
qed

lemma int_text_length:
  assumes "P v"
  shows "length (int_text conv first v) \<le> 11"
proof -
  obtain n where n: "n < 2147483648" "int_text conv True v = show_nat n" by (rule int_text_ok [OF assms])
  have "length (show_nat n) \<le> 10" using n(1) by (intro show_nat_length) auto
  then show ?thesis by (subst int_text_tab) (simp add: n(2))
qed

lemma read_ints_ok:
  assumes "list_all P vs"
  shows "length (ints_text CHR 0x09 conv first vs) < left \<Longrightarrow>
    read_ints conv vs left first =
      Ok (ints_text CHR 0x09 conv first vs, left - length (ints_text CHR 0x09 conv first vs), first \<and> vs = [])"
  using assms
proof (induction vs arbitrary: left first)
  case (Cons v vs)
  let ?t = "int_text conv first v"
  have t: "ints_text CHR 0x09 conv first (v # vs) = ?t @ ints_text CHR 0x09 conv False vs" by (subst int_text_tab) simp
  have "length ?t + 1 \<le> TMPBUFLEN" using int_text_length [of v first] Cons.prems(2) by (simp add: TMPBUFLEN_def)
  moreover have "read_ints conv vs (left - length ?t) False =
      Ok (ints_text CHR 0x09 conv False vs, left - length ?t - length (ints_text CHR 0x09 conv False vs), False)"
    using Cons.IH [of False "left - length ?t"] Cons.prems unfolding t by simp
  ultimately show ?case using Cons.prems(1) unfolding t by (simp add: Let_def)
qed simp

lemma write_ints_ok:
  assumes "list_all P vs" "isspace sep" "list_all isspace e"
  shows "length olds = length vs \<Longrightarrow> int (length (ints_text sep conv first vs @ e)) < 18446744073709551616 \<Longrightarrow>
    left = word_of_nat (length (ints_text sep conv first vs @ e)) \<Longrightarrow>
    write_ints conv olds left (ints_text sep conv first vs @ e @ t) first = Ok (vs, word_of_nat (length e), e @ t, first \<and> vs = [])"
  using assms
proof (induction vs arbitrary: olds left first)
  case (Cons v vs)
  obtain old olds' where olds: "olds = old # olds'" using Cons.prems(1) by (cases olds) auto
  obtain n where n: "n < 2147483648" "int_text conv True v = show_nat n"
    "\<And>old. conv_write conv False (word_of_nat n) old = (0, v)" using int_text_ok [of v] Cons.prems(4) by auto
  obtain c cs where c: "show_nat n = c # cs" "isdigit c" using show_nat_digits [of n] by (cases "show_nat n") auto
  define r where "r = ints_text sep conv False vs @ e"
  have r: "r = [] \<or> isspace (hd r)" using Cons.prems(5,6) by (cases vs; cases e) (simp_all add: r_def)
  define left' :: u64 where "left' = word_of_nat (length (show_nat n @ r))"
  have small: "int (length (show_nat n @ r)) < 18446744073709551616" using Cons.prems(2) by (simp add: n(2) r_def split: if_splits)
  have body: "ints_text sep conv first (v # vs) @ e @ t = (if first then [] else [sep]) @ show_nat n @ r @ t" by (simp add: n(2) r_def)
  have pos: "left' \<noteq> 0" using unat_of_nat_u64 [of "length (show_nat n @ r)"] small c(1) unfolding left'_def by auto
  have left: "left = left' + (if first then 0 else 1)" by (simp add: Cons.prems(3) n(2) r_def left'_def)
  have nz: "left \<noteq> 0"
    using unat_of_nat_u64 [of "length (ints_text sep conv first (v # vs) @ e)"] Cons.prems(2) c(1) n(2) unfolding Cons.prems(3) by auto
  then have skip: "skip_blanks left (ints_text sep conv first (v # vs) @ e @ t) = Ok (left', show_nat n @ r @ t)"
    unfolding body left using c isdigit_not [OF c(2)] Cons.prems(5) by (cases first) simp_all
  have tok: "read_token left' (show_nat n @ r @ t) = Ok (Token False (word_of_nat n) (length (show_nat n)) left')"
    by (rule read_token_show [OF n(1) r left'_def small])
  have rec: "write_ints conv olds' (left' - word_of_nat (length (show_nat n))) (r @ t) False = Ok (vs, word_of_nat (length e), e @ t, False)"
    using Cons.IH [of olds' False "left' - word_of_nat (length (show_nat n))"] Cons.prems small
    by (simp add: olds r_def left'_def)
  show ?case using nz pos skip tok rec n(3) by (simp add: olds Let_def)
qed simp

lemma dointvec_write_ok:
  assumes "list_all P vs" "vs \<noteq> []" "isspace sep" "list_all isspace e"
    and "td_data table = Some a" "td_maxlen table div 4 = length vs" "length vs \<le> length (mem a)"
    and "int (length (ints_text sep conv True vs @ e)) < 18446744073709551616" "lenp = word_of_nat (length (ints_text sep conv True vs @ e))"
  shows "do_proc_dointvec conv table True (ints_text sep conv True vs @ e @ t) lenp ppos mem =
    Ok (0, lenp, ppos + uint lenp, [], mem(a := vs @ drop (length vs) (mem a)))"
proof -
  have k: "td_maxlen table \<noteq> 0" using assms(2,6) by (auto intro!: Nat.gr0I)
  obtain v vs' where vs: "vs = v # vs'" using assms(2) by (cases vs) auto
  obtain n where n: "int_text conv True v = show_nat n" using int_text_ok [of v] assms(1) vs by auto
  have "unat lenp = length (ints_text sep conv True vs @ e)" using assms(8) unfolding assms(9) by (intro unat_of_nat_u64) simp
  then have l: "lenp \<noteq> 0" using show_nat_digits [of n] by (auto simp: vs n)
  have "write_ints conv (take (length vs) (mem a)) lenp (ints_text sep conv True vs @ e @ t) True = Ok (vs, word_of_nat (length e), e @ t, False)"
    using write_ints_ok [OF assms(1,3,4), of "take (length vs) (mem a)" True lenp t] assms(2,7-9) by simp
  moreover have "skip_blanks (word_of_nat (length e)) (e @ t) = Ok (0, t)" using assms(4,8) by (intro skip_blanks_all) simp_all
  ultimately show ?thesis using k l assms(5-7) by (simp add: do_proc_dointvec_def Let_def)
qed

lemma dointvec_read_ok:
  assumes "list_all P vs" "vs \<noteq> []" "td_data table = Some a" "td_maxlen table div 4 = length vs" "take (length vs) (mem a) = vs"
    and "length (ints_text CHR 0x09 conv True vs) < unat lenp"
  shows "do_proc_dointvec conv table False buf lenp 0 mem =
    Ok (0, word_of_nat (length (ints_text CHR 0x09 conv True vs) + 1), int (length (ints_text CHR 0x09 conv True vs) + 1),
      ints_text CHR 0x09 conv True vs @ [CHR 0x0A], mem)"
proof -
  let ?n = "length (ints_text CHR 0x09 conv True vs)"
  have k: "td_maxlen table \<noteq> 0" using assms(2,4) by (auto intro!: Nat.gr0I)
  have le: "length vs \<le> length (mem a)" using arg_cong [OF assms(5), of length] by simp
  have r: "read_ints conv vs (unat lenp) True = Ok (ints_text CHR 0x09 conv True vs, unat lenp - ?n, False)"
    using read_ints_ok [OF assms(1,6)] assms(2) by simp
  have l: "lenp - word_of_nat (unat lenp - ?n - 1) = word_of_nat (?n + 1)"
    using assms(6) by (simp add: of_nat_diff)
  have "int (?n + 1) < 18446744073709551616" using assms(6) unat_u64_less [of lenp] by linarith
  then have "uint (word_of_nat (?n + 1) :: u64) = int (?n + 1)" using unat_of_nat_u64 [of "?n + 1"] by (metis of_nat_less_iff of_nat_numeral uint_nat)
  then show ?thesis using k assms(3-6) le r l by (auto simp: do_proc_dointvec_def Let_def)
qed

end

lemma read_conv_nonneg: "0 \<le> sint v \<Longrightarrow> read_conv v = (False, word_of_nat (unat v))"
  by (simp add: read_conv_def word_sless_alt scast_eq sint_nonneg)

lemma ucast_ucast_u32 [simp]: "ucast (ucast (v :: u32) :: u64) = v"
  by (rule bit_word_eqI) (simp add: bit_simps)

interpretation dointvec: int_conv do_proc_dointvec_conv "\<lambda>v. 0 \<le> sint v"
proof
  fix v old :: u32
  assume v: "0 \<le> sint v"
  then show "\<exists>n < 2147483648. conv_read do_proc_dointvec_conv v = (False, word_of_nat n)"
    using sint_nonneg(2) [OF v] unfolding do_proc_dointvec_conv_def by (auto simp: read_conv_nonneg simp del: of_nat_unat)
  show "conv_write do_proc_dointvec_conv False (snd (conv_read do_proc_dointvec_conv v)) old = (0, v)"
    using v by (simp add: do_proc_dointvec_conv_def read_conv_nonneg)
qed

lemma in_bounds_value:
  "(case mn of None \<Rightarrow> True | Some m \<Rightarrow> sint m \<le> sint v) \<Longrightarrow> (case mx of None \<Rightarrow> True | Some m \<Rightarrow> sint v \<le> sint m) \<Longrightarrow>
    conv_write (do_proc_dointvec_minmax_conv mn mx) False (ucast v) old = (0, v)"
  by (auto simp: do_proc_dointvec_minmax_conv_def word_sless_alt split: option.splits)

definition in_bounds :: "u32 option \<Rightarrow> u32 option \<Rightarrow> u32 \<Rightarrow> bool" where
  "in_bounds mn mx v \<longleftrightarrow> (case mn of None \<Rightarrow> True | Some m \<Rightarrow> sint m \<le> sint v) \<and> (case mx of None \<Rightarrow> True | Some m \<Rightarrow> sint v \<le> sint m)"

interpretation minmax: int_conv "do_proc_dointvec_minmax_conv mn mx" "\<lambda>v. 0 \<le> sint v \<and> in_bounds mn mx v"
proof
  fix v old :: u32
  assume v: "0 \<le> sint v \<and> in_bounds mn mx v"
  have r: "conv_read (do_proc_dointvec_minmax_conv mn mx) v = (False, word_of_nat (unat v))"
    unfolding do_proc_dointvec_minmax_conv_def using v by (simp add: read_conv_nonneg)
  then show "\<exists>n < 2147483648. conv_read (do_proc_dointvec_minmax_conv mn mx) v = (False, word_of_nat n)"
    using sint_nonneg(2) [of v] v by blast
  show "conv_write (do_proc_dointvec_minmax_conv mn mx) False (snd (conv_read (do_proc_dointvec_minmax_conv mn mx) v)) old = (0, v)"
    using v in_bounds_value [where mn = mn and mx = mx and v = v] by (simp add: r in_bounds_def)
qed

interpretation jiffies: int_conv do_proc_dointvec_jiffies_conv "\<lambda>v. 0 \<le> sint v \<and> 100 dvd unat v"
proof
  fix v old :: u32
  assume v: "0 \<le> sint v \<and> 100 dvd unat v"
  then obtain n where n: "unat v = 100 * n" by (auto elim: dvdE)
  have "unat v < 2147483648" using v sint_nonneg(2) by blast
  then have small: "n < 2147483648" "unat (word_of_nat (100 * n) :: u64) = 100 * n" "unat (word_of_nat n :: u64) = n"
    by (auto simp: n intro!: unat_of_nat_u64 simp del: of_nat_mult)
  have d: "word_of_nat (100 * n) div ucast HZ = (word_of_nat n :: u64)"
    by (rule word_unat_eq_iff [THEN iffD2]) (simp only: unat_div_distrib small, simp add: HZ_def)
  have r: "conv_read do_proc_dointvec_jiffies_conv v = (False, word_of_nat n)"
    unfolding do_proc_dointvec_jiffies_conv_def using v d by (simp add: read_conv_nonneg n)
  then show "\<exists>n < 2147483648. conv_read do_proc_dointvec_jiffies_conv v = (False, word_of_nat n)" using small(1) by blast
  have "word_of_nat n * ucast HZ = (word_of_nat (unat v) :: u64)" by (simp add: n HZ_def)
  then show "conv_write do_proc_dointvec_jiffies_conv False (snd (conv_read do_proc_dointvec_jiffies_conv v)) old = (0, v)"
    unfolding r by (simp add: do_proc_dointvec_jiffies_conv_def)
qed

section \<open>Writing and reading a sysctl file\<close>

lemma sint_small:
  assumes "int n < 9223372036854775808"
  shows "sint (word_of_nat n :: u64) = int n"
proof -
  have "n < 18446744073709551616" using assms by linarith
  then have "uint (word_of_nat n :: u64) = int n" by (metis unat_of_nat_u64 uint_nat)
  moreover have "signed_take_bit 63 (int n) = int n" using assms by (intro signed_take_bit_int_eq_self) simp_all
  moreover have "sint (w :: u64) = signed_take_bit 63 (uint w)" for w by (simp add: sint_uint)
  ultimately show ?thesis by (simp only:)
qed

lemma ints_text_sep_length: "length (ints_text sep conv first vs) = length (ints_text sep' conv first vs)"
  by (induction vs arbitrary: first) simp_all

lemma int_text_chars: "c \<noteq> CHR ''-'' \<Longrightarrow> \<not> isdigit c \<Longrightarrow> c \<notin> set (int_text conv True v)"
  using show_nat_digits by (auto simp: int_text_def split_beta list_all_iff)

lemma ints_text_chars: "c \<noteq> CHR ''-'' \<Longrightarrow> \<not> isdigit c \<Longrightarrow> c \<noteq> sep \<Longrightarrow> c \<notin> set (ints_text sep conv first vs)"
  by (induction vs arbitrary: first) (auto simp: int_text_chars)

text \<open>The file that registering a table with one entry creates.\<close>

lemma registered_file:
  assumes "proc_ok st" "proc_sys_root st = Some (pe_id d)" "walk dirs (proc_root st) = Some d" "name \<noteq> []"
    and "\<forall>c \<in> set (name # dirs). CHR ''/'' \<notin> set c"
    and "register_sysctl_table False sysops ops [Ctl (Some name) 0x1A4 (Some h) None None] st = Ok (r, st')"
  shows "find_proc_entry (proc_path (dirs @ [name])) st' =
    Ok (Some (Entry (proc_ids st) name (length name) 0x81A4 (sysops (Ctl (Some name) 0x1A4 (Some h) None None)) []))"
proof -
  let ?t = "Ctl (Some name) 0x1A4 (Some h) None None" and ?i = "proc_ids st"
  let ?e = "Entry ?i name (length name) 0x81A4 ops []"
  define st1 where "st1 = snd (create_proc_entry False ops name 0x81A4 (Some (pe_id d)) st)"
  have c: "create_proc_entry False ops name 0x81A4 (Some (pe_id d)) st = (Some ?i, st1)"
    unfolding st1_def using assms(4) by (simp add: create_in_dir)
  have ok: "proc_ok st1" by (rule proc_ok_created [OF c assms(1)])
  have w: "walk (dirs @ [name]) (proc_root st1) = Some ?e" by (rule proc_create_effect(1) [OF assms(1,3,4) c])
  have "walk (dirs @ [name]) (on_entry (pe_id ?e) (set_ops (sysops ?t)) (proc_root st1)) = Some (set_ops (sysops ?t) ?e)"
    by (rule walk_on_entry [OF _ _ w]) (use ok in \<open>auto simp: proc_ok_def set_ops_def split: proc_dir_entry.splits\<close>)
  moreover have "st' = st1\<lparr>proc_root := on_entry ?i (set_ops (sysops ?t)) (proc_root st1)\<rparr>"
    using assms(2,6) c by (simp add: register_sysctl_table_def make_table_entry_def S_IFREG_def S_IFDIR_def)
  ultimately show ?thesis using assms(5) by (simp add: find_proc_path set_ops_def)
qed

lemma sys_file_opens:
  assumes "find_proc_entry path st = Ok (Some (Entry i name l 0x81A4 (proc_sys_file_operations t) []))" "m \<in> {FMODE_READ, FMODE_WRITE}"
  shows "nfsim_proc_open path m st s lg = Ok (Some (Entry i name l 0x81A4 (proc_sys_file_operations t) []), s, lg)"
  using assms by (auto simp: nfsim_proc_open_def S_ISDIR_def S_IFMT_def S_IFDIR_def FMODE_READ_def FMODE_WRITE_def
      proc_sys_file_operations_def proc_opensys_def S_IWUSR_def)

lemma sys_file_close: "nfsim_proc_close (Entry i name l m (proc_sys_file_operations t) []) s = s"
  by (simp add: nfsim_proc_close_def proc_sys_file_operations_def)

context int_conv
begin

lemma write_cat_ok:
  assumes find: "find_proc_entry path st =
      Ok (Some (Entry i name l 0x81A4 (proc_sys_file_operations (Ctl pn 0x1A4 (Some (do_proc_dointvec conv table)) None None)) []))"
    and vs: "list_all P vs" "vs \<noteq> []" "td_data table = Some a" "td_maxlen table div 4 = length vs" "length vs \<le> length (mem a)"
    and argv: "join_args argv = ints_text CHR '' '' conv True vs" "length (join_args argv) + 3 \<le> PRINTK_BUFSIZ" and lg: "printk_buf lg = []"
  shows "nfsim_proc_write path argv st mem lg = Ok (True, mem(a := vs @ drop (length vs) (mem a)), lg)"
    and "nfsim_proc_cat path st (mem(a := vs @ drop (length vs) (mem a))) lg =
      Ok (True, mem(a := vs @ drop (length vs) (mem a)), (log_lines [(LOG_KERNEL, ints_text CHR 0x09 conv True vs)] lg)\<lparr>printk_buf := []\<rparr>)"
proof -
  let ?mem = "mem(a := vs @ drop (length vs) (mem a))" and ?txt = "ints_text CHR 0x09 conv True vs"
  have len: "length ?txt = length (join_args argv)" unfolding argv(1) by (rule ints_text_sep_length)
  have small: "int (length (join_args argv)) < 9223372036854775808" "int (length ?txt + 1) < 9223372036854775808" using argv(2) len unfolding PRINTK_BUFSIZ_def by linarith+
  have fits: "length ?txt < 16383" using argv(2) len by (simp add: PRINTK_BUFSIZ_def)
  have perm: "test_perm 0x1A4 2 = 0" "test_perm 0x1A4 4 = 0" by (simp_all add: test_perm_def)
  have "do_proc_dointvec conv table True (ints_text CHR '' '' conv True vs @ [] @ [CHR 0x00]) (word_of_nat (length (join_args argv))) 0 mem =
      Ok (0, word_of_nat (length (join_args argv)), 0 + uint (word_of_nat (length (join_args argv)) :: u64), [], ?mem)"
    by (rule dointvec_write_ok [OF vs(1,2)]) (use vs(3-5) argv small in \<open>auto simp: isspace_def\<close>)
  then show "nfsim_proc_write path argv st mem lg = Ok (True, ?mem, lg)"
    using sint_small [OF small(1)]
    by (simp add: nfsim_proc_write_def sys_file_opens [OF find] sys_file_close)
      (simp add: proc_sys_file_operations_def do_rw_proc_def perm argv(1))
  have "unat (word_of_nat 16383 :: u64) = 16383" by simp
  then have "do_proc_dointvec conv table False [] (word_of_nat 16383) 0 ?mem =
      Ok (0, word_of_nat (length ?txt + 1), int (length ?txt + 1), ?txt @ [CHR 0x0A], ?mem)"
    using fits by (intro dointvec_read_ok [OF vs(1-4)]) simp_all
  moreover have "takeWhile (\<lambda>c. c \<noteq> CHR 0x00) (?txt @ [CHR 0x0A]) = ?txt @ [CHR 0x0A]"
    using ints_text_chars [of "CHR 0x00" "CHR 0x09" conv True vs] by (subst takeWhile_eq_all_conv) (auto simp: isdigit_def)
  moreover have "printk (?txt @ [CHR 0x0A]) lg = (log_lines [(LOG_KERNEL, ?txt)] lg)\<lparr>printk_buf := []\<rparr>"
    using argv(2) len by (intro printk_line [OF lg] ints_text_chars) (simp_all add: isdigit_def)
  ultimately show "nfsim_proc_cat path st ?mem lg = Ok (True, ?mem, (log_lines [(LOG_KERNEL, ?txt)] lg)\<lparr>printk_buf := []\<rparr>)"
    using sint_small [OF small(2)]
    by (simp add: nfsim_proc_cat_def sys_file_opens [OF find] sys_file_close)
      (simp add: proc_sys_file_operations_def do_rw_proc_def perm)
qed

end

text \<open>The three kinds of integer variables with the values whose text is read back: a number of jiffies is written in seconds.\<close>

definition int_files :: "int_table \<Rightarrow> (int_memory proc_handler \<times> conv \<times> (u32 \<Rightarrow> bool)) set" where
  "int_files table =
     {(proc_dointvec table, do_proc_dointvec_conv, \<lambda>v. 0 \<le> sint v),
      (proc_dointvec_jiffies table, do_proc_dointvec_jiffies_conv, \<lambda>v. 0 \<le> sint v \<and> 100 dvd unat v),
      (proc_dointvec_minmax table, do_proc_dointvec_minmax_conv (td_min table) (td_max table), \<lambda>v. 0 \<le> sint v \<and> in_bounds (td_min table) (td_max table) v)}"

lemma int_files_conv: "(h, conv, P) \<in> int_files table \<Longrightarrow> int_conv conv P \<and> h = do_proc_dointvec conv table"
  using dointvec.int_conv_axioms jiffies.int_conv_axioms minmax.int_conv_axioms
  by (auto simp: int_files_def proc_dointvec_def proc_dointvec_jiffies_def proc_dointvec_minmax_def)

text \<open>
  C17. The whole way of a sysctl variable: a table registers a file for a vector of integers; \<^verbatim>\<open>proc write\<close> with non-negative
  numbers (in seconds for a time, within the bounds of a bounded variable) stores exactly them, and \<^verbatim>\<open>proc cat\<close> of the file
  then prints one line of the kernel's log with them, separated by tabs, and changes no variable. The text must fit the buffer of
  \<open>printk\<close>, 4093 characters, which must be empty before (\<open>printk_too_long\<close> and \<open>printk_stuck\<close> show what happens otherwise).
\<close>

theorem sysctl_write_cat:
  assumes "proc_ok st" "proc_sys_root st = Some (pe_id d)" "walk dirs (proc_root st) = Some d" "name \<noteq> []"
    and "\<forall>c \<in> set (name # dirs). CHR ''/'' \<notin> set c" "(h, conv, P) \<in> int_files table"
    and "register_sysctl_table False proc_sys_file_operations ops [Ctl (Some name) 0x1A4 (Some h) None None] st = Ok (r, st')"
    and "list_all P vs" "vs \<noteq> []" "td_data table = Some a" "td_maxlen table div 4 = length vs" "length vs \<le> length (mem a)"
    and "join_args argv = ints_text CHR '' '' conv True vs" "length (join_args argv) + 3 \<le> PRINTK_BUFSIZ" "printk_buf lg = []"
  shows "nfsim_proc_write (proc_path (dirs @ [name])) argv st' mem lg = Ok (True, mem(a := vs @ drop (length vs) (mem a)), lg) \<and>
    nfsim_proc_cat (proc_path (dirs @ [name])) st' (mem(a := vs @ drop (length vs) (mem a))) lg =
      Ok (True, mem(a := vs @ drop (length vs) (mem a)), (log_lines [(LOG_KERNEL, ints_text CHR 0x09 conv True vs)] lg)\<lparr>printk_buf := []\<rparr>)"
proof -
  have h: "int_conv conv P" "h = do_proc_dointvec conv table" using int_files_conv [OF assms(6)] by simp_all
  note f = registered_file [OF assms(1-5,7)]
  show ?thesis using int_conv.write_cat_ok [OF h(1) f [unfolded h(2)] assms(8-11), where mem = mem, OF assms(12-15)] by simp
qed

theorem sysctl_write_cat_witness:
  "\<exists>st'. nfsim_proc_write ''/proc/sys/x'' [''5'', ''7''] st' ((\<lambda>_. [1, 2, 3]) :: int_memory)
      \<lparr>expects = [], cmdstack = [], typemask = - 1, logged = [], printk_buf = [], describe_packets = True\<rparr> =
      Ok (True, (\<lambda>_. [1, 2, 3])(9 := [5, 7, 3]), \<lparr>expects = [], cmdstack = [], typemask = - 1, logged = [], printk_buf = [], describe_packets = True\<rparr>) \<and>
    nfsim_proc_cat ''/proc/sys/x'' st' ((\<lambda>_. [1, 2, 3])(9 := [5, 7, 3]))
      \<lparr>expects = [], cmdstack = [], typemask = - 1, logged = [], printk_buf = [], describe_packets = True\<rparr> =
      Ok (True, (\<lambda>_. [1, 2, 3])(9 := [5, 7, 3]),
        \<lparr>expects = [], cmdstack = [], typemask = - 1, logged = [''5'' @ CHR 0x09 # ''7''], printk_buf = [], describe_packets = True\<rparr>)"
proof -
  let ?ops = "\<lparr>f_open = None, f_read = (\<lambda>n p s. Ok (0, [], s)), f_write = (\<lambda>str p s. Ok (0, s)), f_release = None\<rparr> :: int_memory file_operations"
  let ?st = "proc_init (\<lambda>_. False) ?ops"
  let ?table = "\<lparr>td_data = Some 9, td_maxlen = 8, td_min = Some 0, td_max = Some 10\<rparr>"
  let ?d = "Entry 3 ''sys'' 3 0x416D ?ops []"
  have st: "proc_sys_root ?st = Some (pe_id ?d)" "walk [''sys''] (proc_root ?st) = Some ?d"
    by (simp_all add: proc_init_def proc_mkdir_def create_proc_entry_def proc_create_def xlate_proc_name_def proc_register_def Let_def
        S_IFDIR_def S_IRUGO_def S_IXUGO_def proc_match_def)
  obtain st' where reg: "register_sysctl_table False proc_sys_file_operations ?ops [Ctl (Some ''x'') 0x1A4 (Some (proc_dointvec_minmax ?table)) None None] ?st
      = Ok (Some [Ctl (Some ''x'') 0x1A4 (Some (proc_dointvec_minmax ?table)) None (Some (proc_ids ?st))], st')"
    using st(1) by (simp add: register_sysctl_table_def make_table_entry_def create_in_dir S_IFREG_def S_IFDIR_def)
  have t: "ints_text sep (do_proc_dointvec_minmax_conv (Some 0) (Some 10)) True [5, 7] = ''5'' @ sep # ''7''" for sep
    by (simp add: int_text_def do_proc_dointvec_minmax_conv_def read_conv_def word_sless_alt show_nat.simps digit_chars)
  have h: "(proc_dointvec_minmax ?table, do_proc_dointvec_minmax_conv (Some 0) (Some 10), \<lambda>v. 0 \<le> sint v \<and> in_bounds (Some 0) (Some 10) v) \<in> int_files ?table"
    by (simp add: int_files_def)
  show ?thesis
    using sysctl_write_cat [OF proc_ok_init st _ _ h reg, of "[5, 7]" 9 "\<lambda>_. [1, 2, 3]" "[''5'', ''7'']"
        "\<lparr>expects = [], cmdstack = [], typemask = - 1, logged = [], printk_buf = [], describe_packets = True\<rparr>"]
    by (auto simp: in_bounds_def t proc_path_def PRINTK_BUFSIZ_def log_lines_def nfsim_log_def expect_log_hook_def LOG_KERNEL_def simp del: ints_text.simps)
qed

section \<open>Bounds are enforced for every text\<close>

lemma minmax_write:
  "conv_write (do_proc_dointvec_minmax_conv mn mx) neg lval old = (err, v) \<Longrightarrow> (err = 0 \<longrightarrow> in_bounds mn mx v) \<and> (err \<noteq> 0 \<longrightarrow> v = old)"
  by (auto simp: do_proc_dointvec_minmax_conv_def in_bounds_def Let_def EINVAL_def word_sless_alt split: if_splits option.splits)

lemma write_ints_step:
  assumes "write_ints conv (v # olds) left s first = Ok (vs, left', s', first')"
  obtains (stop) "vs = v # olds" "first' = first"
  | (refused) neg lval err w where "conv_write conv neg lval v = (err, w)" "err \<noteq> 0" "vs = w # olds" "first' = first"
  | (stored) neg lval w l1 s1 ws where "conv_write conv neg lval v = (0, w)" "vs = w # ws"
      "write_ints conv olds l1 s1 False = Ok (ws, left', s', first')"
proof (cases "left = 0")
  case False
  then obtain l0 s0 where s0: "skip_blanks left s = Ok (l0, s0)" using assms by (cases "skip_blanks left s") auto
  show ?thesis
  proof (cases "l0 = 0")
    case l0: False
    then obtain tok where tok: "read_token l0 s0 = Ok tok" using assms False s0 by (cases "read_token l0 s0") auto
    show ?thesis
    proof (cases tok)
      case (Token neg lval len l)
      obtain err w where w: "conv_write conv neg lval v = (err, w)" by fastforce
      then show ?thesis
        using assms False s0 l0 tok Token refused stored by (cases "err = 0") (auto simp: bind_outcome_Ok_iff Let_def)
    qed (use assms False s0 l0 tok stop in simp)
  qed (use assms False s0 stop in simp)
qed (use assms stop in simp)

lemma write_ints_first: "write_ints conv olds left s False = Ok (vs, left', s', first') \<Longrightarrow> \<not> first'"
proof (induction olds arbitrary: left s vs left' s' first')
  case (Cons v olds)
  from Cons.prems show ?case by (cases rule: write_ints_step) (auto dest: Cons.IH)
qed simp

lemma write_ints_bounds:
  "write_ints (do_proc_dointvec_minmax_conv mn mx) olds left s first = Ok (vs, left', s', first') \<Longrightarrow>
    length vs = length olds \<and> (\<forall>i < length olds. vs ! i = olds ! i \<or> in_bounds mn mx (vs ! i)) \<and> (first' \<longrightarrow> vs = olds)"
proof (induction olds arbitrary: left s first vs left' s' first')
  case (Cons v olds)
  from Cons.prems show ?case
  proof (cases rule: write_ints_step)
    case (refused neg lval err w)
    then show ?thesis using minmax_write [OF refused(1)] by auto
  next
    case (stored neg lval w l1 s1 ws)
    then show ?thesis
      using minmax_write [OF stored(1)] Cons.IH [OF stored(3)] write_ints_first [OF stored(3)] by (auto simp: nth_Cons split: nat.splits)
  qed simp
qed simp

text \<open>
  C35. Whatever text is written to a bounded variable, however malformed: if the call ends, every integer of the vector is either as
  before or within the bounds, nothing else in memory changes, the vector keeps its length, and after an error nothing has changed
  at all.
\<close>

theorem minmax_keeps_bounds:
  assumes "proc_dointvec_minmax table write buffer lenp ppos mem = Ok (ret, lenp', ppos', out, mem')"
  shows "(\<forall>b. td_data table \<noteq> Some b \<longrightarrow> mem' b = mem b) \<and>
    (\<forall>a. length (mem' a) = length (mem a) \<and>
      (\<forall>i < length (mem a). mem' a ! i = mem a ! i \<or> in_bounds (td_min table) (td_max table) (mem' a ! i))) \<and>
    (ret \<noteq> 0 \<longrightarrow> mem' = mem)"
proof (cases "mem' = mem")
  case False
  let ?c = "do_proc_dointvec_minmax_conv (td_min table) (td_max table)"
  from assms False obtain a left' s' vs first where a: "td_data table = Some a"
    and vs: "write_ints ?c (take (td_maxlen table div 4) (mem a)) lenp buffer True = Ok (vs, left', s', first)"
    and ret: "first \<longleftrightarrow> ret \<noteq> 0" and mem': "mem' = mem(a := vs @ drop (td_maxlen table div 4) (mem a))"
    by (auto simp: proc_dointvec_minmax_def do_proc_dointvec_def Let_def bind_outcome_Ok_iff EINVAL_def split: option.splits if_splits)
  let ?k = "td_maxlen table div 4"
  note b = write_ints_bounds [OF vs]
  have "ret = 0" using b ret mem' False by (metis append_take_drop_id fun_upd_triv)
  moreover have "length (vs @ drop ?k (mem a)) = length (mem a)" using b by simp
  moreover have "mem' a ! i = mem a ! i \<or> in_bounds (td_min table) (td_max table) (mem' a ! i)" if "i < length (mem a)" for i
    using b that by (cases "i < length vs") (auto simp: mem' nth_append)
  ultimately show ?thesis using a by (auto simp: mem')
qed simp

theorem minmax_keeps_bounds_witness:
  "\<exists>mem'. proc_dointvec_minmax \<lparr>td_data = Some 1, td_maxlen = 8, td_min = Some 3, td_max = Some 9\<rparr> True (''5 x'' @ [CHR 0x00]) 3 0 (\<lambda>_. [4, 5])
      = Ok (0, 2, 2, [], mem') \<and> mem' 2 = [4, 5] \<and> (\<forall>i < 2. mem' 1 ! i = [4, 5] ! i \<or> in_bounds (Some 3) (Some 9) (mem' 1 ! i))"
proof -
  let ?table = "\<lparr>td_data = Some 1, td_maxlen = 8, td_min = Some 3, td_max = Some 9\<rparr>"
  have "case proc_dointvec_minmax ?table True (''5 x'' @ [CHR 0x00]) 3 0 (\<lambda>_. [4, 5]) of
      Ok (ret, lenp, ppos, out, mem') \<Rightarrow> ret = 0 \<and> lenp = 2 \<and> ppos = 2 \<and> out = [] | Barf _ \<Rightarrow> False"
    by code_simp
  then obtain mem' where m: "proc_dointvec_minmax ?table True (''5 x'' @ [CHR 0x00]) 3 0 (\<lambda>_. [4, 5]) = Ok (0, 2, 2, [], mem')"
    by (cases "proc_dointvec_minmax ?table True (''5 x'' @ [CHR 0x00]) 3 0 (\<lambda>_. [4, 5])") auto
  have "mem' 2 = [4, 5] \<and> (\<forall>i < 2. mem' 1 ! i = [4, 5] ! i \<or> in_bounds (Some 3) (Some 9) (mem' 1 ! i))"
    using minmax_keeps_bounds [OF m] by auto
  then show ?thesis using m by blast
qed

section \<open>Where the text is misread\<close>

text \<open>
  The sign of a number is counted twice: after two negative numbers the third one is not stored, although the call succeeds. The text
  of the smallest integer does not fit into the buffer.
\<close>

lemma negative_numbers_lost:
  "write_ints do_proc_dointvec_conv [1, 2, 3] 8 (''-5 -7 -9'' @ [CHR 0x00]) True = Ok ([-5, -7, 3], 0, ''-9'' @ [CHR 0x00], False)"
  by code_simp

lemma smallest_integer_overflows:
  "read_ints do_proc_dointvec_conv [0x80000000] 100 True = Barf ''write past the end of the buffer''"
proof -
  have "length (show_nat 18446744071562067968) = 20" by (simp add: show_nat.simps)
  then show ?thesis by (simp add: int_text_def do_proc_dointvec_conv_def read_conv_def word_sless_alt TMPBUFLEN_def)
qed

end
