(* ===== verification/Describe.thy ===== *)
theory Describe
  imports Gen_Send
begin

text \<open>
  The description of a packet in the log, \<open>describe\<close> and \<open>ipv4_describe_packet\<close> of core/ipv4/ipv4.c. A description of a generated
  packet is shown to be the command line that generates it.
\<close>

section \<open>Text\<close>

fun show_hex :: "nat \<Rightarrow> string" where
  "show_hex n = (if n < 16 then [hexbuf ! n] else show_hex (n div 16) @ [hexbuf ! (n mod 16)])"

declare show_hex.simps [simp del]

text \<open>\<^verbatim>\<open>%04x\<close> of a 16-bit value.\<close>

definition show_hex4 :: "u16 \<Rightarrow> string" where
  "show_hex4 w = (let s = show_hex (unat w) in replicate (4 - length s) CHR ''0'' @ s)"

text \<open>An \<^verbatim>\<open>int\<close> or \<^verbatim>\<open>size_t\<close> printed with \<^verbatim>\<open>%u\<close> or \<^verbatim>\<open>%Zu\<close>.\<close>

definition show_u :: "int \<Rightarrow> string" where
  "show_u n = show_nat (nat (n mod 4294967296))"

definition show_Zu :: "int \<Rightarrow> string" where
  "show_Zu n = show_nat (nat (n mod 18446744073709551616))"

text \<open>The same for machine words, with \<^verbatim>\<open>%i\<close> and \<^verbatim>\<open>%u\<close>.\<close>

definition show_uint :: "u32 \<Rightarrow> string" where
  "show_uint w = show_nat (unat w)"

definition print_data :: "u8 list \<Rightarrow> string" where
  "print_data bs = ''DATA '' @ escape (map (\<lambda>b. char_of (unat b)) bs)"

text \<open>Four bytes in network order; \<open>be16\<close> reads two.\<close>

definition be32 :: "nat \<Rightarrow> u8 list \<Rightarrow> nat" where
  "be32 i bs = be16 i bs * 65536 + be16 (i + 2) bs"

definition le16 :: "nat \<Rightarrow> u8 list \<Rightarrow> u16" where
  "le16 i bs = word_of_nat (unat (bs ! i) + 256 * unat (bs ! (i + 1)))"

definition addr_at :: "nat \<Rightarrow> u8 list \<Rightarrow> u32" where
  "addr_at i bs = word_of_nat (val32 (bs ! i) (bs ! (i + 1)) (bs ! (i + 2)) (bs ! (i + 3)))"

definition quad :: "nat \<Rightarrow> u8 list \<Rightarrow> string" where
  "quad i bs =
     show_nat (unat (bs ! i)) @ CHR ''.'' # show_nat (unat (bs ! (i + 1))) @ CHR ''.'' # show_nat (unat (bs ! (i + 2))) @
     CHR ''.'' # show_nat (unat (bs ! (i + 3)))"

definition has_flag :: "string option \<Rightarrow> string \<Rightarrow> bool" where
  "has_flag dflags f = (case dflags of None \<Rightarrow> False | Some s \<Rightarrow> strstr s f \<noteq> None)"

section \<open>The description\<close>

text \<open>
  \<open>bs\<close> is the memory from the IP header on. The description is appended to \<open>t\<close>, the text in the buffer so far. At the label
  \<^verbatim>\<open>out\<close> a blank at the end is removed; the two first messages are written behind the pointer without advancing it, so
  that they are lost when a blank is in front, as it always is for a packet in an ICMP error.
\<close>

definition out_trim :: "string \<Rightarrow> string" where
  "out_trim t = (if t \<noteq> [] \<and> last t = CHR '' '' then butlast t else t)"

definition out_unadvanced :: "string \<Rightarrow> string \<Rightarrow> string" where
  "out_unadvanced t msg = (if t \<noteq> [] \<and> last t = CHR '' '' then butlast t else t @ msg)"

text \<open>The part in front of the protocol; \<open>fo\<close> is the field with the fragment offset and the flags.\<close>

definition ip_text :: "u8 list \<Rightarrow> string option \<Rightarrow> string" where
  "ip_text bs dflags =
     (let fo = be16 6 bs; ts = unat (bs ! 1) in
      (if fo mod 8192 \<noteq> 0 then ''FRAG='' @ show_nat (fo mod 8192 * 8) @ '' '' else []) @
      (if fo div 16384 mod 2 = 1 then ''DF '' else []) @
      (if fo div 8192 mod 2 = 1 then ''MF '' else []) @
      (if fo div 32768 mod 2 = 1 then ''CE '' else []) @
      (if has_flag dflags ''ttl'' then ''TTL='' @ show_nat (unat (bs ! 8)) @ '' '' else []) @
      (if has_flag dflags ''tos'' then ''TOS='' @ show_nat ts @ '' '' else []) @
      (if has_flag dflags ''dscp'' then ''DSCP=0x'' @ show_hex (ts div 4) @ '' '' else []) @
      (if has_flag dflags ''ect'' then ''ECT=0x'' @ show_hex (ts mod 4) @ '' '' else []) @
      quad 12 bs @ '' '' @ quad 16 bs @ '' '')"

text \<open>The bytes of the transport header and data that the checksum covers; none if the length is not positive.\<close>

definition segment :: "int \<Rightarrow> u8 list \<Rightarrow> u8 list" where
  "segment iplen p = take (nat iplen) p"

definition udp_text :: "u8 list \<Rightarrow> int \<Rightarrow> int \<Rightarrow> bool \<Rightarrow> string option \<Rightarrow> string \<Rightarrow> string outcome" where
  "udp_text bs len iplen mfrag dflags t =
     (let p = drop 20 bs;
          t = t @ show_Zu (iplen - 8) @ '' '' @ show_nat (unat (bs ! 9)) @ '' ''
      in if 0 \<le> len \<and> len < 8 then Ok (t @ ''-TRUNCATED-'')
         else if length p < 8 \<or> length p < nat iplen \<and> iplen \<le> len then Barf ''read past the end of the packet''
         else
           let t = t @ show_nat (be16 0 p) @ '' '' @ show_nat (be16 2 p) @ '' '' in
           if len < iplen then Ok (t @ ''-TRUNCATED-'')
           else if \<not> mfrag \<and> le16 6 p \<noteq> 0 \<and>
                   csum_tcpudp_magic (addr_at 12 bs) (addr_at 16 bs) (word_of_int iplen) IPPROTO_UDP (csum_partial 0 (segment iplen p) 0) \<noteq> 0
                then Ok (t @ ''-BAD UDP CSUM- ('' @ show_hex4 (le16 6 p) @ '')'')
                else Ok (if has_flag dflags ''data'' then t @ print_data (drop 8 (segment iplen p)) else t))"

definition tcp_flag_names :: "(string \<times> u8) list" where
  "tcp_flag_names = [(''SYN'', 0x02), (''FIN'', 0x01), (''RST'', 0x04), (''ACK'', 0x10), (''URG'', 0x20), (''PSH'', 0x08),
     (''CWR'', 0x80), (''ECE'', 0x40)]"

definition flags_text :: "u8 \<Rightarrow> string" where
  "flags_text f =
     (let t = foldl (\<lambda>t (name, b). if f AND b \<noteq> 0 then t @ (if t = [] then [] else ''/'') @ name else t) [] tcp_flag_names
      in if t = [] then ''NONE'' else t)"

fun opt_text :: "char \<Rightarrow> u8 list \<Rightarrow> string" where
  "opt_text sep [] = []"
| "opt_text sep (b # bs) = sep # show_nat (unat b) @ opt_text CHR '','' bs"

definition tcp_text :: "u8 list \<Rightarrow> int \<Rightarrow> int \<Rightarrow> bool \<Rightarrow> string option \<Rightarrow> string \<Rightarrow> string outcome" where
  "tcp_text bs len iplen mfrag dflags t =
     (let p = drop 20 bs; proto = show_nat (unat (bs ! 9)) in
      if 0 \<le> len \<and> len < 20 then Ok (t @ show_Zu (iplen - 20) @ '' '' @ proto @ '' -TRUNCATED-'')
      else if length p < 20 \<or> length p < nat iplen \<and> iplen \<le> len then Barf ''read past the end of the packet''
      else
        let doff = unat (drop_bit 4 (p ! 12)) * 4;
            t = t @ show_u (iplen - int doff) @ '' '' @ proto @ '' '' @ show_nat (be16 0 p) @ '' '' @ show_nat (be16 2 p) @ '' ''
        in if len < iplen then Ok (t @ ''-TRUNCATED-'')
           else if length p < doff then Barf ''read past the end of the packet''
           else
             let t = t @ flags_text (p ! 13) @ '' '' @
                   (if be32 4 p \<noteq> 0 then ''SEQ='' @ show_nat (be32 4 p) @ '' '' else []) @
                   (if be32 8 p \<noteq> 0 then ''ACK='' @ show_nat (be32 8 p) @ '' '' else []) @
                   (if be16 14 p \<noteq> 0 then ''WIN='' @ show_nat (be16 14 p) @ '' '' else []) @
                   (if doff \<noteq> 20 then ''OPT'' @ opt_text CHR ''='' (drop 20 (take doff p)) @ '' '' else [])
             in if \<not> mfrag \<and>
                   csum_tcpudp_magic (addr_at 12 bs) (addr_at 16 bs) (word_of_int iplen) IPPROTO_TCP (csum_partial 0 (segment iplen p) 0) \<noteq> 0
                then Ok (t @ ''-BAD TCP CSUM- ('' @ show_hex4 (le16 16 p) @ '')'')
                else Ok (if has_flag dflags ''data'' then t @ print_data (drop doff (segment iplen p)) else t))"

text \<open>
  Comparisons with \<^verbatim>\<open>sizeof\<close> are unsigned, so that a negative length is not less. The packet quoted in an ICMP error starts 28
  bytes further, and its length is what the outer header says.
\<close>

function describe :: "string \<Rightarrow> int \<Rightarrow> u8 list \<Rightarrow> string option \<Rightarrow> string outcome" where
  "describe t len bs dflags =
     (if 0 \<le> len \<and> len < 20 then Ok (out_unadvanced t ''-TRUNCATED-'')
      else if length bs < 20 then Barf ''read past the end of the packet''
      else if csum_partial 0 (take 20 bs) 0 \<noteq> 0xFFFF then Ok (out_unadvanced t ''-BAD IP CSUM-'')
      else
        let t = t @ ip_text bs dflags;
            fo = be16 6 bs;
            mfrag = (fo div 8192 mod 2 = 1);
            iplen = int (be16 2 bs) - 20;
            len = len - 20;
            proto = bs ! 9
        in if fo mod 8192 \<noteq> 0 then Ok (out_trim t)
           else if proto = IPPROTO_ICMP then
             let p = drop 20 bs;
                 t = t @ show_Zu (iplen - 8) @ '' '' @ show_nat (unat proto) @ '' ''
             in if 0 \<le> len \<and> len < 8 then Ok (t @ ''-TRUNCATED-'')
                else if length p < 8 \<or> length p < nat iplen \<and> iplen \<le> len then Barf ''read past the end of the packet''
                else
                  let t = t @ show_nat (unat (p ! 0)) @ '' '' @ show_nat (unat (p ! 1)) @ '' '' in
                  if len < iplen then Ok (t @ ''-TRUNCATED-'')
                  else if \<not> mfrag \<and> csum_partial 0 (segment iplen p) 0 \<noteq> 0xFFFF then Ok (t @ ''-BAD ICMP CSUM-'')
                  else if p ! 0 = 0 \<or> p ! 0 = 8 then Ok (out_trim (t @ show_nat (be16 4 p) @ '' '' @ show_nat (be16 6 p) @ '' ''))
                  else bind_outcome (describe (t @ ''CONTAINS '') (iplen - 8) (drop 28 bs) dflags) (\<lambda>t. Ok (out_trim t))
           else if proto = IPPROTO_UDP then bind_outcome (udp_text bs len iplen mfrag dflags t) (\<lambda>t. Ok (out_trim t))
           else if proto = IPPROTO_TCP then bind_outcome (tcp_text bs len iplen mfrag dflags t) (\<lambda>t. Ok (out_trim t))
           else
             let t = t @ show_u iplen @ '' '' @ show_nat (unat proto) in
             Ok (if len < iplen then t @ ''-TRUNCATED-'' else t))"
  by pat_completeness auto
termination
  by (relation "measure (\<lambda>(_, _, bs, _). length bs)") auto

declare describe.simps [simp del]

text \<open>The buffer holds 1024 bytes.\<close>

definition ipv4_describe_packet :: "sk_buff \<Rightarrow> string outcome" where
  "ipv4_describe_packet skb =
     bind_outcome (skb_copy_bits skb 0 (slen skb)) (\<lambda>(ret, packet).
       if ret \<noteq> 0 then Barf ''skb_copy_bits failed''
       else
         bind_outcome (describe [] (int (slen skb)) packet (dump_flags (meta skb))) (\<lambda>t.
           if int (length t) \<ge> 1024 then Barf ''write past the end of the buffer'' else Ok t))"

text \<open>core/core.c puts the mark in front; its buffer has the same size. \<open>log_describes\<close> is \<^verbatim>\<open>log_describe_packets()\<close>.\<close>

definition describe_packet :: "bool \<Rightarrow> sk_buff \<Rightarrow> string outcome" where
  "describe_packet log_describes skb =
     (if \<not> log_describes then Ok []
      else
        bind_outcome (ipv4_describe_packet skb) (\<lambda>t.
          let t = (if nfmark (meta skb) \<noteq> 0 then '' MARK '' @ show_nat (unat (nfmark (meta skb))) else []) @ '' {IPv4 '' @ t @ ''}''
          in if int (length t) \<ge> 1024 then Barf ''write past the end of the buffer'' else Ok t))"

text \<open>The line that \<open>nf_send\<close> logs for a packet that leaves through the interface \<open>name\<close>.\<close>

definition send_line :: "string \<Rightarrow> string \<Rightarrow> string" where
  "send_line name descr = ''send:'' @ name @ descr"

section \<open>The command line of a packet\<close>

definition dotted :: "u32 \<Rightarrow> string" where
  "dotted a = quad 0 (bytes32 a)"

lemma four_digits: "n mod 256 + 256 * (n div 256 mod 256) + (65536 * (n div 65536 mod 256) + 16777216 * (n div 16777216)) = (n :: nat)"
proof -
  have d: "n div 65536 = n div 256 div 256" "n div 16777216 = n div 256 div 256 div 256" by (simp_all add: div_mult2_eq [symmetric])
  have "n = n mod 256 + 256 * (n div 256)" "n div 256 = n div 256 mod 256 + 256 * (n div 256 div 256)"
    "n div 256 div 256 = n div 256 div 256 mod 256 + 256 * (n div 256 div 256 div 256)" by simp_all
  then show ?thesis unfolding d by linarith
qed

lemma val32_bytes32: "val32 (ucast a) (ucast (drop_bit 8 a)) (ucast (drop_bit 16 a)) (ucast (drop_bit 24 a)) = unat (a :: u32)"
proof -
  have "unat (ucast (drop_bit k a) :: u8) = unat a div 2 ^ k mod 256" for k
    using unat_u32_less [of a] by (simp add: unsigned_ucast_eq take_bit_eq_mod unsigned_drop_bit_eq) (simp add: drop_bit_eq_div)
  from this [of 0] this [of 8] this [of 16] this [of 24] show ?thesis
    using unat_u32_less [of a] four_digits [of "unat a"] by (simp add: val32_def val16_def)
qed

lemma addr_at_bytes32:
  assumes "i + 4 \<le> length bs" "take 4 (drop i bs) = bytes32 a"
  shows "addr_at i bs = a"
proof -
  have "bs ! (i + k) = bytes32 a ! k" if "k < 4" for k
    using that assms by (metis nth_drop nth_take add_leD1)
  from this [of 0] this [of 1] this [of 2] this [of 3] show ?thesis
    by (simp add: addr_at_def bytes32_def val32_bytes32 numeral_2_eq_2 numeral_3_eq_3)
qed

lemma number_show: "n \<le> 65535 \<Longrightarrow> k \<le> 65535 \<Longrightarrow> n \<le> k \<Longrightarrow> string_to_number (show_nat n) 0 (word_of_nat k) = word_of_nat n"
  by (subst string_to_number_show) (auto simp: word_le_nat_alt unsigned_of_nat take_bit_eq_mod)

lemma small_not_minus_one: "n \<le> 65535 \<Longrightarrow> (word_of_nat n :: u32) \<noteq> - 1"
proof
  assume "n \<le> 65535" "(word_of_nat n :: u32) = - 1"
  then have "unat (word_of_nat n :: u32) = unat (- 1 :: u32)" by simp
  then show False using \<open>n \<le> 65535\<close> by (simp add: unsigned_of_nat take_bit_eq_mod unsigned_minus_1_eq_mask mask_eq_exp_minus_1)
qed

lemma show_nat_no_dot: "CHR ''.'' \<notin> set (show_nat n)"
proof
  assume "CHR ''.'' \<in> set (show_nat n)"
  then have "isdigit CHR ''.''" using show_nat_digits [of n] unfolding list_all_iff by blast
  then show False by (simp add: isdigit_def)
qed

lemma takeWhile_dot: "takeWhile (\<lambda>c. c \<noteq> CHR ''.'') (show_nat n @ CHR ''.'' # r) = show_nat n"
  using show_nat_no_dot [of n] by (subst takeWhile_append2) auto

lemma byte_number: "string_to_number (show_nat (unat (b :: u8))) 0 255 = word_of_nat (unat b)" "word_of_nat (unat b) \<noteq> (- 1 :: u32)"
  using number_show [of "unat b" 255] small_not_minus_one [of "unat b"] unat_u8_less [of b] by simp_all

lemma dotted_bytes_step:
  "dotted_bytes (Suc k) (show_nat (unat (b :: u8)) @ CHR ''.'' # r) = map_option (\<lambda>l. word_of_nat (unat b) # l) (dotted_bytes k r)"
  using byte_number [of b] by (simp add: takeWhile_dot Let_def)

lemma show_byte_length: "length (show_nat (unat (b :: u8))) \<le> 3"
  using show_nat_length [of "unat b" 3] unat_u8_less [of b] by simp

lemma dotted_to_addr_dotted: "dotted_to_addr (dotted a) = Done a"
proof -
  let ?b = "\<lambda>k. ucast (drop_bit k a) :: u8"
  have d: "dotted a = show_nat (unat (?b 0)) @ CHR ''.'' # show_nat (unat (?b 8)) @ CHR ''.'' # show_nat (unat (?b 16)) @ CHR ''.'' # show_nat (unat (?b 24))"
    by (simp add: dotted_def quad_def bytes32_def numeral_2_eq_2 numeral_3_eq_3)
  have "length (dotted a) \<le> 15"
    unfolding d using show_byte_length [of "?b 0"] show_byte_length [of "?b 8"] show_byte_length [of "?b 16"] show_byte_length [of "?b 24"]
    by simp
  moreover have "dotted_bytes 3 (dotted a) =
      Some [word_of_nat (unat (?b 0)), word_of_nat (unat (?b 8)), word_of_nat (unat (?b 16)), word_of_nat (unat (?b 24))]"
    unfolding d numeral_3_eq_3 dotted_bytes_step using byte_number [of "?b 24"] by (simp only: dotted_bytes.simps option.map Let_def) simp
  moreover have "word_of_nat (unat (?b 0)) + 256 * word_of_nat (unat (?b 8)) + 65536 * word_of_nat (unat (?b 16)) + 16777216 * word_of_nat (unat (?b 24)) = a"
  proof -
    have "(word_of_nat (val32 (?b 0) (?b 8) (?b 16) (?b 24)) :: u32) = a" using val32_bytes32 [of a] by (simp only: drop_bit_0 id_apply) simp
    then show ?thesis by (simp add: val32_def val16_def algebra_simps)
  qed
  ultimately show ?thesis by (simp add: dotted_to_addr_def)
qed

lemma dotted_digit: "\<exists>c r. dotted a = c # r \<and> isdigit c"
proof -
  obtain c cs where "show_nat (unat (bytes32 a ! 0)) = c # cs" "isdigit c"
    using show_nat_digits [of "unat (bytes32 a ! 0)"] by (cases "show_nat (unat (bytes32 a ! 0))") auto
  then show ?thesis by (simp add: dotted_def quad_def)
qed

lemma parse_options_plain: "parse_options flags (cmd # dotted a # r) = Done (no_opts flags, cmd # dotted a # r)"
proof -
  obtain c s where c: "dotted a = c # s" "isdigit c" using dotted_digit by blast
  have o: "\<not> strstarts (dotted a) (p # ps)" "dotted a \<noteq> p # ps" if "\<not> isdigit p" for p ps
    using c that by (auto simp: strstarts_def)
  show ?thesis by (simp add: parse_options_def take_option_def take_flag_def o isdigit_def)
qed

definition plain_header :: "u32 \<Rightarrow> u32 \<Rightarrow> nat \<Rightarrow> nat \<Rightarrow> u8 list" where
  "plain_header s d proto len =
     ip_check (put16 6 (put16 2 ([0x45, 0, 0, 0, 0, 0, 0, 0, 255, word_of_nat proto, 0, 0] @ bytes32 s @ bytes32 d) (htons (word_of_nat (20 + len)))) 0)"

lemma parse_packet_plain:
  assumes "n \<le> 65535" "proto \<le> 255" "parse_transport (word_of_nat proto) s d n args flags (\<lambda>_. 0) = Done (len, u, fl)"
  shows "parse_packet (cmd # dotted s # dotted d # show_nat n # show_nat proto # args) flags =
    Done (\<lparr>pad = 0, h_dest = replicate 6 0, h_source = replicate 6 0, h_proto = htons 0x0800,
           iph = plain_header s d proto len, raw_data = u\<rparr>, fl)"
proof -
  have len: "string_to_number (show_nat n) 0 65535 = word_of_nat n" "(word_of_nat n :: u32) \<noteq> - 1" "unat (word_of_nat n :: u32) = n"
    using assms(1) number_show [of n 65535] small_not_minus_one [of n] by (simp_all add: unsigned_of_nat take_bit_eq_mod)
  have "string_to_number (show_nat proto) 0 65535 = word_of_nat proto" "(word_of_nat proto :: u32) \<noteq> - 1"
    using assms(2) number_show [of proto 65535] small_not_minus_one [of proto] by simp_all
  moreover have "word_of_nat proto AND 0xFFFF = (word_of_nat proto :: u32)"
  proof -
    have "x AND 0xFFFF = take_bit 16 x" for x :: u32 by (simp add: take_bit_eq_mask mask_eq_exp_minus_1)
    moreover have "unat (word_of_nat proto :: u32) = proto" using assms(2) by (simp add: unsigned_of_nat take_bit_eq_mod)
    then have "unat (take_bit 16 (word_of_nat proto :: u32)) = unat (word_of_nat proto :: u32)"
      using assms(2) by (simp only: unsigned_take_bit_eq) (simp add: take_bit_nat_eq_self)
    ultimately show ?thesis by (simp only: word_unat_eq_iff)
  qed
  ultimately have proto: "parse_protocol (show_nat proto) = Done (word_of_nat proto)" by (simp add: parse_protocol_def)
  have u: "ucast (word_of_nat proto :: u32) = (word_of_nat proto :: u8)" by (rule bit_word_eqI) (simp add: bit_simps)
  have h: "parse_header (dotted s) (dotted d) (show_nat n) (show_nat proto) 0 255 =
      Done (n, s, d, [0x45, 0, 0, 0, 0, 0, 0, 0, 255, word_of_nat proto, 0, 0] @ bytes32 s @ bytes32 d)"
    by (simp add: parse_header_def len proto dotted_to_addr_dotted complain_def u)
  show ?thesis
    using assms(3) by (simp add: parse_packet_def parse_options_plain no_opts_def h move_fragment_def frag_field_def plain_header_def Let_def)
qed

lemma plain_header_length [simp]: "length (plain_header s d proto len) = 20"
  by (simp add: plain_header_def ip_check_def set_check_def bytes32_def)

lemma plain_header_nth:
  assumes "i \<notin> {2, 3, 6, 7, 10, 11}"
  shows "(plain_header s d proto len @ r) ! i = (([0x45, 0, 0, 0, 0, 0, 0, 0, 255, word_of_nat proto, 0, 0] @ bytes32 s @ bytes32 d) @ r) ! i"
proof -
  define h where "h = [0x45, 0, 0, 0, 0, 0, 0, 0, 255, word_of_nat proto, 0, 0] @ bytes32 s @ bytes32 d"
  have "length h = 20" by (simp add: h_def bytes32_def)
  moreover have "plain_header s d proto len ! i = h ! i"
    using assms by (simp add: plain_header_def h_def ip_check_nth nth_put16)
  ultimately show ?thesis unfolding h_def [symmetric] by (simp add: nth_append)
qed

lemma plain_header_fields:
  assumes "len \<le> 65515"
  shows "be16 2 (plain_header s d proto len @ r) = 20 + len" "be16 6 (plain_header s d proto len @ r) = 0"
    "csum_partial 0 (plain_header s d proto len) 0 = 0xFFFF"
    "addr_at 12 (plain_header s d proto len @ r) = s" "addr_at 16 (plain_header s d proto len @ r) = d"
    "ip_text (plain_header s d proto len @ r) None = dotted s @ '' '' @ dotted d @ '' ''"
proof -
  let ?h = "plain_header s d proto len" and ?l = "word_of_nat (20 + len) :: u16"
  have l: "unat ?l = 20 + len" using assms by (intro unat_len) simp
  have b: "?h ! 2 = byte0 (htons ?l)" "?h ! 3 = byte1 (htons ?l)" "?h ! 6 = byte0 0" "?h ! 7 = byte1 0"
    by (simp_all add: plain_header_def ip_check_nth put16_def bytes32_def)
  show tot: "be16 2 (?h @ r) = 20 + len"
  proof -
    have "unat (swab16 (htons ?l)) = unat ?l" by (simp only: htons_def swab16_swab16)
    then have "unat (byte0 (htons ?l)) * 256 + unat (byte1 (htons ?l)) = 20 + len" using l unat_swab16 [of "htons ?l"] by (simp only:)
    then show ?thesis using b by (simp only: be16_def nth_append plain_header_length) simp
  qed
  show fo: "be16 6 (?h @ r) = 0" by (simp add: be16_def nth_append b byte0_def byte1_def)
  show "csum_partial 0 ?h 0 = 0xFFFF"
    unfolding plain_header_def by (rule ip_check_valid) (simp_all add: nth_put16 bytes32_def)
  have n: "(?h @ r) ! (12 + k) = bytes32 s ! k" "(?h @ r) ! (16 + k) = bytes32 d ! k" if "k < 4" for k
  proof -
    have "k = 0 \<or> k = 1 \<or> k = 2 \<or> k = 3" using that by auto
    then show "(?h @ r) ! (12 + k) = bytes32 s ! k" "(?h @ r) ! (16 + k) = bytes32 d ! k"
      by (elim disjE; simp add: plain_header_nth bytes32_def)+
  qed
  have t: "take 4 (drop 12 (?h @ r)) = bytes32 s" "take 4 (drop 16 (?h @ r)) = bytes32 d"
    using n by (auto intro!: nth_equalityI simp: bytes32_def simp del: drop_append)
  show "addr_at 12 (?h @ r) = s" by (rule addr_at_bytes32 [OF _ t(1)]) simp
  show "addr_at 16 (?h @ r) = d" by (rule addr_at_bytes32 [OF _ t(2)]) simp
  have "quad 12 (?h @ r) = dotted s" "quad 16 (?h @ r) = dotted d"
    using n [of 0] n [of 1] n [of 2] n [of 3] by (simp_all add: quad_def dotted_def numeral_2_eq_2)
  then show "ip_text (?h @ r) None = dotted s @ '' '' @ dotted d @ '' ''"
    by (simp add: ip_text_def fo has_flag_def)
qed

lemma describe_plain:
  fixes s d :: u32 and p :: "u8 list"
  assumes "length p = len" "len \<le> 65515" "proto \<le> 255"
  defines "bs \<equiv> plain_header s d proto len @ p" and "t \<equiv> dotted s @ '' '' @ dotted d @ '' ''"
  shows "proto = 17 \<Longrightarrow> describe [] (int (20 + len)) bs None = bind_outcome (udp_text bs (int len) (int len) False None t) (\<lambda>t. Ok (out_trim t))"
    and "proto = 6 \<Longrightarrow> describe [] (int (20 + len)) bs None = bind_outcome (tcp_text bs (int len) (int len) False None t) (\<lambda>t. Ok (out_trim t))"
proof -
  have f: "be16 2 bs = 20 + len" "be16 6 bs = 0" "csum_partial 0 (take 20 bs) 0 = 0xFFFF" "ip_text bs None = t"
    using plain_header_fields [OF assms(2)] by (simp_all add: bs_def t_def)
  have l: "\<not> length bs < 20" "\<not> (0 \<le> int (20 + len) \<and> int (20 + len) < 20)" by (simp_all add: bs_def)
  have "bs ! 9 = word_of_nat proto" by (simp add: bs_def plain_header_nth)
  then have p: "proto = 17 \<Longrightarrow> bs ! 9 \<noteq> IPPROTO_ICMP \<and> bs ! 9 = IPPROTO_UDP" "proto = 6 \<Longrightarrow> bs ! 9 \<noteq> IPPROTO_ICMP \<and> bs ! 9 \<noteq> IPPROTO_UDP \<and> bs ! 9 = IPPROTO_TCP"
    by (simp_all add: IPPROTO_ICMP_def IPPROTO_UDP_def IPPROTO_TCP_def)
  note d = describe.simps [of "[]" "int (20 + len)" bs None, unfolded Let_def f, simplified l if_False append_Nil]
  show "proto = 17 \<Longrightarrow> describe [] (int (20 + len)) bs None = bind_outcome (udp_text bs (int len) (int len) False None t) (\<lambda>t. Ok (out_trim t))"
    using p(1) d by (simp add: IPPROTO_ICMP_def IPPROTO_UDP_def)
  show "proto = 6 \<Longrightarrow> describe [] (int (20 + len)) bs None = bind_outcome (tcp_text bs (int len) (int len) False None t) (\<lambda>t. Ok (out_trim t))"
    using p(2) d by (simp add: IPPROTO_ICMP_def IPPROTO_UDP_def IPPROTO_TCP_def)
qed

lemma join_words_Cons: "r \<noteq> [] \<Longrightarrow> join_words (w # r) = w @ CHR '' '' # join_words r"
  by (cases r) simp_all

lemma show_nat_last: "last (t @ show_nat n) \<noteq> CHR '' '' \<and> t @ show_nat n \<noteq> []"
proof -
  have n: "show_nat n \<noteq> []" "list_all isdigit (show_nat n)" using show_nat_digits [of n] by simp_all
  then have "isdigit (last (show_nat n))" by (simp add: list_all_iff)
  then show ?thesis using n(1) by (auto simp: isdigit_def)
qed

lemma out_trim_blank: "out_trim (t @ '' '') = t"
  by (simp add: out_trim_def)

lemma show_Zu_nat: "int n < 18446744073709551616 \<Longrightarrow> show_Zu (int n) = show_nat n"
  by (simp add: show_Zu_def)

lemma show_u_nat: "int n < 4294967296 \<Longrightarrow> show_u (int n) = show_nat n"
  by (simp add: show_u_def)

lemma be16_htons:
  assumes "i + 1 < length p" "k \<le> 65535" "p ! i = byte0 (htons (word_of_nat k))" "p ! Suc i = byte1 (htons (word_of_nat k))"
  shows "be16 i p = k"
proof -
  have "unat (swab16 (htons (word_of_nat k))) = k" using assms(2) unat_len [of k] by (simp only: htons_def swab16_swab16)
  then show ?thesis using unat_swab16 [of "htons (word_of_nat k)"] assms(3,4) by (simp add: be16_def)
qed

lemma need_number_show: "n \<le> 65535 \<Longrightarrow> need_number msg (Some (show_nat n)) 65535 = Done (word_of_nat n)"
  using number_show [of n 65535] small_not_minus_one [of n] by (simp add: need_number_def)

lemma generated_udp:
  assumes "spt \<le> 65535" "dpt \<le> 65535" "n \<le> 65475"
  obtains u where "parse_transport (word_of_nat 17) s d n [show_nat spt, show_nat dpt] flags (\<lambda>_. 0) = Done (8 + n, u, flags)"
    "be16 0 (mem_bytes (8 + n) u) = spt" "be16 2 (mem_bytes (8 + n) u) = dpt"
    "csum_tcpudp_magic s d (word_of_nat (8 + n)) 17 (csum_partial 0 (mem_bytes (8 + n) u) 0) = 0"
proof -
  let ?len = "word_of_nat (8 + n) :: u16"
  have len: "unat ?len = 8 + n" using assms(3) by (intro unat_len) simp
  define w where "w = put_mem 0 (bytes16 (htons (word_of_nat spt)) @ bytes16 (htons (word_of_nat dpt)) @ bytes16 (htons ?len) @ [0, 0]) (\<lambda>_. 0)"
  define u where "u = put_mem 6 (bytes16 (transport_sum s d 17 ?len w)) w"
  have uc: "ucast (word_of_nat k :: u32) = (word_of_nat k :: u16)" for k by (rule bit_word_eqI) (simp add: bit_simps)
  have p: "parse_udp s d n [show_nat spt, show_nat dpt] flags (\<lambda>_. 0) = Done (8 + n, u, flags)"
    using assms len by (simp add: parse_udp_def nth_arg_def need_number_show uc udp_datagram_def Let_def u_def w_def del: of_nat_add)
  then have t: "parse_transport (word_of_nat 17) s d n [show_nat spt, show_nat dpt] flags (\<lambda>_. 0) = Done (8 + n, u, flags)"
    by (simp add: parse_transport_def IPPROTO_ICMP_def IPPROTO_TCP_def IPPROTO_UDP_def)
  have b: "mem_bytes (8 + n) u ! 0 = byte0 (htons (word_of_nat spt))" "mem_bytes (8 + n) u ! 1 = byte1 (htons (word_of_nat spt))"
    "mem_bytes (8 + n) u ! 2 = byte0 (htons (word_of_nat dpt))" "mem_bytes (8 + n) u ! 3 = byte1 (htons (word_of_nat dpt))"
    by (simp_all add: mem_bytes_def u_def w_def put_mem_def bytes16_def)
  have "be16 0 (mem_bytes (8 + n) u) = spt" "be16 2 (mem_bytes (8 + n) u) = dpt"
    using b assms by (auto intro!: be16_htons)
  then show thesis using that t parse_udp_valid(2) [OF p assms(3)] by blast
qed

lemma describe_udp:
  assumes "spt \<le> 65535" "dpt \<le> 65535" "n \<le> 65475"
    and p: "be16 0 p = spt" "be16 2 p = dpt" "length p = 8 + n" "csum_tcpudp_magic s d (word_of_nat (8 + n)) 17 (csum_partial 0 p 0) = 0"
  shows "describe [] (int (28 + n)) (plain_header s d 17 (8 + n) @ p) None =
    Ok (join_words [dotted s, dotted d, show_nat n, ''17'', show_nat spt, show_nat dpt])"
proof -
  let ?bs = "plain_header s d 17 (8 + n) @ p"
  have f: "addr_at 12 ?bs = s" "addr_at 16 ?bs = d" "?bs ! 9 = 17"
    using plain_header_fields(4,5) [of "8 + n"] assms(3) by (simp_all add: plain_header_nth)
  have "udp_text ?bs (int (8 + n)) (int (8 + n)) False None t =
      Ok (t @ show_nat n @ '' 17 '' @ show_nat spt @ '' '' @ show_nat dpt @ '' '')" for t
    using p f assms(3) show_Zu_nat [of n]
    by (simp add: udp_text_def segment_def has_flag_def IPPROTO_UDP_def Let_def show_nat.simps digit_chars)
  then show ?thesis
    using describe_plain(1) [of p "8 + n" 17 s d] p(3) assms(3)
      out_trim_blank [of "join_words [dotted s, dotted d, show_nat n, ''17'', show_nat spt, show_nat dpt]"] by simp
qed

lemma flags_fold:
  "\<forall>x \<in> set xs. fst x \<noteq> [] \<Longrightarrow>
    foldl (\<lambda>t (name, b). if f AND b \<noteq> 0 then t @ (if t = [] then [] else ''/'') @ name else t) t xs =
      (let fs = filter (\<lambda>(_, b). f AND b \<noteq> 0) xs in if fs = [] then t else if t = [] then flag_string fs else t @ CHR ''/'' # flag_string fs)"
proof (induction xs arbitrary: t)
  case (Cons x xs)
  obtain n b where x: "x = (n, b)" by (cases x)
  show ?case
  proof (cases "f AND b = 0")
    case False
    then show ?thesis using Cons x by (cases "filter (\<lambda>(_, b). f AND b \<noteq> 0) xs") (auto simp: Let_def)
  qed (use Cons x in simp)
qed simp

lemma or_filter: "foldl (\<lambda>a (_, b). a OR b) a (filter P xs) = foldl (\<lambda>a x. a OR (if P x then snd x else 0)) a (xs :: ('n \<times> u8) list)"
  by (induction xs arbitrary: a) auto

lemma flag_bits: "foldl (\<lambda>a (_, b). a OR b) 0 (filter (\<lambda>(_, b). f AND b \<noteq> 0) tcp_flag_names) = f"
proof -
  have m: "f AND 1 = 0 \<longleftrightarrow> \<not> bit f 0" "f AND 2 = 0 \<longleftrightarrow> \<not> bit f 1" "f AND 4 = 0 \<longleftrightarrow> \<not> bit f 2" "f AND 8 = 0 \<longleftrightarrow> \<not> bit f 3"
    "f AND 16 = 0 \<longleftrightarrow> \<not> bit f 4" "f AND 32 = 0 \<longleftrightarrow> \<not> bit f 5" "f AND 64 = 0 \<longleftrightarrow> \<not> bit f 6" "f AND 128 = 0 \<longleftrightarrow> \<not> bit f 7"
    using and_exp_eq_0_iff_not_bit [of f 0] and_exp_eq_0_iff_not_bit [of f 1] and_exp_eq_0_iff_not_bit [of f 2] and_exp_eq_0_iff_not_bit [of f 3]
      and_exp_eq_0_iff_not_bit [of f 4] and_exp_eq_0_iff_not_bit [of f 5] and_exp_eq_0_iff_not_bit [of f 6] and_exp_eq_0_iff_not_bit [of f 7]
    by simp_all
  have i: "bit (if c then (x :: u8) else 0) k \<longleftrightarrow> c \<and> bit x k" for c x k by simp
  show ?thesis
  proof (rule bit_word_eqI)
    fix n assume "n < LENGTH(8)"
    then have "n = 0 \<or> n = 1 \<or> n = 2 \<or> n = 3 \<or> n = 4 \<or> n = 5 \<or> n = 6 \<or> n = 7" by auto
    then show "bit (foldl (\<lambda>a (_, b). a OR b) 0 (filter (\<lambda>(_, b). f AND b \<noteq> 0) tcp_flag_names)) n = bit f n"
      unfolding or_filter tcp_flag_names_def foldl.simps by (elim disjE) (simp_all only: prod.case snd_conv m not_not bit_or_iff i, simp_all)
  qed
qed

lemma flag_string_not_Nil: "\<forall>x \<in> set fs. fst x \<noteq> [] \<Longrightarrow> fs \<noteq> [] \<Longrightarrow> flag_string fs \<noteq> []"
  by (cases fs rule: flag_string.cases) auto

lemma parse_flags_text: "parse_flags (flags_text f) = Done f"
proof -
  let ?fs = "filter (\<lambda>(_, b). f AND b \<noteq> 0) tcp_flag_names"
  have ne: "\<forall>x \<in> set tcp_flag_names. fst x \<noteq> []" by (simp add: tcp_flag_names_def)
  then have "\<forall>x \<in> set ?fs. fst x \<noteq> []" by (simp del: split_paired_All)
  then have "flag_string ?fs \<noteq> []" if "?fs \<noteq> []" using that by (rule flag_string_not_Nil)
  then have t: "flags_text f = (if ?fs = [] then ''NONE'' else flag_string ?fs)"
    unfolding flags_text_def flags_fold [OF ne] Let_def by (cases "?fs = []") (simp_all only: if_True if_False simp_thms)
  show ?thesis
  proof (cases "?fs = []")
    case True
    then have "f = 0" using flag_bits [of f] by simp
    then show ?thesis using True t by (simp add: parse_flags_def)
  next
    case False
    have "set ?fs \<subseteq> set tcp_flag_names" by (rule filter_is_subset)
    also have "\<dots> \<subseteq> set tcp_flags" by (simp add: tcp_flag_names_def tcp_flags_def)
    finally have "set ?fs \<subseteq> set tcp_flags" .
    then have full: "parse_flags_loop (flag_string ?fs) 0 = Done f" using parse_flags_loop_complete [OF False] flag_bits [of f] by simp
    have none: "parse_flags_loop ''NONE'' 0 \<noteq> Done f" by (subst parse_flags_loop.simps) (simp add: tcp_flags_def strstarts_def)
    have "flag_string ?fs \<noteq> ''NONE''"
    proof
      assume "flag_string ?fs = ''NONE''"
      with full have "parse_flags_loop ''NONE'' 0 = Done f" by (rule subst [rotated])
      with none show False by (rule notE)
    qed
    then show ?thesis unfolding t parse_flags_def using False full by (simp only: if_False)
  qed
qed

lemma bytes32_swab32: "bytes32 (swab32 w) = rev (bytes32 w)"
  unfolding bytes32_def by (simp; intro conjI; rule bit_word_eqI; auto simp: bit_swab32 bit_simps)

text \<open>An optional argument: present unless the number is 0.\<close>

definition opt_arg :: "string \<Rightarrow> nat \<Rightarrow> string list" where
  "opt_arg name n = (if n = 0 then [] else [name @ show_nat n])"

lemma prefixed_opt:
  assumes "r = [] \<or> \<not> strstarts (hd r) name"
  shows "prefixed name (opt_arg name n @ r) = (if n = 0 then None else Some (show_nat n), r)"
  using assms by (auto simp: prefixed_def opt_arg_def strstarts_def split: list.splits)

lemma prefixed_tcp_args:
  "prefixed ''SEQ='' (opt_arg ''SEQ='' q @ opt_arg ''ACK='' a @ opt_arg ''WIN='' w) =
    (if q = 0 then None else Some (show_nat q), opt_arg ''ACK='' a @ opt_arg ''WIN='' w)"
  "prefixed ''ACK='' (opt_arg ''ACK='' a @ opt_arg ''WIN='' w) = (if a = 0 then None else Some (show_nat a), opt_arg ''WIN='' w)"
  "prefixed ''WIN='' (opt_arg ''WIN='' w) = (if w = 0 then None else Some (show_nat w), [])"
  using prefixed_opt [of "opt_arg ''ACK='' a @ opt_arg ''WIN='' w" "''SEQ=''" q] prefixed_opt [of "opt_arg ''WIN='' w" "''ACK=''" a]
    prefixed_opt [of "[]" "''WIN=''" w]
  by (auto simp: opt_arg_def strstarts_def)

lemma parse_tcpnumber_show: "int q < 4294967296 \<Longrightarrow> parse_tcpnumber (show_nat q) = htonl (word_of_nat q)"
proof -
  assume q: "int q < 4294967296"
  have "x \<le> (0xFFFFFFFF :: u32)" for x using unat_u32_less [of x] by (simp add: word_le_nat_alt)
  then show ?thesis using q by (simp add: parse_tcpnumber_def string_to_number_show)
qed

lemma be32_htonl:
  assumes "int q < 4294967296" "take 4 (drop i p) = bytes32 (htonl (word_of_nat q))" "i + 4 \<le> length p"
  shows "be32 i p = q"
proof -
  let ?w = "word_of_nat q :: u32"
  have "p ! (i + k) = bytes32 (htonl ?w) ! k" if "k < 4" for k
    using that assms(2,3) by (metis nth_drop nth_take add_leD1)
  from this [of 0] this [of 1] this [of 2] this [of 3]
  have "p ! i = ucast (drop_bit 24 ?w)" "p ! (i + 1) = ucast (drop_bit 16 ?w)" "p ! (i + 2) = ucast (drop_bit 8 ?w)" "p ! (i + 2 + 1) = ucast ?w"
    unfolding htonl_def bytes32_swab32 by (simp_all add: bytes32_def numeral_2_eq_2 numeral_3_eq_3)
  then have "be32 i p = val32 (ucast ?w) (ucast (drop_bit 8 ?w)) (ucast (drop_bit 16 ?w)) (ucast (drop_bit 24 ?w))"
    unfolding be32_def be16_def val32_def val16_def by (simp only:) (simp add: algebra_simps)
  also have "\<dots> = unat ?w" by (rule val32_bytes32)
  also have "\<dots> = q" using assms(1) by (simp add: unsigned_of_nat take_bit_eq_mod)
  finally show ?thesis .
qed

lemma generated_tcp:
  fixes f :: u8
  assumes "spt \<le> 65535" "dpt \<le> 65535" "n \<le> 65475" "int q < 4294967296" "int a < 4294967296" "w \<le> 65535"
  obtains u where "parse_transport (word_of_nat 6) s d n
      ([show_nat spt, show_nat dpt, flags_text f] @ opt_arg ''SEQ='' q @ opt_arg ''ACK='' a @ opt_arg ''WIN='' w) flags (\<lambda>_. 0) = Done (20 + n, u, flags)"
    "take 16 (mem_bytes (20 + n) u) = take 16 (tcp_header (word_of_nat spt) (word_of_nat dpt) (htonl (word_of_nat q)) (htonl (word_of_nat a)) 5 f (word_of_nat w))"
    "csum_tcpudp_magic s d (word_of_nat (20 + n)) 6 (csum_partial 0 (mem_bytes (20 + n) u) 0) = 0"
proof -
  let ?args = "[show_nat spt, show_nat dpt, flags_text f] @ opt_arg ''SEQ='' q @ opt_arg ''ACK='' a @ opt_arg ''WIN='' w"
  let ?hdr = "tcp_header (word_of_nat spt) (word_of_nat dpt) (htonl (word_of_nat q)) (htonl (word_of_nat a)) 5 f (word_of_nat w)"
  define u where "u = snd (tcp_segment s d n 5 ?hdr (\<lambda>_. 0))"
  have len: "unat (word_of_nat (20 + n) :: u16) = 20 + n" using assms(3) by (intro unat_len) simp
  have z: "htonl 0 = 0" by (simp add: htonl_def swab32_def)
  have num: "(case if k = 0 then None else Some (show_nat k) of None \<Rightarrow> 0 | Some x \<Rightarrow> parse_tcpnumber x) = htonl (word_of_nat k)"
    if "int k < 4294967296" for k using that z by (simp add: parse_tcpnumber_show)
  have win: "(case if w = 0 then None else Some (show_nat w) of None \<Rightarrow> Done 0
      | Some n \<Rightarrow> let v = string_to_number n 0 65535 in if v = - 1 then Bad (Some (quoted ''Bad tcp window: '' (''WIN='' @ n))) else Done v) = Done (word_of_nat w)"
    using assms(6) number_show [of w 65535] small_not_minus_one [of w] by (simp add: Let_def)
  have pm: "put_mem 20 [] v = v" for v by (auto simp: put_mem_def fun_eq_iff)
  have three: "drop 3 ?args = opt_arg ''SEQ='' q @ opt_arg ''ACK='' a @ opt_arg ''WIN='' w" "nth_arg ?args 0 = Some (show_nat spt)"
    "nth_arg ?args 1 = Some (show_nat dpt)" "nth_arg ?args 2 = Some (flags_text f)" by (simp_all add: nth_arg_def)
  have opt: "prefixed ''OPT='' [] = (None, [])" by (simp add: prefixed_def)
  have "fst (tcp_segment s d n 5 ?hdr (\<lambda>_. 0)) = 20 + n" using len by (simp add: tcp_segment_def Let_def)
  then have seg: "tcp_segment s d n 5 ?hdr (\<lambda>_. 0) = (20 + n, u)" unfolding u_def by (metis prod.collapse)
  have p: "parse_tcp s d n ?args flags (\<lambda>_. 0) = Done (20 + n, u, flags)"
    unfolding parse_tcp_def three need_number_show [OF assms(1)] need_number_show [OF assms(2)] option.case parse_flags_text bind_parse.simps
      prefixed_tcp_args Let_def prod.case num [OF assms(4)] num [OF assms(5)]
    by (simp only: win [unfolded Let_def] bind_parse.simps opt prod.case option.case pm)
      (simp add: seg nth_arg_def pm)
  then have t: "parse_transport (word_of_nat 6) s d n ?args flags (\<lambda>_. 0) = Done (20 + n, u, flags)"
    by (simp add: parse_transport_def IPPROTO_ICMP_def IPPROTO_TCP_def IPPROTO_UDP_def)
  have "take 16 (mem_bytes (20 + n) u) = take 16 ?hdr"
    by (rule nth_equalityI) (auto simp: u_def tcp_segment_def Let_def mem_bytes_def put_mem_def tcp_header_length)
  then show thesis using that t parse_tcp_valid(3) [OF p assms(3)] by blast
qed

lemma words_text: "vs \<noteq> [] \<Longrightarrow> concat (map (\<lambda>w. w @ '' '') vs) = join_words vs @ '' ''"
proof (induction vs)
  case (Cons w vs)
  then show ?case by (cases "vs = []") (simp_all add: join_words_Cons)
qed simp

lemma opt_arg_text: "concat (map (\<lambda>w. w @ '' '') (opt_arg name n)) = (if n = 0 then [] else name @ show_nat n @ '' '')"
  by (simp add: opt_arg_def)

lemma tcp_header_fields:
  fixes f :: u8
  assumes "spt \<le> 65535" "dpt \<le> 65535" "int q < 4294967296" "int a < 4294967296" "w \<le> 65535"
    and h: "take 16 p = take 16 (tcp_header (word_of_nat spt) (word_of_nat dpt) (htonl (word_of_nat q)) (htonl (word_of_nat a)) 5 f (word_of_nat w))"
    and l: "20 \<le> length p"
  shows "be16 0 p = spt" "be16 2 p = dpt" "be32 4 p = q" "be32 8 p = a" "p ! 12 = 0x50" "p ! 13 = f" "be16 14 p = w"
proof -
  let ?h = "tcp_header (word_of_nat spt) (word_of_nat dpt) (htonl (word_of_nat q)) (htonl (word_of_nat a)) 5 f (word_of_nat w)"
  have uc: "ucast (word_of_nat k :: u32) = (word_of_nat k :: u16)" for k by (rule bit_word_eqI) (simp add: bit_simps)
  have n: "p ! i = ?h ! i" if "i < 16" for i using h that by (metis nth_take)
  have "take 4 (drop k p) = take 4 (drop k ?h)" if "k \<le> 12" for k
    using that l by (intro nth_equalityI) (auto simp: n tcp_header_length)
  from this [of 4] this [of 8] show "be32 4 p = q" "be32 8 p = a"
    using assms(3,4) l by (auto intro!: be32_htonl simp: tcp_header_def bytes16_def bytes32_def)
  show "be16 0 p = spt" "be16 2 p = dpt" "be16 14 p = w"
    using assms(1,2,5) l by (auto intro!: be16_htons simp: n) (simp_all add: tcp_header_def bytes16_def bytes32_def uc)
  show "p ! 12 = 0x50" "p ! 13 = f" by (simp_all add: n) (simp_all add: tcp_header_def bytes16_def bytes32_def)
qed

lemma describe_tcp:
  fixes f :: u8
  assumes "spt \<le> 65535" "dpt \<le> 65535" "n \<le> 65475" "int q < 4294967296" "int a < 4294967296" "w \<le> 65535"
    and h: "take 16 p = take 16 (tcp_header (word_of_nat spt) (word_of_nat dpt) (htonl (word_of_nat q)) (htonl (word_of_nat a)) 5 f (word_of_nat w))"
    and p: "length p = 20 + n" "csum_tcpudp_magic s d (word_of_nat (20 + n)) 6 (csum_partial 0 p 0) = 0"
  shows "describe [] (int (40 + n)) (plain_header s d 6 (20 + n) @ p) None =
    Ok (join_words ([dotted s, dotted d, show_nat n, ''6'', show_nat spt, show_nat dpt, flags_text f] @
      opt_arg ''SEQ='' q @ opt_arg ''ACK='' a @ opt_arg ''WIN='' w))"
proof -
  let ?bs = "plain_header s d 6 (20 + n) @ p"
  let ?opts = "opt_arg ''SEQ='' q @ opt_arg ''ACK='' a @ opt_arg ''WIN='' w"
  let ?ws = "[dotted s, dotted d, show_nat n, ''6'', show_nat spt, show_nat dpt, flags_text f] @ ?opts"
  have f: "addr_at 12 ?bs = s" "addr_at 16 ?bs = d" "?bs ! 9 = 6"
    using plain_header_fields(4,5) [of "20 + n"] assms(3) by (simp_all add: plain_header_nth)
  have "20 \<le> length p" using p(1) by simp
  note g = tcp_header_fields [OF assms(1,2,4,5,6) h this]
  have doff: "unat (drop_bit 4 (0x50 :: u8)) * 4 = 20" "nat (20 + int n) = 20 + n" by simp_all
  have "tcp_text ?bs (int (20 + n)) (int (20 + n)) False None t =
      Ok (t @ show_nat n @ '' 6 '' @ show_nat spt @ '' '' @ show_nat dpt @ '' '' @ flags_text f @ '' '' @ concat (map (\<lambda>w. w @ '' '') ?opts))" for t
    using p f g doff assms(3) show_u_nat [of n]
    by (simp add: tcp_text_def segment_def has_flag_def IPPROTO_TCP_def Let_def opt_arg_text show_nat.simps [of 6] digit_chars)
  then have "describe [] (int (40 + n)) ?bs None = Ok (out_trim (concat (map (\<lambda>w. w @ '' '') ?ws)))"
    using describe_plain(2) [of p "20 + n" 6 s d] p(1) assms(3) by simp
  then show ?thesis using words_text [of ?ws] out_trim_blank [of "join_words ?ws"] by simp
qed

text \<open>Arguments of \<^verbatim>\<open>gen_ip\<close> behind the length, as \<open>describe\<close> would print them: numbers without leading zeros, the TCP flags in its order.\<close>

definition plain_args :: "string list \<Rightarrow> bool" where
  "plain_args args \<longleftrightarrow>
     (\<exists>spt dpt. spt \<le> 65535 \<and> dpt \<le> 65535 \<and> args = [''17'', show_nat spt, show_nat dpt]) \<or>
     (\<exists>spt dpt f q a w. spt \<le> 65535 \<and> dpt \<le> 65535 \<and> int q < 4294967296 \<and> int a < 4294967296 \<and> w \<le> 65535 \<and>
       args = [''6'', show_nat spt, show_nat dpt, flags_text f] @ opt_arg ''SEQ='' q @ opt_arg ''ACK='' a @ opt_arg ''WIN='' w)"

lemma packet_bytes_exact: "length (iph p) = 20 \<Longrightarrow> packet_bytes (20 + k) p = iph p @ mem_bytes k (raw_data p)"
  by (simp add: packet_bytes_def)

definition plain_packet :: "u32 \<Rightarrow> u32 \<Rightarrow> nat \<Rightarrow> nat \<Rightarrow> umem \<Rightarrow> packet" where
  "plain_packet s d k len u =
     \<lparr>pad = 0, h_dest = replicate 6 0, h_source = replicate 6 0, h_proto = htons 0x0800, iph = plain_header s d k len, raw_data = u\<rparr>"

lemma plain_packet_bytes:
  assumes "len \<le> 65515"
  shows "tot_len (plain_packet s d k len u) = 20 + len"
    and "packet_bytes (20 + len) (plain_packet s d k len u) = plain_header s d k len @ mem_bytes len u"
  using plain_header_fields(1) [OF assms, of s d k "[]"] packet_bytes_exact [of "plain_packet s d k len u" len]
  by (simp_all add: plain_packet_def tot_len_def be16_def)

lemma protocol_texts: "show_nat 6 = ''6''" "show_nat 17 = ''17''"
  by (simp_all add: show_nat.simps digit_chars)

lemma generated_described:
  assumes "plain_args args" "n \<le> 65475"
  obtains k len u where "parse_packet (cmd # dotted s # dotted d # show_nat n # args) None = Done (plain_packet s d k len u, None)"
    "k \<in> {6, 17}" "len \<le> 65515"
    "describe [] (int (20 + len)) (plain_header s d k len @ mem_bytes len u) None = Ok (join_words (dotted s # dotted d # show_nat n # args))"
proof -
  consider (udp) spt dpt where "spt \<le> 65535" "dpt \<le> 65535" "args = [''17'', show_nat spt, show_nat dpt]"
    | (tcp) spt dpt f q a w where "spt \<le> 65535" "dpt \<le> 65535" "int q < 4294967296" "int a < 4294967296" "w \<le> 65535"
      "args = [''6'', show_nat spt, show_nat dpt, flags_text f] @ opt_arg ''SEQ='' q @ opt_arg ''ACK='' a @ opt_arg ''WIN='' w"
    using assms(1) unfolding plain_args_def by blast
  then show thesis
  proof cases
    case udp
    obtain u where u: "parse_transport (word_of_nat 17) s d n [show_nat spt, show_nat dpt] None (\<lambda>_. 0) = Done (8 + n, u, None)"
      "be16 0 (mem_bytes (8 + n) u) = spt" "be16 2 (mem_bytes (8 + n) u) = dpt"
      "csum_tcpudp_magic s d (word_of_nat (8 + n)) 17 (csum_partial 0 (mem_bytes (8 + n) u) 0) = 0"
      by (rule generated_udp [OF udp(1,2) assms(2)])
    show thesis
      by (rule that [of 17 "8 + n" u])
        (use parse_packet_plain [OF _ _ u(1), of cmd] describe_udp [OF udp(1,2) assms(2) u(2,3) _ u(4)] assms(2) udp(3) in
          \<open>simp_all add: protocol_texts plain_packet_def\<close>)
  next
    case tcp
    obtain u where u: "parse_transport (word_of_nat 6) s d n
        ([show_nat spt, show_nat dpt, flags_text f] @ opt_arg ''SEQ='' q @ opt_arg ''ACK='' a @ opt_arg ''WIN='' w) None (\<lambda>_. 0) = Done (20 + n, u, None)"
      "take 16 (mem_bytes (20 + n) u) = take 16 (tcp_header (word_of_nat spt) (word_of_nat dpt) (htonl (word_of_nat q)) (htonl (word_of_nat a)) 5 f (word_of_nat w))"
      "csum_tcpudp_magic s d (word_of_nat (20 + n)) 6 (csum_partial 0 (mem_bytes (20 + n) u) 0) = 0"
      by (rule generated_tcp [OF tcp(1,2) assms(2) tcp(3-5)])
    show thesis
      by (rule that [of 6 "20 + n" u])
        (use parse_packet_plain [OF _ _ u(1), of cmd] describe_tcp [OF tcp(1,2) assms(2) tcp(3-5) u(2) _ u(3)] assms(2) tcp(6) in
          \<open>simp_all add: protocol_texts plain_packet_def\<close>)
  qed
qed

text \<open>
  C15. The description of a generated packet is the command that generates it, if the command is written as \<open>describe\<close> writes (\<open>plain_args\<close>): the
  protocol as the number 17 or 6, ports and other numbers in decimal without leading zeros, the TCP flags in the order of \<open>describe\<close>, then
  SEQ, ACK and WIN in this order and only when they are not 0, no other options, and at most 65475 bytes of data. \<open>gen_ip\<close> accepts the addresses, the length
  and such arguments, and what \<open>describe\<close> prints for the packet it builds is exactly these words again.
\<close>

theorem describe_generated:
  assumes "plain_args args" "n \<le> 65475"
  shows "\<exists>p flags'. parse_packet (cmd # dotted s # dotted d # show_nat n # args) None = Done (p, flags') \<and>
    describe [] (int (tot_len p)) (packet_bytes (tot_len p) p) flags' = Ok (join_words (dotted s # dotted d # show_nat n # args))"
proof -
  from generated_described [OF assms, of cmd s d] obtain k len u where
    g: "parse_packet (cmd # dotted s # dotted d # show_nat n # args) None = Done (plain_packet s d k len u, None)" "len \<le> 65515"
    "describe [] (int (20 + len)) (plain_header s d k len @ mem_bytes len u) None = Ok (join_words (dotted s # dotted d # show_nat n # args))" .
  show ?thesis using g(1,3) plain_packet_bytes [OF g(2), of s d k u] by simp
qed

theorem describe_generated_witness:
  "\<exists>p flags'. parse_packet [''gen_ip'', ''10.0.0.1'', ''10.0.0.2'', ''4'', ''17'', ''1024'', ''53''] None = Done (p, flags') \<and>
    describe [] (int (tot_len p)) (packet_bytes (tot_len p) p) flags' = Ok ''10.0.0.1 10.0.0.2 4 17 1024 53''"
proof -
  have a: "dotted 0x0100000A = ''10.0.0.1''" "dotted 0x0200000A = ''10.0.0.2''" "show_nat 4 = ''4''" "show_nat 1024 = ''1024''" "show_nat 53 = ''53''"
    by code_simp+
  have "plain_args [''17'', ''1024'', ''53'']"
    unfolding plain_args_def by (rule disjI1, rule exI [of _ 1024], rule exI [of _ 53]) (simp add: a)
  from describe_generated [OF this, of 4 "''gen_ip''" "0x0100000A" "0x0200000A"] show ?thesis by (simp add: a)
qed

text \<open>The description does not depend on the bytes that forwarding changes.\<close>

lemma describe_kept:
  assumes "header_kept h h'" "length h = 20" "csum_partial 0 h 0 = 0xFFFF" "csum_partial 0 h' 0 = 0xFFFF" "h ! 9 \<in> {6, 17}"
  shows "describe [] len (h' @ p) None = describe [] len (h @ p) None"
proof -
  have l: "length h' = 20" and k: "h' ! i = h ! i" if "i \<notin> {8, 10, 11}" for i using assms(1,2) that by (auto simp: header_kept_def)
  have n: "(h' @ p) ! i = (h @ p) ! i" if "i \<notin> {8, 10, 11}" for i using k [OF that] assms(2) l [OF that] by (simp add: nth_append)
  have f: "be16 2 (h' @ p) = be16 2 (h @ p)" "be16 6 (h' @ p) = be16 6 (h @ p)" "addr_at 12 (h' @ p) = addr_at 12 (h @ p)"
    "addr_at 16 (h' @ p) = addr_at 16 (h @ p)" "quad 12 (h' @ p) = quad 12 (h @ p)" "quad 16 (h' @ p) = quad 16 (h @ p)" "(h' @ p) ! 9 = (h @ p) ! 9"
    by (simp_all add: be16_def addr_at_def quad_def n)
  have t: "ip_text (h' @ p) None = ip_text (h @ p) None" by (simp add: ip_text_def f has_flag_def Let_def)
  have d: "drop 20 (h' @ p) = drop 20 (h @ p)" using assms(2) l [of 0] by simp
  have c: "csum_partial 0 (take 20 (h' @ p)) 0 = 0xFFFF" "csum_partial 0 (take 20 (h @ p)) 0 = 0xFFFF" "length (h' @ p) = length (h @ p)"
    using assms(2-4) l [of 0] by simp_all
  have "udp_text (h' @ p) a b m None x = udp_text (h @ p) a b m None x" "tcp_text (h' @ p) a b m None x = tcp_text (h @ p) a b m None x" for a b m x
    unfolding udp_text_def tcp_text_def d f by (rule refl)+
  moreover have "(h @ p) ! 9 \<noteq> IPPROTO_ICMP" using assms(2,5) by (auto simp: nth_append IPPROTO_ICMP_def)
  ultimately show ?thesis
    unfolding describe.simps [of "[]" len "h' @ p" None] describe.simps [of "[]" len "h @ p" None] t f c by (simp only: Let_def if_False)
qed

text \<open>The message about a damaged packet inside an ICMP error is never shown: the blank behind \<^verbatim>\<open>CONTAINS\<close> is removed with it.\<close>

lemma quoted_message_lost:
  "0 \<le> len \<and> len < 20 \<Longrightarrow> describe (t @ ''CONTAINS '') len bs dflags = Ok (t @ ''CONTAINS'')"
  by (subst describe.simps) (simp add: out_unadvanced_def butlast_append)

end
