(* ===== verification/Gen_Command.thy ===== *)
theory Gen_Command
  imports Describe
begin

text \<open>
  The command \<^verbatim>\<open>gen_ip\<close> as the text user interface runs it: the generator and the packet path (Gen\_Send) on the state of the simulator, with
  the lines that \<open>nf_send\<close> and \<open>nf_send_local\<close> of core/core.c log for the packets that leave. A generated datagram or segment is
  shown to be described, when a router sends it on, by the words that asked for it.
\<close>

section \<open>The command and its lines\<close>

record net_state = tui_state +
  ipv4 :: ip_state
  skbs :: skb_world

text \<open>\<open>describe_packet\<close> for the bytes of a packet without a mark. \<open>ld\<close> is \<^verbatim>\<open>log_describe_packets()\<close>; the two buffers hold 1024 bytes.\<close>

definition described :: "bool \<Rightarrow> u8 list \<Rightarrow> string option \<Rightarrow> string outcome" where
  "described ld bs fl =
     (if \<not> ld then Ok []
      else
        bind_outcome (describe [] (int (length bs)) bs fl) (\<lambda>t.
          if int (length t) \<ge> 1016 then Barf ''write past the end of the buffer'' else Ok ('' {IPv4 '' @ t @ ''}'')))"

fun event_lines :: "bool \<Rightarrow> ip_state \<Rightarrow> ip_event list \<Rightarrow> (u32 \<times> string) list outcome" where
  "event_lines ld st [] = Ok []"
| "event_lines ld st (Sent d bs fl # es) =
     bind_outcome (described ld bs fl) (\<lambda>t.
     bind_outcome (event_lines ld st es) (\<lambda>ls. Ok ((LOG_PACKET, send_line (dev_name d st) t) # ls)))"
| "event_lines ld st (Delivered bs fl # es) =
     bind_outcome (described ld bs fl) (\<lambda>t.
     bind_outcome (event_lines ld st es) (\<lambda>ls. Ok ((LOG_PACKET, send_line ''LOCAL'' t) # ls)))"
| "event_lines ld st (At_hook n # es) = event_lines ld st es"
| "event_lines ld st (Freed # es) = event_lines ld st es"

text \<open>
  \<open>msgs\<close> is an argument for the lines that are logged besides: the arrival of the packet (\<^verbatim>\<open>rcv:eth0\<close>), the verdicts of hooks and the messages about routes
  and bad arguments. They are put before the lines of the packets sent; the statements hold whatever they are.
\<close>

definition gen_ip_command ::
    "hooks \<Rightarrow> bool \<Rightarrow> bool \<Rightarrow> (string list \<Rightarrow> ip_event list \<Rightarrow> (u32 \<times> string) list) \<Rightarrow> string list \<Rightarrow> 'z net_state_scheme \<Rightarrow>
     (bool \<times> 'z net_state_scheme) outcome" where
  "gen_ip_command hook fail_route fail_alloc msgs argv s =
     bind_outcome (gen_ip hook fail_route fail_alloc argv (skbs s) (ipv4 s)) (\<lambda>(es, ok, w, st).
     bind_outcome (event_lines (describe_packets s) st es) (\<lambda>ls.
       Ok (ok, log_lines (msgs argv es @ ls) (s\<lparr>ipv4 := st, skbs := w\<rparr>))))"

section \<open>From the command to the description of what is sent\<close>

text \<open>The header of a generated packet names the route that is looked up for it.\<close>

lemma plain_header_route:
  "iph_daddr (plain_header s d k len @ r) = d" "iph_saddr (plain_header s d k len @ r) = s" "iph_tos (plain_header s d k len @ r) = 0"
  "plain_header s d k len ! 8 = 255" "plain_header s d k len ! 9 = word_of_nat k"
  using plain_header_nth [of 8 s d k len "[]"] plain_header_nth [of 9 s d k len "[]"]
  by (simp_all add: iph_daddr_def iph_saddr_def iph_tos_def get32_def plain_header_nth bytes32_def)

lemma gen_ip_described:
  assumes "cache_ok st" "interface_by_name name st = Some dev" "ifindex dev \<noteq> 0" "plain_args args" "n \<le> 65475"
    and "input_entry d s 0 st = Some e" "rt_input e \<noteq> Ip_local_deliver"
  obtains bs w' st' where "gen_ip accept_all fr fa (cmd # (''IF='' @ name) # dotted s # dotted d # show_nat n # args) w st =
      Ok ([At_hook NF_IP_PRE_ROUTING, At_hook NF_IP_FORWARD, At_hook NF_IP_POST_ROUTING, Sent (rt_dev e) bs None, Freed], True, w', st')"
    "same_routing st st'" "unat (bs ! 8) = 254" "describe [] (int (length bs)) bs None = Ok (join_words (dotted s # dotted d # show_nat n # args))"
proof -
  from generated_described [OF assms(4,5), of "''IF='' @ name" s d] obtain k len u where
    g: "parse_packet ((''IF='' @ name) # dotted s # dotted d # show_nat n # args) None = Done (plain_packet s d k len u, None)"
    and k: "k \<in> {6, 17}" and len: "len \<le> 65515"
    and t: "describe [] (int (20 + len)) (plain_header s d k len @ mem_bytes len u) None = Ok (join_words (dotted s # dotted d # show_nat n # args))" .
  let ?h = "plain_header s d k len"
  have p: "iph (plain_packet s d k len u) = ?h" "raw_data (plain_packet s d k len u) = u" by (simp_all add: plain_packet_def)
  note r = plain_header_route [of s d k len] and b = plain_packet_bytes [OF len, of s d k u]
  have "20 \<le> tot_len (plain_packet s d k len u)" "2 \<le> unat (iph (plain_packet s d k len u) ! 8)" using b(1) r(4) p(1) by simp_all
  from gen_ip_spec [OF assms(1-3) g this, of fr fa cmd w] assms(6,7)
  obtain w' st' h' where
    o: "gen_ip accept_all fr fa (cmd # (''IF='' @ name) # dotted s # dotted d # show_nat n # args) w st =
      Ok ([At_hook NF_IP_PRE_ROUTING, At_hook NF_IP_FORWARD, At_hook NF_IP_POST_ROUTING, Sent (rt_dev e) (h' @ mem_bytes len u) None, Freed], True, w', st')"
    and h': "same_routing st st'" "csum_partial 0 h' 0 = 0xFFFF" "unat (h' ! 8) = 254" "header_kept ?h h'"
    unfolding b p r by (simp only: option.case if_False diff_add_inverse) auto
  have l: "length h' = 20" using h'(4) by (simp add: header_kept_def)
  have "?h ! 9 \<in> {6, 17}" using r(5) k by auto
  from describe_kept [OF h'(4) plain_header_length plain_header_fields(3) [OF len] h'(2) this, of "int (20 + len)" "mem_bytes len u"] t
  have "describe [] (int (length (h' @ mem_bytes len u))) (h' @ mem_bytes len u) None = Ok (join_words (dotted s # dotted d # show_nat n # args))"
    using l by simp
  moreover have "unat ((h' @ mem_bytes len u) ! 8) = 254" using h'(3) l by (simp add: nth_append)
  ultimately show thesis using that [OF o h'(1)] by blast
qed

lemma dotted_length: "length (dotted a) \<le> 15"
  unfolding dotted_def quad_def
  using show_byte_length [of "bytes32 a ! 0"] show_byte_length [of "bytes32 a ! (0 + 1)"] show_byte_length [of "bytes32 a ! (0 + 2)"]
    show_byte_length [of "bytes32 a ! (0 + 3)"] by simp

lemma flags_text_length: "length (flags_text f) \<le> 40"
  by (simp add: flags_text_def tcp_flag_names_def Let_def)

text \<open>The command logs one line of a packet sent.\<close>

lemma gen_ip_command_line:
  fixes u :: "'z net_state_scheme"
  assumes "cache_ok (ipv4 u)" "interface_by_name name (ipv4 u) = Some dev" "ifindex dev \<noteq> 0" "plain_args args" "n \<le> 65475"
    and "input_entry d s 0 (ipv4 u) = Some e" "rt_input e \<noteq> Ip_local_deliver" "describe_packets u"
  defines "descr \<equiv> join_words (dotted s # dotted d # show_nat n # args)"
  assumes "int (length descr) < 1016"
  obtains ms w' st' where "gen_ip_command accept_all fr fa msgs (cmd # (''IF='' @ name) # dotted s # dotted d # show_nat n # args) u =
      Ok (True, log_lines (ms @ [(LOG_PACKET, send_line (dev_name (rt_dev e) (ipv4 u)) ('' {IPv4 '' @ descr @ ''}''))]) (u\<lparr>ipv4 := st', skbs := w'\<rparr>))"
    "same_routing (ipv4 u) st'"
proof -
  let ?argv = "cmd # (''IF='' @ name) # dotted s # dotted d # show_nat n # args"
  obtain bs w' st' where g: "gen_ip accept_all fr fa ?argv (skbs u) (ipv4 u) =
      Ok ([At_hook NF_IP_PRE_ROUTING, At_hook NF_IP_FORWARD, At_hook NF_IP_POST_ROUTING, Sent (rt_dev e) bs None, Freed], True, w', st')"
    "same_routing (ipv4 u) st'" "describe [] (int (length bs)) bs None = Ok descr"
    unfolding descr_def by (rule gen_ip_described [OF assms(1-7), of fr fa cmd "skbs u"]) blast
  let ?es = "[At_hook NF_IP_PRE_ROUTING, At_hook NF_IP_FORWARD, At_hook NF_IP_POST_ROUTING, Sent (rt_dev e) bs None, Freed]"
  have "event_lines (describe_packets u) st' ?es = Ok [(LOG_PACKET, send_line (dev_name (rt_dev e) (ipv4 u)) ('' {IPv4 '' @ descr @ ''}''))]"
    using assms(8,10) g(2,3) by (simp add: described_def same_routing_def)
  then show thesis using that [of "msgs ?argv ?es" w' st'] g(1,2) by (simp add: gen_ip_command_def)
qed

end
