(* ===== verification/Tcpsession.thy ===== *)
theory Tcpsession
  imports Gen_Command
begin

text \<open>
  The \<^verbatim>\<open>tcpsession\<close> command, tools/tcpsession.c: a TCP connection played through the commands \<^verbatim>\<open>expect\<close> and \<^verbatim>\<open>gen_ip\<close>. The
  sequence numbers of the two ends are shown to stay in step, and an expectation of the command to be the description of the
  packet that it generates.
\<close>

section \<open>The session\<close>

record tcp_endpoint =
  te_interface :: string
  te_src :: string
  te_dst :: string
  te_spt :: string
  te_dpt :: string
  te_seq :: u32
  te_ack :: u32

record tcpsession_rec =
  original :: tcp_endpoint
  reply :: tcp_endpoint
  lenchange :: "32 word"

record session_state = net_state +
  curr :: "tcpsession_rec option"

text \<open>The pointers \<^verbatim>\<open>&curr->original\<close> and \<^verbatim>\<open>&curr->reply\<close>.\<close>

datatype direction = Original | Reply

fun other :: "direction \<Rightarrow> direction" where
  "other Original = Reply"
| "other Reply = Original"

fun endpoint :: "direction \<Rightarrow> tcpsession_rec \<Rightarrow> tcp_endpoint" where
  "endpoint Original ses = original ses"
| "endpoint Reply ses = reply ses"

fun on_endpoint :: "direction \<Rightarrow> (tcp_endpoint \<Rightarrow> tcp_endpoint) \<Rightarrow> tcpsession_rec \<Rightarrow> tcpsession_rec" where
  "on_endpoint Original f ses = ses\<lparr>original := f (original ses)\<rparr>"
| "on_endpoint Reply f ses = ses\<lparr>reply := f (reply ses)\<rparr>"

section \<open>One packet\<close>

definition expect_args :: "tcp_endpoint \<Rightarrow> 32 word \<Rightarrow> string \<Rightarrow> string list" where
  "expect_args out len flags =
     [''expect'', ''gen_ip'', ''send:'' @ te_interface out,
      ''{IPv4 '' @ te_dst out @ '' '' @ te_src out @ '' '' @ show_i len @ '' 6 '' @ te_dpt out @ '' '' @ te_spt out @ '' '' @ flags @
      '' SEQ='' @ show_uint (te_ack out) @ '' ACK='' @ show_uint (te_seq out) @ ''*}'']"

definition gen_ip_args :: "tcp_endpoint \<Rightarrow> 32 word \<Rightarrow> string \<Rightarrow> string option \<Rightarrow> string list \<Rightarrow> string list" where
  "gen_ip_args inn datalen flags win data =
     [''gen_ip'', ''IF='' @ te_interface inn, te_src inn, te_dst inn, show_i datalen, ''6'', te_spt inn, te_dpt inn, flags,
      ''SEQ='' @ show_uint (te_seq inn), ''ACK='' @ show_uint (te_ack inn)] @
     (case win of None \<Rightarrow> [] | Some w \<Rightarrow> [w]) @
     (if data = [] then [] else ''DATA'' # data)"

text \<open>
  The commands and hooks are arguments. The array of arguments has 1024 elements, the last one for the terminating
  \<^verbatim>\<open>NULL\<close>. The session is read again for the second command.
\<close>

type_synonym 'z session_run = "(bool \<times> 'z session_state_scheme) outcome"

definition the_session :: "'z session_state_scheme \<Rightarrow> (tcpsession_rec \<Rightarrow> 'a outcome) \<Rightarrow> 'a outcome" where
  "the_session s f = (case curr s of None \<Rightarrow> Barf ''NULL pointer'' | Some ses \<Rightarrow> f ses)"

type_synonym 'z session_env = "'z session_state_scheme command_entry list \<times> 'z session_state_scheme pre_post_hook list"

definition tcp_send ::
    "'z session_env \<Rightarrow> direction \<Rightarrow> 32 word \<Rightarrow> string \<Rightarrow> string option \<Rightarrow> string list \<Rightarrow> 'z session_state_scheme \<Rightarrow> 'z session_run" where
  "tcp_send env d datalen flags win data s =
     the_session s (\<lambda>ses.
       bind_outcome (tui_do_command (fst env) (snd env) (expect_args (endpoint (other d) ses) (datalen + lenchange ses) flags) False s) (\<lambda>(ok, s).
         if \<not> ok then Ok (False, s)
         else the_session s (\<lambda>ses.
           let argv = gen_ip_args (endpoint d ses) datalen flags win data in
           if length argv \<ge> 1024 then Barf ''argument array overrun''
           else tui_do_command (fst env) (snd env) argv False s)))"

text \<open>Statements on the fields, and \<^verbatim>\<open>if (!..) return false;\<close>.\<close>

definition on_session :: "(tcpsession_rec \<Rightarrow> tcpsession_rec) \<Rightarrow> 'z session_state_scheme \<Rightarrow> 'z session_state_scheme" where
  "on_session f s = s\<lparr>curr := map_option f (curr s)\<rparr>"

definition add_seq :: "direction \<Rightarrow> u32 \<Rightarrow> 'z session_state_scheme \<Rightarrow> 'z session_state_scheme" where
  "add_seq d n = on_session (on_endpoint d (\<lambda>e. e\<lparr>te_seq := te_seq e + n\<rparr>))"

definition add_ack :: "direction \<Rightarrow> u32 \<Rightarrow> 'z session_state_scheme \<Rightarrow> 'z session_state_scheme" where
  "add_ack d n = on_session (on_endpoint d (\<lambda>e. e\<lparr>te_ack := te_ack e + n\<rparr>))"

definition if_sent :: "'z session_run \<Rightarrow> ('z session_state_scheme \<Rightarrow> 'z session_run) \<Rightarrow> 'z session_run" where
  "if_sent r k = bind_outcome r (\<lambda>(ok, s). if ok then k s else Ok (False, s))"

definition drop_session :: "'z session_state_scheme \<Rightarrow> 'z session_state_scheme" where
  "drop_session s = s\<lparr>curr := None\<rparr>"

section \<open>The operations\<close>

definition new_endpoint :: "string \<Rightarrow> string \<Rightarrow> string \<Rightarrow> string \<Rightarrow> string \<Rightarrow> u32 \<Rightarrow> u32 \<Rightarrow> tcp_endpoint" where
  "new_endpoint i src d spt dpt q a =
     \<lparr>te_interface = i, te_src = src, te_dst = d, te_spt = spt, te_dpt = dpt, te_seq = q, te_ack = a\<rparr>"

definition open_session ::
    "'z session_env \<Rightarrow> string \<Rightarrow> string \<Rightarrow> string \<Rightarrow> string \<Rightarrow> string \<Rightarrow> string \<Rightarrow> string \<Rightarrow> string \<Rightarrow>
     'z session_state_scheme \<Rightarrow> 'z session_run" where
  "open_session env src d spt dpt reply_src reply_dst reply_spt reply_dpt s =
     (let s = s\<lparr>curr := Some \<lparr>original = new_endpoint ''eth0'' src d spt dpt 1000 2000,
                               reply = new_endpoint ''eth1'' reply_src reply_dst reply_spt reply_dpt 2000 1000, lenchange = 0\<rparr>\<rparr>
      in bind_outcome
           (if_sent (tcp_send env Original 0 ''SYN'' (Some ''WIN=512'') [] s) (\<lambda>s.
            if_sent (tcp_send env Reply 0 ''SYN/ACK'' (Some ''WIN=512'') [] (add_ack Reply 1 (add_seq Original 1 s))) (\<lambda>s.
            tcp_send env Original 0 ''ACK'' (Some ''WIN=512'') [] (add_ack Original 1 (add_seq Reply 1 s)))))
           (\<lambda>(ok, s). Ok (ok, if ok then s else drop_session s)))"

definition send_data :: "'z session_env \<Rightarrow> direction \<Rightarrow> string list \<Rightarrow> 'z session_state_scheme \<Rightarrow> 'z session_run" where
  "send_data env d data s =
     bind_outcome (case gen_ip_data_length True data of Done n \<Rightarrow> Ok (word_of_nat n) | Bad _ \<Rightarrow> Ok (- 1) | Crash m \<Rightarrow> Barf m) (\<lambda>len.
       if_sent (tcp_send env d len ''ACK'' None data s) (\<lambda>s.
         the_session s (\<lambda>ses.
           tcp_send env (other d) 0 ''ACK'' (Some ''WIN=512'') []
             (on_session (lenchange_update (\<lambda>_. 0)) (add_ack (other d) (len + lenchange ses) (add_seq d len s))))))"

definition close_session :: "'z session_env \<Rightarrow> direction \<Rightarrow> 'z session_state_scheme \<Rightarrow> 'z session_run" where
  "close_session env d s =
     if_sent (tcp_send env d 0 ''FIN/ACK'' None [] s) (\<lambda>s.
     if_sent (tcp_send env (other d) 0 ''FIN/ACK'' None [] (add_ack (other d) 1 (add_seq d 1 s))) (\<lambda>s.
     if_sent (tcp_send env d 0 ''ACK'' None [] (add_ack d 1 (add_seq (other d) 1 s))) (\<lambda>s.
     Ok (True, drop_session s))))"

definition reset_session :: "'z session_env \<Rightarrow> direction \<Rightarrow> 'z session_state_scheme \<Rightarrow> 'z session_run" where
  "reset_session env d s = if_sent (tcp_send env d 0 ''RST'' None [] s) (\<lambda>s. Ok (True, drop_session s))"

definition complain_open :: "string \<Rightarrow> 'z session_state_scheme \<Rightarrow> 'z session_run" where
  "complain_open msg s = Ok (False, snd (nfsim_log LOG_ALWAYS msg s))"

text \<open>
  The handler. The help texts are printed without changing state. For CLOSE and RESET with another direction than the two the
  code falls through the remaining comparisons to the help text.
\<close>

definition direction_of :: "string \<Rightarrow> direction option" where
  "direction_of a = (if a = ''original'' then Some Original else if a = ''reply'' then Some Reply else None)"

definition tcpsession :: "'z session_env \<Rightarrow> string list \<Rightarrow> 'z session_state_scheme \<Rightarrow> 'z session_run" where
  "tcpsession env argv s =
     (let argc = length argv; closed = (curr s = None); help = Ok (False, s) in
      if argc < 2 then help
      else if argv ! 1 = ''OPEN'' then
        if \<not> closed then complain_open ''Session already open!'' s
        else if argc = 6 then open_session env (argv ! 2) (argv ! 3) (argv ! 4) (argv ! 5) (argv ! 3) (argv ! 2) (argv ! 5) (argv ! 4) s
        else if argc = 10 then
          open_session env (argv ! 2) (argv ! 3) (argv ! 4) (argv ! 5) (argv ! 6) (argv ! 7) (argv ! 8) (argv ! 9) s
        else help
      else if argv ! 1 = ''DATA'' then
        if closed then complain_open ''Session not open!'' s
        else if argc < 3 then help
        else (case direction_of (argv ! 2) of Some d \<Rightarrow> send_data env d (drop 3 argv) s | None \<Rightarrow> help)
      else if argv ! 1 = ''LENCHANGE'' then
        if argc \<noteq> 3 then help
        else if atoi (argv ! 2) = 0 then help
        else the_session s (\<lambda>_. Ok (True, on_session (lenchange_update (\<lambda>_. atoi (argv ! 2))) s))
      else if argv ! 1 = ''CLOSE'' then
        if closed then complain_open ''Session not open!'' s
        else if argc \<noteq> 3 then help
        else (case direction_of (argv ! 2) of Some d \<Rightarrow> close_session env d s | None \<Rightarrow> help)
      else if argv ! 1 = ''RESET'' then
        if closed then complain_open ''Session not open!'' s
        else if argc \<noteq> 3 then help
        else (case direction_of (argv ! 2) of Some d \<Rightarrow> reset_session env d s | None \<Rightarrow> help)
      else if argv ! 1 = ''ABANDON'' then
        if closed then complain_open ''Session not open!'' s
        else if argc \<noteq> 2 then help
        else Ok (True, drop_session s)
      else help)"

section \<open>The sequence numbers of the two ends\<close>

text \<open>
  What the commands that a session uses, and the hooks run with every command, may do: anything but touch the session, which
  is private to tools/tcpsession.c.
\<close>

definition keeps_session :: "'z session_env \<Rightarrow> bool" where
  "keeps_session env \<longleftrightarrow>
     (\<forall>cmd \<in> set (fst env). cmd_name cmd \<in> {''expect'', ''gen_ip''} \<longrightarrow>
        (\<forall>argv s ok s'. cmd_handler cmd argv s = Ok (ok, s') \<longrightarrow> curr s' = curr s)) \<and>
     (\<forall>h \<in> set (snd env). (\<forall>p n s. pre h = Some p \<longrightarrow> curr (p n s) = curr s) \<and>
        (\<forall>q n s ok s'. post h = Some q \<longrightarrow> q n s = Ok (ok, s') \<longrightarrow> curr s' = curr s))"

lemma curr_nfsim_log [simp]: "curr (snd (nfsim_log ty line s)) = curr s"
  by (simp add: nfsim_log_def expect_log_hook_def split: list.split)

lemma pre_keeps: "\<forall>h \<in> set hs. \<forall>p n s. pre h = Some p \<longrightarrow> curr (p n s) = curr s \<Longrightarrow> curr (do_pre_commands hs n s) = curr s"
  by (induction hs arbitrary: s) (auto split: option.split)

lemma post_keeps:
  "\<forall>h \<in> set hs. \<forall>q n s ok s'. post h = Some q \<longrightarrow> q n s = Ok (ok, s') \<longrightarrow> curr s' = curr s \<Longrightarrow>
   do_post_commands hs n s = Ok (ok, s') \<Longrightarrow> curr s' = curr s"
proof (induction hs arbitrary: s ok)
  case (Cons h hs)
  then obtain a t b where t: "(case post h of Some p \<Rightarrow> p n s | None \<Rightarrow> Ok (True, s)) = Ok (a, t)" "do_post_commands hs n t = Ok (b, s')"
    by (auto simp: bind_outcome_Ok_iff)
  then have "curr t = curr s" using Cons.prems(1) by (auto split: option.splits)
  then show ?case using Cons.IH [OF _ t(2)] Cons.prems(1) by simp
qed simp

lemma command_keeps:
  assumes "keeps_session env" "argv ! 0 \<in> {''expect'', ''gen_ip''}" "tui_do_command (fst env) (snd env) argv False s = Ok (ok, s')"
  shows "curr s' = curr s"
proof (cases "find_command (argv ! 0) (fst env)")
  case None
  then show ?thesis using assms(3) by (auto simp: tui_do_command_def)
next
  case (Some cmd)
  have n: "cmd_name cmd = argv ! 0" "cmd \<in> set (fst env)" using Some cmds.lookup_key by blast+
  from assms(3) Some obtain a t b u where t: "cmd_handler cmd argv (do_pre_commands (snd env) (cmd_name cmd) s) = Ok (a, t)"
    "u = t \<or> u = snd (nfsim_log LOG_UI (argv ! 0 @ '': command failed'') t)"
    "do_post_commands (snd env) (cmd_name cmd) u = Ok (b, s')"
    by (auto simp: tui_do_command_def bind_outcome_Ok_iff Let_def case_prod_beta split: if_splits)
  have "curr t = curr s"
    using t(1) n assms(1,2) pre_keeps [of "snd env" "cmd_name cmd" s] unfolding keeps_session_def by metis
  moreover have "curr u = curr t" using t(2) by auto
  moreover have "curr s' = curr u"
    using assms(1) by (intro post_keeps [OF _ t(3)]) (auto simp: keeps_session_def)
  ultimately show ?thesis by simp
qed

lemma gen_ip_args_head: "gen_ip_args e len flags win data ! 0 = ''gen_ip''"
  by (simp add: gen_ip_args_def)

lemma tcp_send_keeps:
  assumes "keeps_session env" "tcp_send env d len flags win data s = Ok (ok, s')"
  shows "curr s' = curr s" "curr s \<noteq> None"
proof -
  obtain ses where ses: "curr s = Some ses" using assms(2) by (cases "curr s") (auto simp: tcp_send_def the_session_def)
  show "curr s \<noteq> None" using ses by simp
  obtain a t where t: "tui_do_command (fst env) (snd env) (expect_args (endpoint (other d) ses) (len + lenchange ses) flags) False s = Ok (a, t)"
    "t = s' \<or> (\<exists>argv. argv ! 0 = ''gen_ip'' \<and> tui_do_command (fst env) (snd env) argv False t = Ok (ok, s'))"
    using assms(2) ses unfolding tcp_send_def
    by (auto simp: the_session_def bind_outcome_Ok_iff Let_def split: if_splits option.splits intro: gen_ip_args_head)
  have "curr t = curr s" using command_keeps [OF assms(1) _ t(1)] by (simp add: expect_args_def)
  moreover have "curr s' = curr t" using t(2) command_keeps [OF assms(1), of _ t ok s'] by auto
  ultimately show "curr s' = curr s" by simp
qed

text \<open>
  The abstract session: by how much the acknowledged numbers of each direction differ from the sent ones, and the change of
  length announced for the next data.
\<close>

type_synonym offsets = "(direction \<Rightarrow> u32) \<times> u32"

definition abs_session :: "'z session_state_scheme \<Rightarrow> offsets option" where
  "abs_session s = map_option (\<lambda>ses. (\<lambda>d. te_ack (endpoint (other d) ses) - te_seq (endpoint d ses), lenchange ses)) (curr s)"

definition session_spec :: "string list \<Rightarrow> offsets option \<Rightarrow> offsets option" where
  "session_spec argv a =
     (if argv ! 1 = ''OPEN'' then Some (\<lambda>_. 0, 0)
      else if argv ! 1 = ''LENCHANGE'' then map_option (\<lambda>(off, _). (off, atoi (argv ! 2))) a
      else if argv ! 1 = ''DATA''
      then map_option (\<lambda>(off, change). (\<lambda>d. if direction_of (argv ! 2) = Some d then off d + change else off d, 0)) a
      else None)"

lemma other_other [simp]: "other (other d) = d" "other d \<noteq> d" "d \<noteq> other d"
  by (cases d; simp)+

lemma other_eq [simp]: "other x = other d \<longleftrightarrow> x = d"
  by (cases x; cases d; simp)

lemma all_directions: "(\<forall>d. P d) \<longleftrightarrow> P Original \<and> P Reply"
  by (metis direction.exhaust)

lemma endpoint_on [simp]: "endpoint d (on_endpoint e f ses) = (if d = e then f (endpoint d ses) else endpoint d ses)"
  "lenchange (on_endpoint e f ses) = lenchange ses" "endpoint d (lenchange_update g ses) = endpoint d ses"
  by (cases d; cases e; simp)+

lemma endpoint_record [simp]:
  "endpoint d \<lparr>original = x, reply = y, lenchange = n\<rparr> = (if d = Original then x else y)"
  by (cases d) simp_all

lemma abs_curr: "curr s' = curr s \<Longrightarrow> abs_session s' = abs_session s"
  by (simp add: abs_session_def)

lemma curr_on_session [simp]: "curr (on_session f s) = map_option f (curr s)"
  by (simp add: on_session_def)

text \<open>A number sent and counted by the other end leaves the offsets as they are.\<close>

lemma abs_counted: "abs_session (add_ack (other d) n (add_seq d n s)) = abs_session s"
  by (cases "curr s") (auto simp: abs_session_def add_ack_def add_seq_def fun_eq_iff, (metis direction.exhaust other_other)?)

lemma abs_counted': "abs_session (add_ack d n (add_seq (other d) n s)) = abs_session s"
  using abs_counted [of "other d" n s] by simp

lemma if_sent_Ok: "if_sent r k = Ok (ok, s') \<longleftrightarrow> (\<exists>t. r = Ok (True, t) \<and> k t = Ok (ok, s')) \<or> (\<not> ok \<and> r = Ok (False, s'))"
  by (auto simp: if_sent_def bind_outcome_Ok_iff split: if_splits)

lemma abs_sent: "keeps_session env \<Longrightarrow> tcp_send env d len flags win data s = Ok (ok, s') \<Longrightarrow> abs_session s' = abs_session s"
  by (rule abs_curr) (rule tcp_send_keeps)

lemma abs_drop [simp]: "abs_session (drop_session s) = None"
  by (simp add: abs_session_def drop_session_def)

lemma abs_data:
  "curr s = Some ses \<Longrightarrow>
   abs_session (on_session (lenchange_update (\<lambda>_. 0)) (add_ack (other d) (len + lenchange ses) (add_seq d len s))) =
   map_option (\<lambda>(off, change). (\<lambda>e. if e = d then off e + change else off e, 0)) (abs_session s)"
  by (auto simp: abs_session_def add_ack_def add_seq_def fun_eq_iff)

lemma open_session_abs:
  assumes "keeps_session env" "open_session env a b c d e f g h s = Ok (ok, s')"
  shows "abs_session s' = (if ok then Some (\<lambda>_. 0, 0) else None)"
proof -
  let ?s = "s\<lparr>curr := Some \<lparr>original = new_endpoint ''eth0'' a b c d 1000 2000, reply = new_endpoint ''eth1'' e f g h 2000 1000, lenchange = 0\<rparr>\<rparr>"
  have "abs_session ?s = Some (\<lambda>_. 0, 0)" by (auto simp: abs_session_def new_endpoint_def fun_eq_iff all_directions)
  then show ?thesis
    using assms(2) unfolding open_session_def Let_def
    by (auto simp: bind_outcome_Ok_iff if_sent_Ok abs_counted [of Original, simplified] abs_counted [of Reply, simplified]
        dest!: abs_sent [OF assms(1)])
qed

lemma send_data_abs:
  assumes "keeps_session env" "send_data env d data s = Ok (ok, s')"
  defines "target \<equiv> map_option (\<lambda>(off, change). (\<lambda>e. if e = d then off e + change else off e, 0)) (abs_session s)"
  shows "abs_session s' = target \<or> \<not> ok \<and> abs_session s' = abs_session s"
proof -
  obtain len where len: "if_sent (tcp_send env d len ''ACK'' None data s) (\<lambda>s.
         the_session s (\<lambda>ses.
           tcp_send env (other d) 0 ''ACK'' (Some ''WIN=512'') []
             (on_session (lenchange_update (\<lambda>_. 0)) (add_ack (other d) (len + lenchange ses) (add_seq d len s))))) = Ok (ok, s')"
    using assms(2) unfolding send_data_def by (auto simp: bind_outcome_Ok_iff)
  then consider "\<not> ok" "tcp_send env d len ''ACK'' None data s = Ok (False, s')"
    | t ses where "tcp_send env d len ''ACK'' None data s = Ok (True, t)" "curr t = Some ses"
      "tcp_send env (other d) 0 ''ACK'' (Some ''WIN=512'') []
             (on_session (lenchange_update (\<lambda>_. 0)) (add_ack (other d) (len + lenchange ses) (add_seq d len t))) = Ok (ok, s')"
    unfolding if_sent_Ok by (auto simp: the_session_def split: option.splits)
  then show ?thesis
  proof cases
    case 1
    then show ?thesis using abs_sent [OF assms(1)] by blast
  next
    case 2
    have "abs_session t = abs_session s" using 2(1) abs_sent [OF assms(1)] by blast
    then show ?thesis using abs_sent [OF assms(1) 2(3)] abs_data [OF 2(2), of d len] unfolding target_def by simp
  qed
qed

lemma close_session_abs:
  assumes "keeps_session env" "close_session env d s = Ok (ok, s')"
  shows "abs_session s' = (if ok then None else abs_session s)"
  using assms(2) unfolding close_session_def
  by (auto simp: if_sent_Ok abs_counted abs_counted' dest!: abs_sent [OF assms(1)])

lemma reset_session_abs:
  assumes "keeps_session env" "reset_session env d s = Ok (ok, s')"
  shows "abs_session s' = (if ok then None else abs_session s)"
  using assms(2) unfolding reset_session_def by (auto simp: if_sent_Ok dest!: abs_sent [OF assms(1)])

lemma tcpsession_abs:
  assumes "keeps_session env" "tcpsession env argv s = Ok (ok, s')"
  shows "if ok then abs_session s' = session_spec argv (abs_session s)
    else abs_session s' = abs_session s \<or> argv ! 1 = ''DATA'' \<and> abs_session s' = session_spec argv (abs_session s)"
proof -
  have log: "abs_session (snd (nfsim_log LOG_ALWAYS msg s)) = abs_session s" for msg by (rule abs_curr) simp
  have lc: "abs_session (on_session (lenchange_update (\<lambda>_. n)) s) = map_option (\<lambda>(off, _). (off, n)) (abs_session s)" for n
    by (cases "curr s") (auto simp: abs_session_def)
  have data: "abs_session s' = session_spec argv (abs_session s) \<or> \<not> ok \<and> abs_session s' = abs_session s"
    if "argv ! 1 = ''DATA''" "direction_of (argv ! 2) = Some d" "send_data env d (drop 3 argv) s = Ok (ok, s')" for d
    using send_data_abs [OF assms(1) that(3)] that(1,2) by (simp add: session_spec_def eq_commute [of d])
  note run = assms(2) [unfolded tcpsession_def complain_open_def Let_def]
  show ?thesis
  proof (cases "length argv < 2")
    case True
    then show ?thesis using run by auto
  next
    case False
    consider "argv ! 1 = ''OPEN''" | "argv ! 1 = ''DATA''" | "argv ! 1 = ''LENCHANGE''" | "argv ! 1 = ''CLOSE''" | "argv ! 1 = ''RESET''"
      | "argv ! 1 = ''ABANDON''" | "argv ! 1 \<notin> {''OPEN'', ''DATA'', ''LENCHANGE'', ''CLOSE'', ''RESET'', ''ABANDON''}" by blast
    then show ?thesis
    proof cases
      case 1
      then show ?thesis using False run open_session_abs [OF assms(1), of _ _ _ _ _ _ _ _ s ok s']
        by (auto simp: log session_spec_def abs_session_def split: if_splits)
    next
      case 2
      then show ?thesis using False run data by (auto simp: log split: if_splits option.splits)
    next
      case 3
      then show ?thesis using False run by (auto simp: lc the_session_def session_spec_def split: if_splits option.splits)
    next
      case 4
      then show ?thesis using False run close_session_abs [OF assms(1), of _ s ok s']
        by (auto simp: log session_spec_def split: if_splits option.splits)
    next
      case 5
      then show ?thesis using False run reset_session_abs [OF assms(1), of _ s ok s']
        by (auto simp: log session_spec_def split: if_splits option.splits)
    next
      case 6
      then show ?thesis using False run by (auto simp: log session_spec_def split: if_splits)
    next
      case 7
      then show ?thesis using False run by auto
    qed
  qed
qed

text \<open>
  C20. A session keeps its two ends in step. Whatever the network does with the packets, a successful command has exactly this
  effect on the difference between what one end has sent and what the other end counts: a new session starts without
  a difference, data shift their direction by the change of length that was announced, which is used up, and closing, resetting
  or abandoning forgets the session. A command that fails leaves the differences as they were, data whose packet got through
  excepted. So without an announcement every end acknowledges exactly what the other has sent.
\<close>

theorem tcpsession_refines:
  assumes "keeps_session env" "tcpsession env argv s = Ok (ok, s')"
  shows "(if ok then abs_session s' = session_spec argv (abs_session s)
      else abs_session s' = abs_session s \<or> argv ! 1 = ''DATA'' \<and> abs_session s' = session_spec argv (abs_session s)) \<and>
    (abs_session s \<in> {None, Some (\<lambda>_. 0, 0)} \<and> argv ! 1 \<noteq> ''LENCHANGE'' \<longrightarrow> abs_session s' \<in> {None, Some (\<lambda>_. 0, 0)})"
  using tcpsession_abs [OF assms] by (auto simp: session_spec_def split: if_splits cong: if_cong)

definition agreeable :: "unit session_env" where
  "agreeable = (map (\<lambda>n. \<lparr>cmd_name = n, cmd_handler = (\<lambda>argv s. Ok (True, s)), cmd_helpfn = None\<rparr>) [''expect'', ''gen_ip''], [])"

definition shifted_session :: session_state where
  "shifted_session = \<lparr>expects = [], cmdstack = [], typemask = 0, logged = [], printk_buf = [], describe_packets = True, tui_linenum = 0, stop = False,
     ipv4 = two_devices, skbs = \<lparr>ct_use = (\<lambda>_. 0), ct_destroyed = [], nfsim_seq = 0, linear_packets = False, stale = 0\<rparr>,
     curr = Some \<lparr>original = new_endpoint ''eth0'' ''10.0.0.1'' ''10.0.1.1'' ''7'' ''21'' 1001 2001,
       reply = new_endpoint ''eth1'' ''10.0.1.1'' ''10.0.0.1'' ''21'' ''7'' 2001 1001, lenchange = 3\<rparr>\<rparr>"

theorem tcpsession_refines_witness:
  "\<exists>s'. tcpsession agreeable [''tcpsession'', ''DATA'', ''original'', ''PORT''] shifted_session = Ok (True, s') \<and>
     abs_session s' = session_spec [''tcpsession'', ''DATA'', ''original'', ''PORT''] (abs_session shifted_session)"
proof -
  have k: "keeps_session agreeable" by (simp add: keeps_session_def agreeable_def)
  have "gen_ip_data_length True [''PORT''] = Done 4" by code_simp
  then obtain s' where "tcpsession agreeable [''tcpsession'', ''DATA'', ''original'', ''PORT''] shifted_session = Ok (True, s')"
    by (simp add: tcpsession_def send_data_def tcp_send_def if_sent_def the_session_def tui_do_command_def agreeable_def direction_of_def
        expect_args_def gen_ip_args_def shifted_session_def on_session_def add_ack_def add_seq_def)
  then show ?thesis using tcpsession_refines [OF k] by fastforce
qed

section \<open>The expectation of a packet\<close>

lemma loosely_same: "CHR ''*'' \<notin> set u \<Longrightarrow> loosely p l \<Longrightarrow> loosely (u @ p) (u @ l)"
proof (induction u)
  case (Cons c u)
  then show ?case
    using blanks [of "[c]" "[c]" "u @ p" "u @ l"] char [of c "u @ p" "u @ l"] by (cases "ws c") auto
qed simp

lemma show_nat_no_star: "CHR ''*'' \<notin> set (show_nat n)"
proof
  assume "CHR ''*'' \<in> set (show_nat n)"
  then have "isdigit CHR ''*''" using show_nat_digits [of n] unfolding list_all_iff by blast
  then show False by (simp add: isdigit_def)
qed

lemma dotted_no_star: "CHR ''*'' \<notin> set (dotted a)"
  by (simp add: dotted_def quad_def show_nat_no_star)

lemma strip_line: "u \<noteq> [] \<Longrightarrow> \<not> ws (hd u) \<Longrightarrow> \<not> ws c \<Longrightarrow> strip (u @ v @ [c]) = u @ v @ [c]"
  by (cases u) (simp_all add: strip_def)

text \<open>
  The program as it is linked: the handlers of \<^verbatim>\<open>expect\<close> and \<^verbatim>\<open>gen_ip\<close> are those of tools/expect.c and tools/gen\_ip.c, no netfilter module
  interferes with packets, and the hooks around a command may log before the one of tools/expect.c runs.
\<close>

definition connected :: "'z session_env \<Rightarrow> bool" where
  "connected env \<longleftrightarrow>
     (\<exists>ec gc fr fa msgs others b.
        find_command ''expect'' (fst env) = Some ec \<and> cmd_handler ec = (\<lambda>argv s. Ok (expect_cmd (tui_is_command (fst env)) argv s)) \<and>
        find_command ''gen_ip'' (fst env) = Some gc \<and> cmd_handler gc = gen_ip_command accept_all fr fa msgs \<and>
        snd env = map logging_hook others @ [expect_hook b])"

text \<open>
  A packet that arrives on \<open>i\<close> from \<open>a\<close> for \<open>b\<close> is not for the simulated machine and has a route through \<open>j\<close>; the two hosts
  \<open>a\<close> and \<open>b\<close> of a session are on either side of it.
\<close>

definition forwards_to :: "string \<Rightarrow> string \<Rightarrow> u32 \<Rightarrow> u32 \<Rightarrow> ip_state \<Rightarrow> bool" where
  "forwards_to i j a b st \<longleftrightarrow>
     (\<exists>dev e. interface_by_name i st = Some dev \<and> ifindex dev \<noteq> 0 \<and> input_entry b a 0 st = Some e \<and> rt_input e \<noteq> Ip_local_deliver \<and>
        dev_name (rt_dev e) st = j)"

definition router :: "u32 \<Rightarrow> u32 \<Rightarrow> ip_state \<Rightarrow> bool" where
  "router a b st \<longleftrightarrow> cache_ok st \<and> forwards_to ''eth0'' ''eth1'' a b st \<and> forwards_to ''eth1'' ''eth0'' b a st"

lemma forwards_to_kept:
  assumes "same_routing st st'" "forwards_to i j a b st"
  shows "forwards_to i j a b st'"
proof -
  obtain dev e where d: "interface_by_name i st = Some dev" "ifindex dev \<noteq> 0" "input_entry b a 0 st = Some e" "rt_input e \<noteq> Ip_local_deliver"
    "dev_name (rt_dev e) st = j" using assms(2) unfolding forwards_to_def by blast
  have "map_option ifindex (interface_by_name i st') = Some (ifindex dev)" using assms(1) d(1) by (simp add: same_routing_def)
  then show ?thesis using assms(1) d by (auto simp: forwards_to_def same_routing_def)
qed

lemma same_routing_cache: "same_routing st st' \<Longrightarrow> cache_ok st \<Longrightarrow> cache_ok st'"
  by (simp add: same_routing_def)

lemma router_kept: "same_routing st st' \<Longrightarrow> router a b st \<Longrightarrow> router a b st'"
  using forwards_to_kept [of st st'] by (auto simp: router_def dest: same_routing_cache)

text \<open>What logging and the expectations leave alone.\<close>

abbreviation surroundings :: "'z session_state_scheme \<Rightarrow> bool \<times> ip_state \<times> tcpsession_rec option" where
  "surroundings s \<equiv> (describe_packets s, ipv4 s, curr s)"

lemma log_surroundings [simp]: "describe_packets (snd (nfsim_log ty line s)) = describe_packets s" "ipv4 (snd (nfsim_log ty line s)) = ipv4 s"
  by (simp_all add: nfsim_log_def expect_log_hook_def split: list.split)

lemma log_lines_surroundings [simp]:
  "describe_packets (log_lines ls s) = describe_packets s" "ipv4 (log_lines ls s) = ipv4 s" "curr (log_lines ls s) = curr s"
  by (induction ls arbitrary: s) (auto simp: log_lines_def)

lemma pre_surroundings [simp]: "surroundings (expect_pre_command n s) = surroundings s"
  by (simp add: expect_pre_command_def)

lemma post_loop_surroundings: "post_loop abort i s = Ok (r, t) \<Longrightarrow> surroundings t = surroundings s"
proof (induction abort i s arbitrary: r rule: post_loop.induct)
  case (1 abort i s)
  let ?e = "expects s ! i" and ?s = "snd (nfsim_log LOG_UI (verdict_line (expects s ! i)) s)"
  note run = 1(4) [unfolded post_loop.simps [of abort i s] Let_def]
  consider "i \<ge> length (expects s)" | "i < length (expects s)" "hd (cmdstack s) \<noteq> command ?e"
    | "i < length (expects s)" "hd (cmdstack s) = command ?e" "failed ?e" | "i < length (expects s)" "hd (cmdstack s) = command ?e" "\<not> failed ?e"
    by linarith
  then show ?case
  proof cases
    case 1
    then show ?thesis using run by simp
  next
    case 2
    then show ?thesis using run 1(1) [of ?e r] by simp
  next
    case 3
    then have "\<not> abort" using run by auto
    with 3 run obtain r' where "post_loop abort i (?s\<lparr>expects := remove_nth i (expects ?s)\<rparr>) = Ok (r', t)"
      by (auto simp: bind_outcome_Ok_iff)
    then show ?thesis using 1(2) [of ?e ?s r'] 3 \<open>\<not> abort\<close> by simp
  next
    case 4
    then show ?thesis using run 1(3) [of ?e r] by simp
  qed
qed

lemma expect_post_surroundings: "expect_post_command b s = Ok (r, t) \<Longrightarrow> surroundings t = surroundings s"
  by (auto simp: expect_post_command_def bind_outcome_Ok_iff dest: post_loop_surroundings split: if_splits)

lemma expect_post_satisfied:
  fixes s :: "'z session_state_scheme"
  assumes "cmdstack s = cmd # st" "expects s = map (mark cmd ls) es" "\<forall>e \<in> set es. command e = cmd \<longrightarrow> \<not> matched e \<and> satisfied ls e"
  shows "\<exists>t. expect_post_command b s = Ok (True, t) \<and> expects t = filter (\<lambda>e. command e \<noteq> cmd) es \<and> cmdstack t = st \<and> surroundings t = surroundings s"
proof -
  have a: "\<forall>e \<in> set es. command e = cmd \<longrightarrow> \<not> matched e" "\<forall>e \<in> set es. command e = cmd \<longrightarrow> satisfied ls e" using assms(3) by auto
  have g: "(\<forall>e \<in> set es. command e = cmd \<longrightarrow> satisfied ls e) = True" using a(2) by simp
  have "expect_post_command True s = expect_post_command False s"
    using expect_post_abort [OF assms(1,2) a(1)] unfolding g by simp
  then have b: "expect_post_command b s = expect_post_command False s" by (cases b) (simp_all only:)
  obtain t where t: "expect_post_command False s = Ok (True, t)" "expects t = filter (\<lambda>e. command e \<noteq> cmd) es" "cmdstack t = st"
    using expect_post_spec [OF assms(1,2) a(1)] unfolding g by blast
  then have "surroundings t = surroundings s" using expect_post_surroundings by blast
  then show ?thesis using t unfolding b by blast
qed

lemma expect_round:
  assumes "connected env" "\<forall>e \<in> set (expects s). command e \<noteq> ''expect''"
  shows "\<exists>t. tui_do_command (fst env) (snd env) (expect_args out len flags) False s = Ok (True, t) \<and>
    expects t = \<lparr>invert = False, matched = False, command = ''gen_ip'', pattern = join_words (drop 2 (expect_args out len flags))\<rparr> # expects s \<and>
    cmdstack t = cmdstack s \<and> surroundings t = surroundings s"
proof -
  obtain ec gc others b where e: "find_command ''expect'' (fst env) = Some ec"
    "cmd_handler ec = (\<lambda>argv s. Ok (expect_cmd (tui_is_command (fst env)) argv s))"
    "find_command ''gen_ip'' (fst env) = Some gc" "snd env = map logging_hook others @ [expect_hook b]"
    using assms(1) unfolding connected_def by blast
  let ?new = "\<lparr>invert = False, matched = False, command = ''gen_ip'', pattern = join_words (drop 2 (expect_args out len flags))\<rparr>"
  let ?s = "(expect_pre_command ''expect'' s)\<lparr>expects := ?new # expects s\<rparr>"
  have st: "cmdstack ?s = ''expect'' # cmdstack s" "expects ?s = ?new # expects s" by (simp_all add: expect_pre_command_def)
  have c: "expect_cmd (tui_is_command (fst env)) (expect_args out len flags) (expect_pre_command ''expect'' s) = (True, ?s)"
    using e(3) by (simp add: expect_cmd_def expect_args_def tui_is_command_def expect_pre_command_def)
  obtain t where t: "expect_post_command b (log_lines (concat others) ?s) = Ok (True, t)"
    "expects t = filter (\<lambda>e. command e \<noteq> ''expect'') (?new # expects s)" "cmdstack t = cmdstack s" "surroundings t = surroundings s"
    using expect_post_satisfied [of "log_lines (concat others) ?s" "''expect''" "cmdstack s" "map snd (concat others)" "?new # expects s" b]
      log_lines_marks [OF st(1), of "concat others"] assms(2) by (auto simp: expect_pre_command_def)
  have n: "expect_args out len flags ! 0 = ''expect''" "cmd_name ec = ''expect''"
    using e(1) find_command_name by (auto simp: expect_args_def)
  have "tui_do_command (fst env) (snd env) (expect_args out len flags) False s = Ok (True, t)"
    unfolding tui_do_command_def n e(1) option.case e(2,4) pre_logging post_logging post_expect
    using t(1) c by (simp add: expect_hook_def n post_expect)
  then show ?thesis using t assms(2) by (auto simp: filter_id_conv)
qed

text \<open>The two ends of a connection that nothing on the way changes.\<close>

definition plain_end :: "string \<Rightarrow> u32 \<Rightarrow> u32 \<Rightarrow> nat \<Rightarrow> nat \<Rightarrow> u32 \<Rightarrow> u32 \<Rightarrow> tcp_endpoint" where
  "plain_end i a b sp dp q k = new_endpoint i (dotted a) (dotted b) (show_nat sp) (show_nat dp) q k"

definition window :: "nat \<Rightarrow> string option" where
  "window w = (if w = 0 then None else Some (''WIN='' @ show_nat w))"

definition segment_text :: "u32 \<Rightarrow> u32 \<Rightarrow> nat \<Rightarrow> nat \<Rightarrow> u8 \<Rightarrow> u32 \<Rightarrow> u32 \<Rightarrow> string" where
  "segment_text a b sp dp f q k =
     dotted a @ '' '' @ dotted b @ '' 0 6 '' @ show_nat sp @ '' '' @ show_nat dp @ '' '' @ flags_text f @
     '' SEQ='' @ show_nat (unat q) @ '' ACK='' @ show_nat (unat k)"

lemma u32_number: "unat (q :: u32) = 0 \<longleftrightarrow> q = 0" "int (unat q) < 4294967296"
  using uint_lt2p [of q] by (simp_all add: unsigned_eq_0_iff)

lemma show_i_0: "show_i 0 = ''0''"
  by (simp add: show_i_def show_int_def show_nat.simps digit_chars)

lemma expected_pattern:
  "join_words (drop 2 (expect_args (plain_end i b a dp sp k q) 0 (flags_text f))) =
   ''send:'' @ i @ '' {IPv4 '' @ segment_text a b sp dp f q k @ ''*}''"
  by (simp add: expect_args_def plain_end_def new_endpoint_def segment_text_def show_uint_def show_i_0)

lemma generated_args:
  assumes "q \<noteq> 0" "k \<noteq> 0"
  shows "gen_ip_args (plain_end i a b sp dp q k) 0 (flags_text f) (window w) [] =
    ''gen_ip'' # (''IF='' @ i) # dotted a # dotted b # show_nat 0 # ''6'' #
      [show_nat sp, show_nat dp, flags_text f] @ opt_arg ''SEQ='' (unat q) @ opt_arg ''ACK='' (unat k) @ opt_arg ''WIN='' w"
  using assms by (simp add: gen_ip_args_def plain_end_def new_endpoint_def opt_arg_def show_uint_def show_i_0 window_def u32_number
      show_nat.simps [of 0] digit_chars)

lemma segment_join:
  assumes "q \<noteq> 0" "k \<noteq> 0"
  shows "join_words (dotted a # dotted b # show_nat 0 # ''6'' #
      [show_nat sp, show_nat dp, flags_text f] @ opt_arg ''SEQ='' (unat q) @ opt_arg ''ACK='' (unat k) @ opt_arg ''WIN='' w) =
    segment_text a b sp dp f q k @ (if w = 0 then [] else '' WIN='' @ show_nat w)"
  using assms by (simp add: segment_text_def opt_arg_def u32_number show_nat.simps [of 0] digit_chars)

lemma flags_no_star: "CHR ''*'' \<notin> set (flags_text f)"
  by (simp add: flags_text_def tcp_flag_names_def Let_def)

lemma segment_line_matches:
  assumes "CHR ''*'' \<notin> set i"
  shows "loosely (''send:'' @ i @ '' {IPv4 '' @ segment_text a b sp dp f q k @ ''*}'')
    (strip (send_line i ('' {IPv4 '' @ (segment_text a b sp dp f q k @ any) @ ''}'')))"
proof -
  let ?u = "''send:'' @ i @ '' {IPv4 '' @ segment_text a b sp dp f q k"
  have "CHR ''*'' \<notin> set ?u"
    using assms by (simp add: segment_text_def dotted_no_star show_nat_no_star flags_no_star)
  moreover have "loosely ''*}'' (any @ ''}'')"
    using star [of "''}''" "''}''" any] char [of "CHR ''}''" "[]" "[]"] finish by (simp add: ws_def)
  ultimately have "loosely (?u @ ''*}'') (?u @ any @ ''}'')" by (rule loosely_same)
  then show ?thesis using strip_line [of ?u "CHR ''}''" any] by (simp add: send_line_def ws_def)
qed

lemma session_args:
  assumes "sp \<le> 65535" "dp \<le> 65535" "w \<le> 65535"
  shows "plain_args (''6'' # [show_nat sp, show_nat dp, flags_text f] @ opt_arg ''SEQ='' (unat (q :: u32)) @ opt_arg ''ACK='' (unat (k :: u32)) @ opt_arg ''WIN='' w)"
  unfolding plain_args_def using assms u32_number(2) [of q] u32_number(2) [of k] by (intro disjI2 exI conjI) simp_all

lemma segment_short:
  assumes "sp \<le> 65535" "dp \<le> 65535" "w \<le> 65535"
  shows "int (length (segment_text a b sp dp f q k @ (if w = 0 then [] else '' WIN='' @ show_nat w))) < 1016"
proof -
  have u: "unat q < 4294967296" "unat k < 4294967296" using unsigned_less [of q, where 'a = nat] unsigned_less [of k, where 'a = nat] by simp_all
  have n: "length (show_nat sp) \<le> 5" "length (show_nat dp) \<le> 5" "length (show_nat w) \<le> 5" "length (show_nat (unat q)) \<le> 10" "length (show_nat (unat k)) \<le> 10"
    using assms u show_nat_length [of _ 5] show_nat_length [of "unat q" 10] show_nat_length [of "unat k" 10] by auto
  show ?thesis using n dotted_length [of a] dotted_length [of b] flags_text_length [of f] by (auto simp: segment_text_def)
qed

text \<open>\<open>gen_ip\<close> logs the departure of the segment it was asked for.\<close>

lemma forwarded_line:
  fixes u :: "'z session_state_scheme"
  assumes "cache_ok (ipv4 u)" "forwards_to j i a b (ipv4 u)" "describe_packets u"
    and "sp \<le> 65535" "dp \<le> 65535" "q \<noteq> 0" "k \<noteq> 0" "w \<le> 65535"
  shows "\<exists>any ms st' w'. gen_ip_command accept_all fr fa msgs (gen_ip_args (plain_end j a b sp dp q k) 0 (flags_text f) (window w) []) u =
      Ok (True, log_lines (ms @ [(LOG_PACKET, send_line i ('' {IPv4 '' @ (segment_text a b sp dp f q k @ any) @ ''}''))]) (u\<lparr>ipv4 := st', skbs := w'\<rparr>)) \<and>
    same_routing (ipv4 u) st'"
proof -
  obtain dev e where e: "interface_by_name j (ipv4 u) = Some dev" "ifindex dev \<noteq> 0" "input_entry b a 0 (ipv4 u) = Some e" "rt_input e \<noteq> Ip_local_deliver"
    "dev_name (rt_dev e) (ipv4 u) = i" using assms(2) unfolding forwards_to_def by blast
  let ?args = "''6'' # [show_nat sp, show_nat dp, flags_text f] @ opt_arg ''SEQ='' (unat q) @ opt_arg ''ACK='' (unat k) @ opt_arg ''WIN='' w"
  note j = segment_join [OF assms(6,7), of a b sp dp f w]
  have l: "int (length (join_words (dotted a # dotted b # show_nat 0 # ?args))) < 1016"
    unfolding j by (rule segment_short [OF assms(4,5,8)])
  show ?thesis
    unfolding generated_args [OF assms(6,7), of j a b sp dp f w]
    by (rule gen_ip_command_line [OF assms(1) e(1,2) session_args [OF assms(4,5,8)] le0 e(3,4) assms(3) l, of fr fa msgs "''gen_ip''"])
      (unfold e(5) j, blast)
qed

definition unbothered :: "'z session_state_scheme \<Rightarrow> bool" where
  "unbothered s \<longleftrightarrow> (\<forall>e \<in> set (expects s). command e \<notin> {''expect'', ''gen_ip''})"

lemma command_succeeds:
  assumes "find_command (argv ! 0) commands = Some cmd" "cmd_handler cmd argv (expect_pre_command (argv ! 0) s) = Ok (True, u)"
  shows "tui_do_command commands (map logging_hook others @ [expect_hook b]) argv abort s = expect_post_command b (log_lines (concat others) u)"
proof -
  have n: "cmd_name cmd = argv ! 0" using assms(1) by (rule find_command_name)
  have pre: "do_pre_commands (map logging_hook others @ [expect_hook b]) (argv ! 0) s = expect_pre_command (argv ! 0) s"
    by (simp add: pre_logging expect_hook_def)
  show ?thesis
    unfolding tui_do_command_def assms(1) option.case n pre assms(2) 
    by (cases "expect_post_command b (log_lines (concat others) u)") (auto simp: post_logging expect_hook_def)
qed

lemma gen_ip_round:
  fixes s :: "'z session_state_scheme"
  assumes n: "connected env" and fw: "cache_ok (ipv4 s)" "forwards_to j i a b (ipv4 s)" "describe_packets s" "CHR ''*'' \<notin> set i"
    and u: "\<forall>e \<in> set es. command e \<notin> {''expect'', ''gen_ip''}"
    and a: "sp \<le> 65535" "dp \<le> 65535" "q \<noteq> 0" "k \<noteq> 0" "w \<le> 65535"
    and s: "expects s = \<lparr>invert = False, matched = False, command = ''gen_ip'',
        pattern = join_words (drop 2 (expect_args (plain_end i b a dp sp k q) 0 (flags_text f)))\<rparr> # es"
  shows "\<exists>t. tui_do_command (fst env) (snd env) (gen_ip_args (plain_end j a b sp dp q k) 0 (flags_text f) (window w) []) False s = Ok (True, t) \<and>
    expects t = es \<and> cmdstack t = cmdstack s \<and> curr t = curr s \<and> describe_packets t \<and> same_routing (ipv4 s) (ipv4 t)"
proof -
  let ?argv = "gen_ip_args (plain_end j a b sp dp q k) 0 (flags_text f) (window w) []" and ?s = "expect_pre_command ''gen_ip'' s"
  obtain gc fr fa msgs others h where e: "find_command ''gen_ip'' (fst env) = Some gc" "cmd_handler gc = gen_ip_command accept_all fr fa msgs"
    "snd env = map logging_hook others @ [expect_hook h]"
    using n unfolding connected_def by blast
  have "cache_ok (ipv4 ?s)" "forwards_to j i a b (ipv4 ?s)" "describe_packets ?s" using fw by (simp_all add: expect_pre_command_def)
  from forwarded_line [OF this a, of fr fa msgs f] obtain any ms st' w' where
    g: "gen_ip_command accept_all fr fa msgs ?argv ?s =
      Ok (True, log_lines (ms @ [(LOG_PACKET, send_line i ('' {IPv4 '' @ (segment_text a b sp dp f q k @ any) @ ''}''))]) (?s\<lparr>ipv4 := st', skbs := w'\<rparr>))"
    and r: "same_routing (ipv4 ?s) st'" by blast
  let ?line = "send_line i ('' {IPv4 '' @ (segment_text a b sp dp f q k @ any) @ ''}'')" and ?u = "?s\<lparr>ipv4 := st', skbs := w'\<rparr>"
  let ?lines = "(ms @ [(LOG_PACKET, ?line)]) @ concat others"
  have run: "tui_do_command (fst env) (snd env) ?argv False s = expect_post_command h (log_lines ?lines ?u)"
    using command_succeeds [of ?argv "fst env" gc s _ others h False] e g unfolding e(3) log_lines_append [of "ms @ [(LOG_PACKET, ?line)]"]
    by (simp add: gen_ip_args_head)
  let ?p = "''send:'' @ i @ '' {IPv4 '' @ segment_text a b sp dp f q k @ ''*}''"
  have "\<exists>l \<in> set (map snd ?lines). loosely ?p (strip l)"
    by (rule bexI, rule segment_line_matches [OF fw(4), of a b sp dp f q k any]) simp
  moreover have "pattern (hd (expects s)) = ?p" "\<not> invert (hd (expects s))" using s by (simp_all add: expected_pattern)
  ultimately have sat: "satisfied (map snd ?lines) (hd (expects s))" unfolding satisfied_def by simp
  have m: "cmdstack (log_lines ?lines ?u) = ''gen_ip'' # cmdstack s"
    "expects (log_lines ?lines ?u) = map (mark ''gen_ip'' (map snd ?lines)) (expects s)"
    using log_lines_marks [of ?u "''gen_ip''" "cmdstack s" ?lines] by (auto simp: expect_pre_command_def)
  have g: "\<forall>e \<in> set (expects s). command e = ''gen_ip'' \<longrightarrow> \<not> matched e \<and> satisfied (map snd ?lines) e"
    using sat s u by auto
  obtain t where "expect_post_command h (log_lines ?lines ?u) = Ok (True, t)"
    "expects t = filter (\<lambda>e. command e \<noteq> ''gen_ip'') (expects s)" "cmdstack t = cmdstack s" "surroundings t = surroundings (log_lines ?lines ?u)"
    using expect_post_satisfied [OF m g] by blast
  moreover have "filter (\<lambda>e. command e \<noteq> ''gen_ip'') (expects s) = es" using s u by (auto simp: filter_id_conv)
  ultimately show ?thesis unfolding run using r fw(3) by (simp add: expect_pre_command_def)
qed

lemma tcp_send_forwarded:
  assumes n: "connected env" and fw: "cache_ok (ipv4 s)" "forwards_to j i a b (ipv4 s)" "describe_packets s" "CHR ''*'' \<notin> set i" and u: "unbothered s"
    and a: "sp \<le> 65535" "dp \<le> 65535" "q \<noteq> 0" "k \<noteq> 0" "w \<le> 65535"
    and c: "curr s = Some ses" "endpoint d ses = plain_end j a b sp dp q k" "endpoint (other d) ses = plain_end i b a dp sp k q" "lenchange ses = 0"
  shows "\<exists>t. tcp_send env d 0 (flags_text f) (window w) [] s = Ok (True, t) \<and> unbothered t \<and> expects t = expects s \<and>
    cmdstack t = cmdstack s \<and> curr t = curr s \<and> describe_packets t \<and> same_routing (ipv4 s) (ipv4 t)"
proof -
  obtain s1 where s1: "tui_do_command (fst env) (snd env) (expect_args (plain_end i b a dp sp k q) 0 (flags_text f)) False s = Ok (True, s1)"
    "expects s1 = \<lparr>invert = False, matched = False, command = ''gen_ip'',
        pattern = join_words (drop 2 (expect_args (plain_end i b a dp sp k q) 0 (flags_text f)))\<rparr> # expects s"
    "cmdstack s1 = cmdstack s" "surroundings s1 = surroundings s"
    using expect_round [OF n, of s "plain_end i b a dp sp k q" 0 "flags_text f"] u unfolding unbothered_def by blast
  have "cache_ok (ipv4 s1)" "forwards_to j i a b (ipv4 s1)" "describe_packets s1" using fw s1(4) by simp_all
  from gen_ip_round [OF n this fw(4) _ a s1(2)] u s1(4)
  obtain t where t: "tui_do_command (fst env) (snd env) (gen_ip_args (plain_end j a b sp dp q k) 0 (flags_text f) (window w) []) False s1 = Ok (True, t)"
    "expects t = expects s" "cmdstack t = cmdstack s1" "curr t = curr s1" "describe_packets t" "same_routing (ipv4 s) (ipv4 t)"
    unfolding unbothered_def by auto
  have "length (gen_ip_args (plain_end j a b sp dp q k) 0 (flags_text f) (window w) []) < 1024"
    by (simp add: gen_ip_args_def window_def)
  then show ?thesis
    using s1(1,3,4) t c u unfolding tcp_send_def by (simp add: the_session_def unbothered_def)
qed

text \<open>The whole connection.\<close>

definition plain_session :: "u32 \<Rightarrow> u32 \<Rightarrow> nat \<Rightarrow> nat \<Rightarrow> u32 \<Rightarrow> u32 \<Rightarrow> tcpsession_rec" where
  "plain_session a b sp dp q k =
     \<lparr>original = plain_end ''eth0'' a b sp dp q k, reply = plain_end ''eth1'' b a dp sp k q, lenchange = 0\<rparr>"

definition in_session :: "'z session_state_scheme \<Rightarrow> 'z session_state_scheme \<Rightarrow> tcpsession_rec option \<Rightarrow> bool" where
  "in_session s t ses \<longleftrightarrow> unbothered t \<and> expects t = expects s \<and> cmdstack t = cmdstack s \<and> describe_packets t \<and> same_routing (ipv4 s) (ipv4 t) \<and> curr t = ses"

lemma send_original:
  assumes "connected env" "sp \<le> 65535" "dp \<le> 65535" "router a b (ipv4 s)" "q \<noteq> 0" "k \<noteq> 0" "w \<le> 65535"
    and t: "in_session s t (Some (plain_session a b sp dp q k))"
  shows "\<exists>t'. tcp_send env Original 0 (flags_text f) (window w) [] t = Ok (True, t') \<and> in_session s t' (Some (plain_session a b sp dp q k))"
proof -
  have "router a b (ipv4 t)" using t assms(4) router_kept by (auto simp: in_session_def)
  then show ?thesis
    using tcp_send_forwarded [OF assms(1), of t "''eth0''" "''eth1''" a b sp dp q k w "plain_session a b sp dp q k" Original f] assms(2-7) t
    by (auto simp: in_session_def plain_session_def router_def intro: same_routing_trans)
qed

lemma send_reply:
  assumes "connected env" "sp \<le> 65535" "dp \<le> 65535" "router a b (ipv4 s)" "q \<noteq> 0" "k \<noteq> 0" "w \<le> 65535"
    and t: "in_session s t (Some (plain_session a b sp dp q k))"
  shows "\<exists>t'. tcp_send env Reply 0 (flags_text f) (window w) [] t = Ok (True, t') \<and> in_session s t' (Some (plain_session a b sp dp q k))"
proof -
  have "router a b (ipv4 t)" using t assms(4) router_kept by (auto simp: in_session_def)
  then show ?thesis
    using tcp_send_forwarded [OF assms(1), of t "''eth1''" "''eth0''" b a dp sp k q w "plain_session a b sp dp q k" Reply f] assms(2-7) t
    by (auto simp: in_session_def plain_session_def router_def intro: same_routing_trans)
qed

lemma count_original:
  "in_session s t (Some (plain_session a b sp dp q k)) \<Longrightarrow>
   in_session s (add_ack Reply n (add_seq Original n t)) (Some (plain_session a b sp dp (q + n) k))"
  by (auto simp: in_session_def plain_session_def plain_end_def new_endpoint_def add_ack_def add_seq_def on_session_def unbothered_def)

lemma count_reply:
  "in_session s t (Some (plain_session a b sp dp q k)) \<Longrightarrow>
   in_session s (add_ack Original n (add_seq Reply n t)) (Some (plain_session a b sp dp q (k + n)))"
  by (auto simp: in_session_def plain_session_def plain_end_def new_endpoint_def add_ack_def add_seq_def on_session_def unbothered_def)

lemma session_flags: "flags_text 0x02 = ''SYN''" "flags_text 0x12 = ''SYN/ACK''" "flags_text 0x10 = ''ACK''" "flags_text 0x11 = ''FIN/ACK''"
  by code_simp+

lemma session_window: "window 512 = Some ''WIN=512''" "window 0 = None"
  by (simp_all add: window_def show_nat.simps digit_chars)

lemma open_forwarded:
  assumes "connected env" "sp \<le> 65535" "dp \<le> 65535" "router a b (ipv4 s)" "describe_packets s" "unbothered s"
  shows "\<exists>t. open_session env (dotted a) (dotted b) (show_nat sp) (show_nat dp) (dotted b) (dotted a) (show_nat dp) (show_nat sp) s = Ok (True, t) \<and>
    in_session s t (Some (plain_session a b sp dp 1001 2001))"
proof -
  note ports = assms(1-4)
  let ?s = "s\<lparr>curr := Some (plain_session a b sp dp 1000 2000)\<rparr>"
  have "in_session s ?s (Some (plain_session a b sp dp 1000 2000))" using assms(5,6) by (simp add: in_session_def unbothered_def same_routing_def)
  from send_original [where w = 512 and f = "0x02", OF ports _ _ _ this] obtain s1 where
    1: "tcp_send env Original 0 ''SYN'' (Some ''WIN=512'') [] ?s = Ok (True, s1)" "in_session s s1 (Some (plain_session a b sp dp 1000 2000))"
    by (auto simp: session_flags session_window)
  from send_reply [where w = 512 and f = "0x12", OF ports _ _ _ count_original [OF 1(2), of 1]] obtain s2 where
    2: "tcp_send env Reply 0 ''SYN/ACK'' (Some ''WIN=512'') [] (add_ack Reply 1 (add_seq Original 1 s1)) = Ok (True, s2)"
       "in_session s s2 (Some (plain_session a b sp dp 1001 2000))"
    by (auto simp: session_flags session_window)
  from send_original [where w = 512 and f = "0x10", OF ports _ _ _ count_reply [OF 2(2), of 1]] obtain s3 where
    3: "tcp_send env Original 0 ''ACK'' (Some ''WIN=512'') [] (add_ack Original 1 (add_seq Reply 1 s2)) = Ok (True, s3)"
       "in_session s s3 (Some (plain_session a b sp dp 1001 2001))"
    by (auto simp: session_flags session_window)
  have "plain_session a b sp dp 1000 2000 = \<lparr>original = new_endpoint ''eth0'' (dotted a) (dotted b) (show_nat sp) (show_nat dp) 1000 2000,
      reply = new_endpoint ''eth1'' (dotted b) (dotted a) (show_nat dp) (show_nat sp) 2000 1000, lenchange = 0\<rparr>"
    by (simp add: plain_session_def plain_end_def)
  then show ?thesis using 1(1) 2(1) 3 by (simp add: open_session_def if_sent_def)
qed

lemma close_forwarded:
  assumes "connected env" "sp \<le> 65535" "dp \<le> 65535" "router a b (ipv4 s)" "in_session s t (Some (plain_session a b sp dp 1001 2001))"
  shows "\<exists>u. close_session env d t = Ok (True, u) \<and> in_session s u None"
proof -
  note ports = assms(1-4)
  have over: "in_session s (drop_session u) None" if "in_session s u ses" for u ses
    using that by (simp add: in_session_def drop_session_def unbothered_def)
  show ?thesis
  proof (cases d)
    case Original
    from send_original [where w = 0 and f = "0x11", OF ports _ _ _ assms(5)] obtain s1 where
      1: "tcp_send env Original 0 ''FIN/ACK'' None [] t = Ok (True, s1)" "in_session s s1 (Some (plain_session a b sp dp 1001 2001))"
      by (auto simp: session_flags session_window)
    from send_reply [where w = 0 and f = "0x11", OF ports _ _ _ count_original [OF 1(2), of 1]] obtain s2 where
      2: "tcp_send env Reply 0 ''FIN/ACK'' None [] (add_ack Reply 1 (add_seq Original 1 s1)) = Ok (True, s2)"
         "in_session s s2 (Some (plain_session a b sp dp 1002 2001))"
      by (auto simp: session_flags session_window)
    from send_original [where w = 0 and f = "0x10", OF ports _ _ _ count_reply [OF 2(2), of 1]] obtain s3 where
      3: "tcp_send env Original 0 ''ACK'' None [] (add_ack Original 1 (add_seq Reply 1 s2)) = Ok (True, s3)"
         "in_session s s3 (Some (plain_session a b sp dp 1002 2002))"
      by (auto simp: session_flags session_window)
    show ?thesis using 1(1) 2(1) 3(1) over [OF 3(2)] Original by (simp add: close_session_def if_sent_def)
  next
    case Reply
    from send_reply [where w = 0 and f = "0x11", OF ports _ _ _ assms(5)] obtain s1 where
      1: "tcp_send env Reply 0 ''FIN/ACK'' None [] t = Ok (True, s1)" "in_session s s1 (Some (plain_session a b sp dp 1001 2001))"
      by (auto simp: session_flags session_window)
    from send_original [where w = 0 and f = "0x11", OF ports _ _ _ count_reply [OF 1(2), of 1]] obtain s2 where
      2: "tcp_send env Original 0 ''FIN/ACK'' None [] (add_ack Original 1 (add_seq Reply 1 s1)) = Ok (True, s2)"
         "in_session s s2 (Some (plain_session a b sp dp 1001 2002))"
      by (auto simp: session_flags session_window)
    from send_reply [where w = 0 and f = "0x10", OF ports _ _ _ count_original [OF 2(2), of 1]] obtain s3 where
      3: "tcp_send env Reply 0 ''ACK'' None [] (add_ack Reply 1 (add_seq Original 1 s2)) = Ok (True, s3)"
         "in_session s s3 (Some (plain_session a b sp dp 1002 2002))"
      by (auto simp: session_flags session_window)
    show ?thesis using 1(1) 2(1) 3(1) over [OF 3(2)] Reply by (simp add: close_session_def if_sent_def)
  qed
qed

text \<open>
  C14. Across a router that lies between the two hosts, a connection is opened and closed from either side as TCP does it, by six packets that
  \<open>gen_ip\<close> really builds, that are routed and forwarded, and each of which is described, when it leaves, the way the command expected: \<open>OPEN\<close> succeeds and
  leaves both ends one number further than they started, \<open>CLOSE\<close> succeeds and forgets the session, and every expectation has been used
  up. The scope: eth0 and eth1 exist, the packets of either host arriving there are routed to the other interface, every netfilter hook accepts, packets are
  described in the log, the route cache is right, and no expectation is pending for the commands \<^verbatim>\<open>expect\<close> and \<^verbatim>\<open>gen_ip\<close>.
\<close>

theorem tcpsession_open_close:
  assumes "connected env" "router a b (ipv4 s)" "describe_packets s" "sp \<le> 65535" "dp \<le> 65535" "unbothered s" "curr s = None"
    and "who \<in> {''original'', ''reply''}"
  shows "\<exists>t u. tcpsession env [''tcpsession'', ''OPEN'', dotted a, dotted b, show_nat sp, show_nat dp] s = Ok (True, t) \<and>
    curr t = Some (plain_session a b sp dp 1001 2001) \<and> expects t = expects s \<and>
    tcpsession env [''tcpsession'', ''CLOSE'', who] t = Ok (True, u) \<and> curr u = None \<and> expects u = expects s \<and> cmdstack u = cmdstack s \<and>
    same_routing (ipv4 s) (ipv4 u)"
proof -
  obtain t where t: "open_session env (dotted a) (dotted b) (show_nat sp) (show_nat dp) (dotted b) (dotted a) (show_nat dp) (show_nat sp) s = Ok (True, t)"
    "in_session s t (Some (plain_session a b sp dp 1001 2001))"
    using open_forwarded [OF assms(1,4,5,2,3,6)] by blast
  obtain d where d: "direction_of who = Some d" using assms(8) by (auto simp: direction_of_def)
  obtain u where "close_session env d t = Ok (True, u)" "in_session s u None"
    using close_forwarded [OF assms(1,4,5,2) t(2)] by blast
  then show ?thesis using t d assms(7) by (auto simp: tcpsession_def in_session_def)
qed

definition two_commands :: "unit session_env" where
  "two_commands =
     ([\<lparr>cmd_name = ''expect'', cmd_handler = (\<lambda>argv s. Ok (expect_cmd (\<lambda>n. n \<in> {''expect'', ''gen_ip''}) argv s)), cmd_helpfn = None\<rparr>,
       \<lparr>cmd_name = ''gen_ip'', cmd_handler = gen_ip_command accept_all False False (\<lambda>_ _. []), cmd_helpfn = None\<rparr>], [expect_hook False])"

definition no_session :: session_state where
  "no_session = shifted_session\<lparr>curr := None\<rparr>"

lemma two_devices_forward:
  "forwards_to ''eth0'' ''eth1'' 0x0200A8C0 0x0201A8C0 two_devices" "forwards_to ''eth1'' ''eth0'' 0x0201A8C0 0x0200A8C0 two_devices"
proof -
  have d: "map_option ifindex (interface_by_name ''eth0'' two_devices) = Some 2" "map_option ifindex (interface_by_name ''eth1'' two_devices) = Some 3"
    by code_simp+
  have "case input_entry 0x0201A8C0 0x0200A8C0 0 two_devices of
      Some e \<Rightarrow> rt_input e = Ip_forward \<and> dev_name (rt_dev e) two_devices = ''eth1'' | None \<Rightarrow> False" by code_simp
  then show "forwards_to ''eth0'' ''eth1'' 0x0200A8C0 0x0201A8C0 two_devices"
    using d(1) by (auto simp: forwards_to_def split: option.splits)
  have "case input_entry 0x0200A8C0 0x0201A8C0 0 two_devices of
      Some e \<Rightarrow> rt_input e = Ip_forward \<and> dev_name (rt_dev e) two_devices = ''eth0'' | None \<Rightarrow> False" by code_simp
  then show "forwards_to ''eth1'' ''eth0'' 0x0201A8C0 0x0200A8C0 two_devices"
    using d(2) by (auto simp: forwards_to_def split: option.splits)
qed

theorem tcpsession_open_close_witness:
  "\<exists>t u. tcpsession two_commands [''tcpsession'', ''OPEN'', ''192.168.0.2'', ''192.168.1.2'', ''1024'', ''21''] no_session = Ok (True, t) \<and>
    curr t = Some (plain_session 0x0200A8C0 0x0201A8C0 1024 21 1001 2001) \<and> expects t = expects no_session \<and>
    tcpsession two_commands [''tcpsession'', ''CLOSE'', ''reply''] t = Ok (True, u) \<and> curr u = None \<and> expects u = expects no_session \<and>
    cmdstack u = cmdstack no_session \<and> same_routing (ipv4 no_session) (ipv4 u)"
proof -
  have a: "dotted 0x0200A8C0 = ''192.168.0.2''" "dotted 0x0201A8C0 = ''192.168.1.2''" "show_nat 1024 = ''1024''" "show_nat 21 = ''21''"
    by code_simp+
  have known: "tui_is_command (fst two_commands) = (\<lambda>n. n \<in> {''expect'', ''gen_ip''})"
    by (rule ext) (simp add: tui_is_command_def two_commands_def)
  have n: "connected two_commands"
    unfolding connected_def known by (rule exI [of _ "hd (fst two_commands)"], rule exI [of _ "fst two_commands ! 1"], rule exI [of _ False],
      rule exI [of _ False], rule exI [of _ "\<lambda>_ _. []"], rule exI [of _ "[]"], rule exI [of _ False]) (simp add: two_commands_def)
  have s: "ipv4 no_session = two_devices" "describe_packets no_session" "unbothered no_session" "curr no_session = None"
    by (simp_all add: no_session_def shifted_session_def unbothered_def)
  have r: "router 0x0200A8C0 0x0201A8C0 (ipv4 no_session)"
    unfolding s(1) router_def using two_devices_ok two_devices_forward by blast
  show ?thesis
    using tcpsession_open_close [OF n r s(2) _ _ s(3,4), of 1024 21 "''reply''"] by (simp add: a)
qed

end
