(* ===== verification/Message.thy ===== *)
theory Message
  imports Describe
begin

text \<open>
  System calls of a real program run against the simulated kernel: the library core/fakesockopt.c, preloaded into the program, sends
  them as messages (core/nfsockopt.h) to core/message.c, which runs the kernel's code; when that code copies to or from
  the program's memory, it sends messages back, which the library serves while it waits. A call through the
  messages is shown to end and to have the effect of a direct call.
\<close>

section \<open>Messages\<close>

datatype um_type = UM_SYSCALL | UM_KERNELOP

record nf_userspace_message =
  um_type :: um_type
  opcode :: int
  um_len :: int
  um_args :: "u64 list"
  retval :: int

definition SYS_GETSOCKOPT :: int where "SYS_GETSOCKOPT = 1"
definition SYS_SETSOCKOPT :: int where "SYS_SETSOCKOPT = 2"
definition SYS_EXIT :: int where "SYS_EXIT = 3"
definition KOP_COPY_TO_USER :: int where "KOP_COPY_TO_USER = 1"
definition KOP_COPY_FROM_USER :: int where "KOP_COPY_FROM_USER = 2"
definition KOP_FORK :: int where "KOP_FORK = 3"

lemmas opcodes = SYS_GETSOCKOPT_def SYS_SETSOCKOPT_def SYS_EXIT_def KOP_COPY_TO_USER_def KOP_COPY_FROM_USER_def KOP_FORK_def

text \<open>
  The two directions of the socket carry headers and the data behind them. A header is written and read as a whole. Of the data, a single
  \<^verbatim>\<open>read\<close> may return a part only: the simulator reads until it has all of them (\<^verbatim>\<open>complete_read\<close>), the library does not. The memory of the
  simulator and that of the program are functions from addresses.
\<close>

datatype item = Hdr nf_userspace_message | Payload "u8 list"

type_synonym memory = "u64 \<Rightarrow> u8"

definition mem_range :: "u64 \<Rightarrow> u64 \<Rightarrow> memory \<Rightarrow> u8 list" where
  "mem_range a n m = map (\<lambda>i. m (a + word_of_nat i)) [0..<unat n]"

definition mem_store :: "u64 \<Rightarrow> u8 list \<Rightarrow> memory \<Rightarrow> memory" where
  "mem_store a bs m = (\<lambda>x. if unat (x - a) < length bs then bs ! unat (x - a) else m x)"

text \<open>
  The kernel's functions \<^verbatim>\<open>nf_getsockopt\<close> and \<^verbatim>\<open>nf_setsockopt\<close> are not part of the simulator. What they do between their calls of
  \<^verbatim>\<open>copy_to_user\<close> and \<^verbatim>\<open>copy_from_user\<close> is a change of the kernel's memory, after which they go on according to its
  content; at the end they return a value and, for \<^verbatim>\<open>nf_getsockopt\<close>, a length.
\<close>

datatype kernel =
  K_Return int u64
| K_Compute "memory \<Rightarrow> memory" "memory \<Rightarrow> kernel"
| K_Copy_to u64 u64 u64 "32 word \<Rightarrow> kernel"
| K_Copy_from u64 u64 u64 "32 word \<Rightarrow> kernel"

section \<open>Tracing\<close>

text \<open>The numbers of the options come from a header of the kernel.\<close>

record ipt_options =
  IPT_SO_GET_INFO :: int
  IPT_SO_GET_ENTRIES :: int
  IPT_SO_SET_REPLACE :: int
  IPT_SO_SET_ADD_COUNTERS :: int

definition PF_INET :: u64 where "PF_INET = 2"

definition protofamily :: "u64 \<Rightarrow> string outcome" where
  "protofamily pf = (if (ucast pf :: u32) = 2 then Ok ''PF_INET'' else Barf ''Unknown protocol family'')"

definition sockopt :: "ipt_options \<Rightarrow> u64 \<Rightarrow> bool \<Rightarrow> string outcome" where
  "sockopt os a get =
     (let opt = sint (ucast a :: 32 word) in
      if get then
        if opt = IPT_SO_GET_INFO os then Ok ''GET_INFO''
        else if opt = IPT_SO_GET_ENTRIES os then Ok ''GET_ENTRIES''
        else if opt = IPT_SO_GET_ENTRIES os + 1 then Ok ''GET_REVISION_MATCH''
        else if opt = IPT_SO_GET_ENTRIES os + 2 then Ok ''GET_REVISION_TARGET''
        else Barf ''Unknown getsocket opt''
      else if opt = IPT_SO_SET_REPLACE os then Ok ''SET_REPLACE''
      else if opt = IPT_SO_SET_ADD_COUNTERS os then Ok ''SET_ADD_COUNTERS''
      else Barf ''Unknown setsocket opt'')"

definition err_names :: "(int \<times> string) list" where
  "err_names = [(1, ''-EPERM''), (2, ''-ENOENT''), (3, ''-ESRCH''), (4, ''-EINTR''), (5, ''-EIO''), (6, ''-ENXIO''), (7, ''-E2BIG''),
     (8, ''-ENOEXEC''), (9, ''-EBADF''), (10, ''-ECHILD''), (11, ''-EAGAIN''), (12, ''-ENOMEM''), (13, ''-EACCES''), (14, ''-EFAULT''),
     (15, ''-ENOTBLK''), (16, ''-EBUSY''), (17, ''-EEXIST''), (18, ''-EXDEV''), (19, ''-ENODEV''), (20, ''-ENOTDIR''), (21, ''-EISDIR''),
     (22, ''-EINVAL''), (23, ''-ENFILE''), (24, ''-EMFILE''), (25, ''-ENOTTY''), (26, ''-ETXTBSY''), (27, ''-EFBIG''), (28, ''-ENOSPC''),
     (29, ''-ESPIPE''), (30, ''-EROFS''), (31, ''-EMLINK''), (32, ''-EPIPE''), (33, ''-EDOM''), (34, ''-ERANGE''),
     (93, ''-EPROTONOSUPPORT''), (92, ''-ENOPROTOOPT''), (40, ''-ELOOP'')]"

definition err :: "int \<Rightarrow> string outcome" where
  "err e =
     (if e \<ge> 0 then Ok (show_nat (nat e))
      else case map_of err_names (- e) of Some name \<Rightarrow> Ok name | None \<Rightarrow> Barf ''Unknown error'')"

text \<open>\<^verbatim>\<open>%p\<close>.\<close>

definition show_p :: "u64 \<Rightarrow> string" where
  "show_p a = (if a = 0 then ''(nil)'' else ''0x'' @ show_hex (unat a))"

definition trace_call :: "ipt_options \<Rightarrow> bool \<Rightarrow> nf_userspace_message \<Rightarrow> string outcome" where
  "trace_call os get m =
     bind_outcome (protofamily (um_args m ! 0)) (\<lambda>pf.
     bind_outcome (sockopt os (um_args m ! 1) get) (\<lambda>opt.
       Ok (''strace: '' @ (if get then ''getsockopt('' else ''setsockopt('') @ pf @ '', '' @ opt @ '', '' @ show_p (um_args m ! 2) @ '', '' @
         show_uint (ucast (um_args m ! 3)) @ '')'')))"

definition trace_result :: "bool \<Rightarrow> int \<Rightarrow> u64 \<Rightarrow> string outcome" where
  "trace_result get r l =
     bind_outcome (err r) (\<lambda>e.
       Ok (if get then ''    getsockopt -> '' @ e @ '' (len '' @ show_i (ucast l) @ '')'' else ''    setsockopt -> '' @ e))"

definition trace_copy :: "bool \<Rightarrow> u64 \<Rightarrow> u64 \<Rightarrow> bool \<Rightarrow> string" where
  "trace_copy out to n fail =
     (if out then ''        copy_to_user('' else ''        copy_from_user('') @ show_p to @ '','' @ show_i (ucast n) @ '')'' @
     (if fail then '' = -EFAULT'' @ (if out then [CHR 0x0A] else []) else [])"

section \<open>The two processes\<close>

text \<open>
  Where the simulator stands: in \<open>handle_userspace_message\<close>, waiting, or running the kernel for a call. The list holds the copies
  whose answer is waited for, each with the call that it belongs to and the rest of the kernel's code. Where
  the program stands: about to call, waiting in \<^verbatim>\<open>fake_syscall\<close>, returned with a value and an error number.
\<close>

type_synonym frames = "(nf_userspace_message \<times> (32 word \<Rightarrow> kernel)) list"

datatype kstate = K_Wait frames | K_Run nf_userspace_message kernel frames | K_Barf string

datatype pstate = P_Call nf_userspace_message | P_Wait nf_userspace_message | P_Done int "int option" nf_userspace_message | P_Exit string

record world =
  to_kernel :: "item list"
  to_program :: "item list"
  kmem :: memory
  pmem :: memory
  kst :: kstate
  pst :: pstate
  fails :: "bool list"
  reads :: "nat list"
  strace :: bool
  ulog :: "string list"
  exit_status :: "u64 option"

text \<open>The kernel's functions, by protocol family, option, address and length; and the numbers of the options.\<close>

record kernel_code =
  nf_getsockopt :: "u64 \<Rightarrow> u64 \<Rightarrow> u64 \<Rightarrow> u64 \<Rightarrow> kernel"
  nf_setsockopt :: "u64 \<Rightarrow> u64 \<Rightarrow> u64 \<Rightarrow> u64 \<Rightarrow> kernel"
  ipt :: ipt_options

text \<open>
  \<open>should_i_fail\<close> answers from the list of decisions, no when it is used up. \<open>reads\<close> holds what the operating system makes of the library's next reads of
  data: the greatest number of bytes that each returns; when it is used up, reads are complete.
\<close>

definition fails_now :: "bool list \<Rightarrow> bool" where
  "fails_now fs \<longleftrightarrow> (case fs of [] \<Rightarrow> False | b # _ \<Rightarrow> b)"

definition trace :: "string outcome \<Rightarrow> world \<Rightarrow> world" where
  "trace line w =
     (if \<not> strace w then w
      else case line of Ok l \<Rightarrow> w\<lparr>ulog := l # ulog w\<rparr> | Barf msg \<Rightarrow> w\<lparr>kst := K_Barf msg\<rparr>)"

text \<open>Another state for the simulator unless tracing has ended it.\<close>

definition go :: "kstate \<Rightarrow> world \<Rightarrow> world" where
  "go k w = (case kst w of K_Barf _ \<Rightarrow> w | _ \<Rightarrow> w\<lparr>kst := k\<rparr>)"

definition handle_syscall :: "kernel_code \<Rightarrow> nf_userspace_message \<Rightarrow> frames \<Rightarrow> world \<Rightarrow> world" where
  "handle_syscall code m fr w =
     (let a = um_args m in
      if opcode m = SYS_GETSOCKOPT then
        go (K_Run m (nf_getsockopt code (a ! 0) (a ! 1) (a ! 2) (a ! 3)) fr) (trace (trace_call (ipt code) True m) w)
      else if opcode m = SYS_SETSOCKOPT then
        go (K_Run m (nf_setsockopt code (a ! 0) (a ! 1) (a ! 2) (a ! 3)) fr) (trace (trace_call (ipt code) False m) w)
      else if opcode m = SYS_EXIT then
        if fr = [] then w\<lparr>exit_status := Some (a ! 0)\<rparr> else w\<lparr>kst := K_Barf ''write through a null pointer''\<rparr>
      else w\<lparr>kst := K_Barf ''Invalid syscall opcode''\<rparr>)"

text \<open>\<open>handle_userspace_message\<close> returns, to the main loop or to the copy that called it, which returns 0.\<close>

definition handled :: "frames \<Rightarrow> kstate" where
  "handled fr = (case fr of [] \<Rightarrow> K_Wait [] | (m, k) # fr \<Rightarrow> K_Run m (k 0) fr)"

definition finish_syscall :: "nf_userspace_message \<Rightarrow> int \<Rightarrow> u64 \<Rightarrow> frames \<Rightarrow> world \<Rightarrow> world" where
  "finish_syscall m r l fr w =
     (let get = (opcode m = SYS_GETSOCKOPT);
          m' = m\<lparr>retval := r, um_args := (if get then (um_args m)[3 := l] else um_args m)\<rparr>;
          w = trace (trace_result get r l) w
      in case kst w of K_Barf _ \<Rightarrow> w | _ \<Rightarrow> w\<lparr>to_program := to_program w @ [Hdr m'], kst := handled fr\<rparr>)"

definition kernelop :: "int \<Rightarrow> int \<Rightarrow> u64 \<Rightarrow> u64 \<Rightarrow> u64 \<Rightarrow> nf_userspace_message" where
  "kernelop opc len to from n = \<lparr>um_type = UM_KERNELOP, opcode = opc, um_len = len, um_args = [to, from, n, 0], retval = 0\<rparr>"

text \<open>
  The message of \<open>copy_to_user\<close> is allocated with its data behind a header of 56 bytes; \<^verbatim>\<open>talloc\<close> refuses 256 MB and more, and the code writes through
  the null pointer. Both functions then wait for a message.
\<close>

definition um_size :: u64 where "um_size = 56"

definition copy_to_user :: "nf_userspace_message \<Rightarrow> u64 \<Rightarrow> u64 \<Rightarrow> u64 \<Rightarrow> (32 word \<Rightarrow> kernel) \<Rightarrow> frames \<Rightarrow> world \<Rightarrow> world" where
  "copy_to_user m to from n k fr w =
     (let fail = fails_now (fails w); w = w\<lparr>fails := tl (fails w)\<rparr>; t = trace (Ok (trace_copy True to n fail)) w in
      if fail then t\<lparr>kst := K_Run m (k (ucast n)) fr\<rparr>
      else if n \<ge> 0x10000000 - um_size then w\<lparr>kst := K_Barf ''NULL pointer''\<rparr>
      else t\<lparr>to_program := to_program t @ Hdr (kernelop KOP_COPY_TO_USER (uint n) to from n) # (if n = 0 then [] else [Payload (mem_range from n (kmem t))]),
             kst := K_Wait ((m, k) # fr)\<rparr>)"

definition copy_from_user :: "nf_userspace_message \<Rightarrow> u64 \<Rightarrow> u64 \<Rightarrow> u64 \<Rightarrow> (32 word \<Rightarrow> kernel) \<Rightarrow> frames \<Rightarrow> world \<Rightarrow> world" where
  "copy_from_user m to from n k fr w =
     (let fail = fails_now (fails w); w = trace (Ok (trace_copy False to n fail)) (w\<lparr>fails := tl (fails w)\<rparr>) in
      if fail then w\<lparr>kst := K_Run m (k (ucast n)) fr\<rparr>
      else w\<lparr>to_program := to_program w @ [Hdr (kernelop KOP_COPY_FROM_USER 0 to from n)], kst := K_Wait ((m, k) # fr)\<rparr>)"

text \<open>All the data behind a header, if there are any, and what is left.\<close>

definition take_payload :: "u64 \<Rightarrow> item list \<Rightarrow> (u8 list \<times> item list) option" where
  "take_payload n q =
     (if n = 0 then Some ([], q)
      else case q of Payload d # r \<Rightarrow> (if length d = unat n then Some (d, r) else None) | _ \<Rightarrow> None)"

text \<open>\<open>None\<close> while there is no message. The third argument of \<open>complete_read\<close> is an \<^verbatim>\<open>int\<close>.\<close>

definition handle_userspace_message :: "kernel_code \<Rightarrow> frames \<Rightarrow> world \<Rightarrow> world option" where
  "handle_userspace_message code fr w =
     (case to_kernel w of
        Hdr m # q \<Rightarrow>
          let w = w\<lparr>to_kernel := q\<rparr> in
          if um_type m = UM_SYSCALL then Some (handle_syscall code m fr w)
          else if opcode m = KOP_COPY_FROM_USER then
            if um_args m ! 2 \<ge> 0x80000000 then Some (w\<lparr>kst := K_Barf ''read''\<rparr>)
            else map_option (\<lambda>(d, q). w\<lparr>to_kernel := q, kmem := mem_store (um_args m ! 0) d (kmem w), kst := handled fr\<rparr>)
              (take_payload (um_args m ! 2) q)
          else if opcode m = KOP_COPY_TO_USER then Some (w\<lparr>kst := handled fr\<rparr>)
          else Some (w\<lparr>kst := K_Barf ''Invalid kernelop opcode''\<rparr>)
      | _ \<Rightarrow> None)"

definition kernel_step :: "kernel_code \<Rightarrow> world \<Rightarrow> world option" where
  "kernel_step code w =
     (case kst w of
        K_Wait fr \<Rightarrow> handle_userspace_message code fr w
      | K_Run m t fr \<Rightarrow>
          (case t of
             K_Return r l \<Rightarrow> Some (finish_syscall m r l fr w)
           | K_Compute f k \<Rightarrow> Some (w\<lparr>kmem := f (kmem w), kst := K_Run m (k (kmem w)) fr\<rparr>)
           | K_Copy_to to from n k \<Rightarrow> Some (copy_to_user m to from n k fr w)
           | K_Copy_from to from n k \<Rightarrow> Some (copy_from_user m to from n k fr w))
      | K_Barf _ \<Rightarrow> None)"

section \<open>The program\<close>

text \<open>The answer of \<open>handle_kernelop\<close>; \<open>d\<close> is the data behind the message.\<close>

definition handle_kernelop :: "nf_userspace_message \<Rightarrow> u8 list \<Rightarrow> world \<Rightarrow> world" where
  "handle_kernelop m d w =
     (let a = um_args m in
      if opcode m = KOP_COPY_TO_USER then
        if length d < unat (a ! 2) then w\<lparr>pst := P_Exit ''read past the end of the message''\<rparr>
        else w\<lparr>pmem := mem_store (a ! 0) (take (unat (a ! 2)) d) (pmem w), to_kernel := to_kernel w @ [Hdr (m\<lparr>um_len := 0\<rparr>)]\<rparr>
      else if opcode m = KOP_COPY_FROM_USER then
        if a ! 2 \<ge> 0x80000000 then w\<lparr>pst := P_Exit ''write''\<rparr>
        else w\<lparr>to_kernel := to_kernel w @ Hdr (m\<lparr>um_len := uint (a ! 2)\<rparr>) #
             (if a ! 2 = 0 then [] else [Payload (mem_range (a ! 1) (a ! 2) (pmem w))])\<rparr>
      else if opcode m = KOP_FORK then w\<lparr>pst := P_Exit ''fork''\<rparr>
      else w)"

text \<open>
  The library's one read of data, whose result is not compared with the length asked for. What it does with a message that is not
  complete is not followed further: it copies memory that was never written, and takes the rest of the data for the next header.
\<close>

definition short_read :: "nf_userspace_message \<Rightarrow> world \<Rightarrow> bool" where
  "short_read r w \<longleftrightarrow> (case reads w of [] \<Rightarrow> False | k # _ \<Rightarrow> int k < um_len r)"

definition program_step :: "world \<Rightarrow> world option" where
  "program_step w =
     (case pst w of
        P_Call m \<Rightarrow>
          let m = m\<lparr>um_type := UM_SYSCALL, um_len := 0, retval := 0\<rparr>
          in Some (w\<lparr>to_kernel := to_kernel w @ [Hdr m], pst := P_Wait m\<rparr>)
      | P_Wait m \<Rightarrow>
          (case to_program w of
             Hdr r # q \<Rightarrow>
               (case take_payload (word_of_int (um_len r)) q of
                  None \<Rightarrow> None
                | Some (d, q) \<Rightarrow>
                    let short = short_read r w; w = w\<lparr>to_program := q, reads := tl (reads w)\<rparr> in
                    Some (if short then w\<lparr>pst := P_Exit ''data of the message missing''\<rparr>
                          else if um_type r = UM_SYSCALL
                          then w\<lparr>pst := (if retval r < 0 then P_Done (- 1) (Some (- retval r)) m else P_Done (retval r) None m)\<rparr>
                          else handle_kernelop r d w))
           | _ \<Rightarrow> None)
      | _ \<Rightarrow> None)"

inductive step :: "kernel_code \<Rightarrow> world \<Rightarrow> world \<Rightarrow> bool" for code where
  kernel: "kernel_step code w = Some w' \<Longrightarrow> step code w w'"
| program: "program_step w = Some w' \<Longrightarrow> step code w w'"

inductive_simps step_iff: "step code w w'"

text \<open>The two library functions: the message that each sends, and what \<open>getsockopt\<close> stores as the length when it has returned.\<close>

definition getsockopt :: "u64 \<Rightarrow> u64 \<Rightarrow> u64 \<Rightarrow> pstate" where
  "getsockopt optname optval optlen =
     P_Call \<lparr>um_type = UM_SYSCALL, opcode = SYS_GETSOCKOPT, um_len = 0, um_args = [PF_INET, optname, optval, optlen], retval = 0\<rparr>"

definition setsockopt :: "u64 \<Rightarrow> u64 \<Rightarrow> u64 \<Rightarrow> pstate" where
  "setsockopt optname optval optlen =
     P_Call \<lparr>um_type = UM_SYSCALL, opcode = SYS_SETSOCKOPT, um_len = 0, um_args = [PF_INET, optname, optval, optlen], retval = 0\<rparr>"

definition stored_optlen :: "pstate \<Rightarrow> u64 option" where
  "stored_optlen p = (case p of P_Done _ _ m \<Rightarrow> Some (um_args m ! 3) | _ \<Rightarrow> None)"

section \<open>The main loop\<close>

text \<open>
  \<open>wait_for_output\<close>, as a function of what \<^verbatim>\<open>select\<close> and the reads return: an error number, or what \<^verbatim>\<open>read\<close> gives for the program's output if it is
  ready (nothing at the end) and whether \<open>handle_userspace_message\<close> has read a message if one is ready. The two flags say which
  descriptors are open; \<open>Waiting\<close> is a wait that goes on when the results given are used up.
\<close>

datatype select_result = Select_error int | Select_ready "string option" "bool option"

datatype wait_result = Output string | Finished | Waiting | Wait_barf

fun wait_for_output :: "nat \<Rightarrow> bool \<Rightarrow> bool \<Rightarrow> select_result list \<Rightarrow> wait_result" where
  "wait_for_output retry io msg evs =
     (if \<not> io \<and> \<not> msg then Finished
      else
        case evs of
          [] \<Rightarrow> Waiting
        | Select_error e # evs \<Rightarrow> if (e = 4 \<or> e = 11) \<and> Suc retry < 3 then wait_for_output (Suc retry) io msg evs else Wait_barf
        | Select_ready out m # evs \<Rightarrow>
            (case (if io then out else None) of
               Some (c # cs) \<Rightarrow> Output (take 1023 (c # cs))
             | o' \<Rightarrow> wait_for_output retry (io \<and> o' = None) (msg \<and> m \<noteq> Some False) evs))"

text \<open>The \<^verbatim>\<open>strace\<close> command of tools/strace.c: whether it succeeds, the new setting and what it reports.\<close>

definition parse_strace :: "string list \<Rightarrow> bool \<Rightarrow> bool \<times> bool \<times> string option" where
  "parse_strace argv on =
     (if length argv = 1 then if on then (False, on, Some ''stracing already on!'') else (True, True, None)
      else if length argv = 2 \<and> argv ! 1 = ''off'' then if \<not> on then (False, on, Some ''stracing already off!'') else (True, False, None)
      else (False, on, None))"

declare wait_for_output.simps [simp del]

text \<open>Output that has ended gives no further text, whatever messages still come.\<close>

lemma no_output_after_end: "wait_for_output r False msg evs \<noteq> Output t"
proof (induction evs arbitrary: r msg)
  case Nil
  then show ?case by (simp add: wait_for_output.simps)
next
  case (Cons e evs)
  then show ?case by (subst wait_for_output.simps) (auto split: select_result.split)
qed

lemma parse_strace_twice: "parse_strace argv on = (True, on', msg) \<Longrightarrow> on' \<noteq> on \<and> fst (parse_strace argv on') = False"
  by (auto simp: parse_strace_def split: if_splits)

section \<open>Files and sockets\<close>

text \<open>
  The other calls that the library intercepts. What they give to the real function is the path or, for \<open>socket\<close> and \<open>close\<close>,
  nothing when the library answers itself.
\<close>

definition file_is_proc :: "string option \<Rightarrow> bool" where
  "file_is_proc pathname \<longleftrightarrow> (case pathname of None \<Rightarrow> False | Some s \<Rightarrow> length s \<ge> 6 \<and> take 6 s = ''/proc/'')"

text \<open>The size of the buffer and the string built in it.\<close>

definition mangle_alloc_proc_path :: "string \<Rightarrow> string \<Rightarrow> nat \<times> string" where
  "mangle_alloc_proc_path proc_prefix pathname = (length pathname + length proc_prefix, proc_prefix @ drop 5 pathname)"

definition O_CREAT :: u32 where "O_CREAT = 0x40"

definition open_real :: "bool \<Rightarrow> string \<Rightarrow> string option \<Rightarrow> u32 \<Rightarrow> u32 \<Rightarrow> int + (string option \<times> u32 \<times> u32)" where
  "open_real malloc_fails proc_prefix pathname oflags omode =
     (let md = (if oflags AND O_CREAT \<noteq> 0 then omode else 0) in
      if \<not> file_is_proc pathname then Inr (pathname, oflags, md)
      else if malloc_fails then Inl (- 12)
      else Inr (Some (snd (mangle_alloc_proc_path proc_prefix (the pathname))), oflags, md))"

text \<open>The value that \<^verbatim>\<open>errno\<close> gets, or the path and the mode.\<close>

definition fopen_real :: "bool \<Rightarrow> string \<Rightarrow> string option \<Rightarrow> string \<Rightarrow> int + (string option \<times> string)" where
  "fopen_real malloc_fails proc_prefix path fmode =
     (if \<not> file_is_proc path then Inr (path, fmode)
      else if malloc_fails then Inl (- 12)
      else Inr (Some (snd (mangle_alloc_proc_path proc_prefix (the path))), fmode))"

definition socket :: "int \<Rightarrow> (int \<Rightarrow> int \<Rightarrow> int \<Rightarrow> int) \<Rightarrow> int \<Rightarrow> int \<Rightarrow> int \<Rightarrow> int" where
  "socket sd real domain type protocol = (if domain = 2 \<and> type = 3 \<and> protocol = 255 then sd else real domain type protocol)"

definition close_real :: "int \<Rightarrow> int \<Rightarrow> int option" where
  "close_real sd fd = (if fd = sd then None else Some fd)"

text \<open>The string fits into its buffer, and is the file below the prefix with the same name as below /proc.\<close>

lemma mangle_fits: "file_is_proc (Some s) \<Longrightarrow> length (snd (mangle_alloc_proc_path p s)) < fst (mangle_alloc_proc_path p s)"
  by (auto simp: file_is_proc_def mangle_alloc_proc_path_def)

lemma open_redirected: "open_real False p (Some (''/proc/'' @ r)) fl md = Inr (Some (p @ ''/'' @ r), fl, if fl AND O_CREAT \<noteq> 0 then md else 0)"
  by (simp add: open_real_def file_is_proc_def mangle_alloc_proc_path_def)

section \<open>A call is a direct call\<close>

text \<open>
  The kernel's code run directly on both memories: the value and the length that it returns, the decisions left and the memories.
\<close>

primrec direct :: "kernel \<Rightarrow> bool list \<Rightarrow> memory \<Rightarrow> memory \<Rightarrow> (int \<times> u64 \<times> bool list \<times> memory \<times> memory) outcome" where
  "direct (K_Return r l) = (\<lambda>fs km pm. Ok (r, l, fs, km, pm))"
| "direct (K_Compute f k) = (\<lambda>fs km pm. direct (k km) fs (f km) pm)"
| "direct (K_Copy_to to from n k) = (\<lambda>fs km pm.
     if fails_now fs then direct (k (ucast n)) (tl fs) km pm
     else if n \<ge> 0x10000000 - um_size then Barf ''too long''
     else direct (k 0) (tl fs) km (mem_store to (mem_range from n km) pm))"
| "direct (K_Copy_from to from n k) = (\<lambda>fs km pm.
     if fails_now fs then direct (k (ucast n)) (tl fs) km pm
     else if n \<ge> 0x80000000 then Barf ''too long''
     else direct (k 0) (tl fs) (mem_store to (mem_range from n pm) km) pm)"

text \<open>A step without an alternative.\<close>

definition forced :: "kernel_code \<Rightarrow> world \<Rightarrow> world \<Rightarrow> bool" where
  "forced code w w' \<longleftrightarrow> (\<forall>v. step code w v \<longleftrightarrow> v = w')"

lemma forced_kernel: "kernel_step code w = Some w' \<Longrightarrow> program_step w = None \<Longrightarrow> forced code w w'"
  by (auto simp: forced_def step_iff)

lemma forced_program: "kernel_step code w = None \<Longrightarrow> program_step w = Some w' \<Longrightarrow> forced code w w'"
  by (auto simp: forced_def step_iff)

lemma forced_inevitable:
  assumes "(forced code)\<^sup>*\<^sup>* w w'" "\<forall>v. \<not> step code w' v" "(step code)\<^sup>*\<^sup>* w v"
  shows "(step code)\<^sup>*\<^sup>* v w'"
  using assms
proof (induction arbitrary: v rule: converse_rtranclp_induct)
  case base
  then show ?case by (metis converse_rtranclpE rtranclp.rtrancl_refl)
next
  case (step w u)
  from step(5) show ?case
  proof (cases rule: converse_rtranclpE)
    case base
    have "(forced code)\<^sup>*\<^sup>* w w'" using step(1,2) by (rule converse_rtranclp_into_rtranclp)
    moreover have "forced code \<le> step code" by (auto simp: forced_def)
    ultimately show ?thesis using base rtranclp_mono by blast
  next
    case (step y)
    then show ?thesis using \<open>forced code w u\<close> \<open>\<And>v. _ \<Longrightarrow> _ \<Longrightarrow> (step code)\<^sup>*\<^sup>* v w'\<close> assms(2) by (simp add: forced_def)
  qed
qed

lemma mem_range_length [simp]: "length (mem_range a n m) = unat n"
  by (simp add: mem_range_def)

lemma mem_store_Nil [simp]: "mem_store a [] m = m"
  by (simp add: mem_store_def)

lemma trace_fields [simp]:
  "to_kernel (trace l w) = to_kernel w" "to_program (trace l w) = to_program w" "kmem (trace l w) = kmem w" "pmem (trace l w) = pmem w"
  "pst (trace l w) = pst w" "fails (trace l w) = fails w" "reads (trace l w) = reads w" "strace (trace l w) = strace w" "kst (trace (Ok t) w) = kst w"
  by (auto simp: trace_def split: outcome.split)

text \<open>The simulator runs the kernel's code for a call of the program \<open>p\<close>, which waits; no message is under way.\<close>

definition running :: "nf_userspace_message \<Rightarrow> nf_userspace_message \<Rightarrow> kernel \<Rightarrow> world \<Rightarrow> bool" where
  "running p m t w \<longleftrightarrow>
     kst w = K_Run m t [] \<and> um_type m = UM_SYSCALL \<and> um_len m = 0 \<and> pst w = P_Wait p \<and> to_kernel w = [] \<and> to_program w = [] \<and> reads w = []"

text \<open>The program has returned from its call as from a real one, and the simulator is ready for the next.\<close>

definition returned :: "nf_userspace_message \<Rightarrow> int \<Rightarrow> world \<Rightarrow> bool" where
  "returned p r w \<longleftrightarrow>
     kst w = K_Wait [] \<and> to_kernel w = [] \<and> to_program w = [] \<and>
     pst w = (if r < 0 then P_Done (- 1) (Some (- r)) p else P_Done r None p)"

definition traceable :: "nf_userspace_message \<Rightarrow> int \<Rightarrow> u64 \<Rightarrow> world \<Rightarrow> bool" where
  "traceable m r l w \<longleftrightarrow> (strace w \<longrightarrow> (\<exists>t. trace_result (opcode m = SYS_GETSOCKOPT) r l = Ok t))"

lemma blocked_program: "pst w = P_Wait p \<Longrightarrow> to_program w = [] \<Longrightarrow> program_step w = None"
  by (simp add: program_step_def)

lemma blocked_kernel: "kst w = K_Wait fr \<Longrightarrow> to_kernel w = [] \<Longrightarrow> kernel_step code w = None"
  by (simp add: kernel_step_def handle_userspace_message_def)

lemma go_waiting: "kst w = K_Wait fr \<Longrightarrow> go k w = w\<lparr>kst := k\<rparr>"
  by (simp add: go_def)

lemma run_return:
  assumes "running p m (K_Return r l) w" "traceable m r l w"
  shows "\<exists>w'. (forced code)\<^sup>*\<^sup>* w w' \<and> returned p r w' \<and> fails w' = fails w \<and> kmem w' = kmem w \<and> pmem w' = pmem w"
proof -
  note a = assms(1) [unfolded running_def]
  let ?get = "opcode m = SYS_GETSOCKOPT"
  let ?m = "m\<lparr>retval := r, um_args := (if ?get then (um_args m)[3 := l] else um_args m)\<rparr>"
  let ?t = "trace (trace_result ?get r l) w"
  have k: "kst ?t = K_Run m (K_Return r l) []"
    using assms(2) a by (cases "trace_result ?get r l") (auto simp: trace_def traceable_def)
  let ?w1 = "?t\<lparr>to_program := [Hdr ?m], kst := K_Wait []\<rparr>"
  have 1: "forced code w ?w1"
    using a k by (intro forced_kernel blocked_program [of _ p]) (simp_all add: kernel_step_def finish_syscall_def Let_def handled_def)
  let ?w2 = "?w1\<lparr>to_program := [], reads := [], pst := (if r < 0 then P_Done (- 1) (Some (- r)) p else P_Done r None p)\<rparr>"
  have 2: "forced code ?w1 ?w2"
    using a by (intro forced_program blocked_kernel) (simp_all add: program_step_def take_payload_def short_read_def)
  have "(forced code)\<^sup>*\<^sup>* w ?w2" using 1 2 by (meson converse_rtranclp_into_rtranclp r_into_rtranclp)
  then show ?thesis using a by (intro exI [of _ ?w2]) (simp add: returned_def)
qed

lemma run_compute: "running p m (K_Compute f k) w \<Longrightarrow>
    forced code w (w\<lparr>kmem := f (kmem w), kst := K_Run m (k (kmem w)) []\<rparr>) \<and> running p m (k (kmem w)) (w\<lparr>kmem := f (kmem w), kst := K_Run m (k (kmem w)) []\<rparr>)"
  by (intro conjI forced_kernel blocked_program [of _ p]) (simp_all add: running_def kernel_step_def)

text \<open>One copy: the decision to fail, or a message, its answer and the rest.\<close>

lemma run_copy_fails:
  assumes "t = K_Copy_to to from n k \<or> t = K_Copy_from to from n k" "running p m t w" "fails_now (fails w)"
  shows "\<exists>v. forced code w v \<and> running p m (k (ucast n)) v \<and> fails v = tl (fails w) \<and> kmem v = kmem w \<and> pmem v = pmem w \<and> strace v = strace w"
proof -
  note a = assms(2) [unfolded running_def]
  obtain out where f: "forced code w ((trace (Ok (trace_copy out to n True)) (w\<lparr>fails := tl (fails w)\<rparr>))\<lparr>kst := K_Run m (k (ucast n)) []\<rparr>)"
  proof (cases "t = K_Copy_to to from n k")
    case True
    then have "forced code w ((trace (Ok (trace_copy True to n True)) (w\<lparr>fails := tl (fails w)\<rparr>))\<lparr>kst := K_Run m (k (ucast n)) []\<rparr>)"
      using a assms(3) by (intro forced_kernel blocked_program [of _ p]) (simp_all add: kernel_step_def copy_to_user_def)
    then show thesis by (rule that)
  next
    case False
    then have "t = K_Copy_from to from n k" using assms(1) by blast
    then have "forced code w ((trace (Ok (trace_copy False to n True)) (w\<lparr>fails := tl (fails w)\<rparr>))\<lparr>kst := K_Run m (k (ucast n)) []\<rparr>)"
      using a assms(3) by (intro forced_kernel blocked_program [of _ p]) (simp_all add: kernel_step_def copy_from_user_def)
    then show thesis by (rule that)
  qed
  show ?thesis by (rule exI, rule conjI, rule f) (use a in \<open>simp add: running_def\<close>)
qed

lemma take_payload_exact [simp]:
  "take_payload n (if n = 0 then [] else [Payload (mem_range a n mem)]) = Some (if n = 0 then [] else mem_range a n mem, [])"
  by (simp add: take_payload_def)

lemma mem_range_0 [simp]: "mem_range a 0 mem = []"
  by (simp add: mem_range_def)

lemma if_mem_range: "(if n = 0 then [] else mem_range a n mem) = mem_range a n mem"
  by simp

lemma run_copy_to:
  assumes "running p m (K_Copy_to to from n k) w" "\<not> fails_now (fails w)" "n < 0x10000000 - um_size"
  shows "\<exists>v. (forced code)\<^sup>*\<^sup>* w v \<and> running p m (k 0) v \<and> fails v = tl (fails w) \<and> kmem v = kmem w \<and>
    pmem v = mem_store to (mem_range from n (kmem w)) (pmem w) \<and> strace v = strace w"
proof -
  note a = assms(1) [unfolded running_def]
  let ?t = "trace (Ok (trace_copy True to n False)) (w\<lparr>fails := tl (fails w)\<rparr>)"
  let ?h = "kernelop KOP_COPY_TO_USER (uint n) to from n" and ?d = "mem_range from n (kmem w)"
  let ?w1 = "?t\<lparr>to_program := Hdr ?h # (if n = 0 then [] else [Payload ?d]), kst := K_Wait [(m, k)]\<rparr>"
  let ?w2 = "?w1\<lparr>to_program := [], reads := [], pmem := mem_store to ?d (pmem w), to_kernel := [Hdr (?h\<lparr>um_len := 0\<rparr>)]\<rparr>"
  let ?w3 = "?w2\<lparr>to_kernel := [], kst := K_Run m (k 0) []\<rparr>"
  have 1: "forced code w ?w1"
    using a assms(2,3) by (intro forced_kernel blocked_program [of _ p]) (simp_all add: kernel_step_def copy_to_user_def Let_def not_le)
  have 2: "forced code ?w1 ?w2"
    using a by (intro forced_program blocked_kernel [of _ "[(m, k)]"])
      (simp_all add: program_step_def short_read_def kernelop_def handle_kernelop_def if_mem_range opcodes Let_def)
  have 3: "forced code ?w2 ?w3"
    using a by (intro forced_kernel blocked_program [of _ p])
      (simp_all add: kernel_step_def handle_userspace_message_def kernelop_def handled_def opcodes Let_def)
  have "(forced code)\<^sup>*\<^sup>* w ?w3" using 1 2 3 by (meson converse_rtranclp_into_rtranclp r_into_rtranclp)
  then show ?thesis using a by (intro exI [of _ ?w3]) (simp add: running_def)
qed

lemma run_copy_from:
  assumes "running p m (K_Copy_from to from n k) w" "\<not> fails_now (fails w)" "n < 0x80000000"
  shows "\<exists>v. (forced code)\<^sup>*\<^sup>* w v \<and> running p m (k 0) v \<and> fails v = tl (fails w) \<and> pmem v = pmem w \<and>
    kmem v = mem_store to (mem_range from n (pmem w)) (kmem w) \<and> strace v = strace w"
proof -
  note a = assms(1) [unfolded running_def]
  let ?t = "trace (Ok (trace_copy False to n False)) (w\<lparr>fails := tl (fails w)\<rparr>)"
  let ?h = "kernelop KOP_COPY_FROM_USER 0 to from n" and ?d = "mem_range from n (pmem w)"
  let ?w1 = "?t\<lparr>to_program := [Hdr ?h], kst := K_Wait [(m, k)]\<rparr>"
  let ?w2 = "?w1\<lparr>to_program := [], reads := [], to_kernel := Hdr (?h\<lparr>um_len := uint n\<rparr>) # (if n = 0 then [] else [Payload ?d])\<rparr>"
  let ?w3 = "?w2\<lparr>to_kernel := [], kmem := mem_store to ?d (kmem w), kst := K_Run m (k 0) []\<rparr>"
  have 1: "forced code w ?w1"
    using a assms(2,3) by (intro forced_kernel blocked_program [of _ p]) (simp_all add: kernel_step_def copy_from_user_def Let_def)
  have 2: "forced code ?w1 ?w2"
    using a assms(3) by (intro forced_program blocked_kernel [of _ "[(m, k)]"])
      (simp_all add: program_step_def short_read_def kernelop_def handle_kernelop_def take_payload_def opcodes Let_def not_le)
  have 3: "forced code ?w2 ?w3"
    using a assms(3) by (intro forced_kernel blocked_program [of _ p])
      (simp_all add: kernel_step_def handle_userspace_message_def kernelop_def handled_def opcodes if_mem_range Let_def not_le)
  have "(forced code)\<^sup>*\<^sup>* w ?w3" using 1 2 3 by (meson converse_rtranclp_into_rtranclp r_into_rtranclp)
  then show ?thesis using a by (intro exI [of _ ?w3]) (simp add: running_def)
qed

lemma run_kernel:
  assumes "running p m t w" "direct t (fails w) (kmem w) (pmem w) = Ok (r, l, fs, km, pm)" "traceable m r l w"
  shows "\<exists>w'. (forced code)\<^sup>*\<^sup>* w w' \<and> returned p r w' \<and> fails w' = fs \<and> kmem w' = km \<and> pmem w' = pm"
  using assms
proof (induction t arbitrary: w)
  case (K_Return x y)
  then show ?case using run_return [of p m r l w code] by auto
next
  case (K_Compute f k)
  let ?v = "w\<lparr>kmem := f (kmem w), kst := K_Run m (k (kmem w)) []\<rparr>"
  have v: "forced code w ?v" "running p m (k (kmem w)) ?v" using run_compute [OF K_Compute(2)] by blast+
  have "traceable m r l ?v" using K_Compute(4) by (simp add: traceable_def)
  then show ?case using K_Compute(1) [OF rangeI v(2)] K_Compute(3) converse_rtranclp_into_rtranclp [of "forced code", OF v(1)] by fastforce
next
  case (K_Copy_to to src n k)
  show ?case
  proof (cases "fails_now (fails w)")
    case True
    obtain v where v: "forced code w v" "running p m (k (ucast n)) v" "fails v = tl (fails w)" "kmem v = kmem w" "pmem v = pmem w" "strace v = strace w"
      using run_copy_fails [OF disjI1 [OF refl] K_Copy_to(2) True] by blast
    have "traceable m r l v" using K_Copy_to(4) v(6) by (simp add: traceable_def)
    then show ?thesis using K_Copy_to(1) [OF rangeI v(2)] K_Copy_to(3) True v(3-5) converse_rtranclp_into_rtranclp [of "forced code", OF v(1)] by fastforce
  next
    case False
    then have n: "n < 0x10000000 - um_size" using K_Copy_to(3) by (auto split: if_splits)
    obtain v where v: "(forced code)\<^sup>*\<^sup>* w v" "running p m (k 0) v" "fails v = tl (fails w)" "kmem v = kmem w"
      "pmem v = mem_store to (mem_range src n (kmem w)) (pmem w)" "strace v = strace w"
      using run_copy_to [OF K_Copy_to(2) False n] by blast
    have "traceable m r l v" using K_Copy_to(4) v(6) by (simp add: traceable_def)
    moreover have "direct (k 0) (fails v) (kmem v) (pmem v) = Ok (r, l, fs, km, pm)"
      using K_Copy_to(3) False n [folded not_le] by (simp add: v(3-5))
    ultimately show ?thesis using K_Copy_to(1) [OF rangeI v(2)] rtranclp_trans [of "forced code", OF v(1)] by blast
  qed
next
  case (K_Copy_from to src n k)
  show ?case
  proof (cases "fails_now (fails w)")
    case True
    obtain v where v: "forced code w v" "running p m (k (ucast n)) v" "fails v = tl (fails w)" "kmem v = kmem w" "pmem v = pmem w" "strace v = strace w"
      using run_copy_fails [OF disjI2 [OF refl] K_Copy_from(2) True] by blast
    have "traceable m r l v" using K_Copy_from(4) v(6) by (simp add: traceable_def)
    then show ?thesis using K_Copy_from(1) [OF rangeI v(2)] K_Copy_from(3) True v(3-5) converse_rtranclp_into_rtranclp [of "forced code", OF v(1)] by fastforce
  next
    case False
    then have n: "n < 0x80000000" using K_Copy_from(3) by (auto split: if_splits)
    obtain v where v: "(forced code)\<^sup>*\<^sup>* w v" "running p m (k 0) v" "fails v = tl (fails w)" "pmem v = pmem w"
      "kmem v = mem_store to (mem_range src n (pmem w)) (kmem w)" "strace v = strace w"
      using run_copy_from [OF K_Copy_from(2) False n] by blast
    have "traceable m r l v" using K_Copy_from(4) v(6) by (simp add: traceable_def)
    moreover have "direct (k 0) (fails v) (kmem v) (pmem v) = Ok (r, l, fs, km, pm)"
      using K_Copy_from(3) False n [folded not_le] by (simp add: v(3-5))
    ultimately show ?thesis using K_Copy_from(1) [OF rangeI v(2)] rtranclp_trans [of "forced code", OF v(1)] by blast
  qed
qed

text \<open>
  C13. A \<open>getsockopt\<close> or \<open>setsockopt\<close> of the program ends, whatever order the two processes run in, and its effect is
  that of running the kernel's code directly on the memories of both: the same bytes are copied, simulated failures included, the
  program gets the kernel's value, or -1 with the error number, and afterwards no message is left and the simulator waits for the next
  call. This holds when every \<^verbatim>\<open>read\<close> of the library returns all the data asked for (\<open>reads w = []\<close>; see \<open>short_read_unnoticed\<close> for one that does not) and
  when the direct run stays within the sizes that a message can have: copies to the program below 256 MB less the header, from it below 2 GB.
\<close>

theorem syscall_is_direct:
  assumes "pst w \<in> {getsockopt optname optval optlen, setsockopt optname optval optlen}"
    and "kst w = K_Wait []" "to_kernel w = []" "to_program w = []" "reads w = []"
  defines "get \<equiv> pst w = getsockopt optname optval optlen"
  assumes "direct ((if get then nf_getsockopt code else nf_setsockopt code) PF_INET optname optval optlen) (fails w) (kmem w) (pmem w) =
      Ok (r, l, fs, km, pm)"
    and "\<And>m. strace w \<Longrightarrow> pst w = P_Call m \<Longrightarrow> \<exists>t t'. trace_call (ipt code) get m = Ok t \<and> trace_result get r l = Ok t'"
  shows "\<exists>w' m. (step code)\<^sup>*\<^sup>* w w' \<and> returned m r w' \<and> pst w = P_Call m \<and> fails w' = fs \<and> kmem w' = km \<and> pmem w' = pm \<and>
    (\<forall>v. (step code)\<^sup>*\<^sup>* w v \<longrightarrow> (step code)\<^sup>*\<^sup>* v w')"
proof -
  define m where "m = \<lparr>um_type = UM_SYSCALL, opcode = (if get then SYS_GETSOCKOPT else SYS_SETSOCKOPT), um_len = 0,
    um_args = [PF_INET, optname, optval, optlen], retval = 0\<rparr>"
  have p: "pst w = (if get then getsockopt optname optval optlen else setsockopt optname optval optlen)" using assms(1) unfolding get_def by auto
  have "pst w = P_Call m" unfolding p m_def by (simp add: getsockopt_def setsockopt_def)
  then have m: "pst w = P_Call m" "um_type m = UM_SYSCALL" "um_len m = 0" "retval m = 0" "um_args m = [PF_INET, optname, optval, optlen]"
    "opcode m = (if get then SYS_GETSOCKOPT else SYS_SETSOCKOPT)" by (simp_all add: m_def)
  let ?t = "(if get then nf_getsockopt code else nf_setsockopt code) PF_INET optname optval optlen"
  have m': "m\<lparr>um_type := UM_SYSCALL, um_len := 0, retval := 0\<rparr> = m" by (simp add: m_def)
  let ?w1 = "w\<lparr>to_kernel := [Hdr m], pst := P_Wait m\<rparr>"
  have 1: "forced code w ?w1"
    using assms(2-5) m(1) m' by (intro forced_program blocked_kernel) (simp_all add: program_step_def)
  let ?w2 = "(trace (trace_call (ipt code) get m) (?w1\<lparr>to_kernel := []\<rparr>))\<lparr>kst := K_Run m ?t []\<rparr>"
  have tr: "kst (trace (trace_call (ipt code) get m) (?w1\<lparr>to_kernel := []\<rparr>)) = K_Wait []"
    using assms(2,8) m(1) by (cases "strace w") (auto simp: trace_def)
  have h: "handle_syscall code m [] u = go (K_Run m ?t []) (trace (trace_call (ipt code) get m) u)" for u
    using m(5,6) by (cases get) (simp_all add: handle_syscall_def opcodes)
  have "kernel_step code ?w1 = Some (handle_syscall code m [] (?w1\<lparr>to_kernel := []\<rparr>))"
    using assms(2) m(2) by (simp add: kernel_step_def handle_userspace_message_def)
  then have "kernel_step code ?w1 = Some ?w2" unfolding h go_waiting [OF tr] .
  then have 2: "forced code ?w1 ?w2" using assms(4) by (intro forced_kernel blocked_program [of _ m]) simp_all
  have run: "running m m ?t ?w2" using m assms(4,5) by (simp add: running_def)
  have get: "(opcode m = SYS_GETSOCKOPT) = get" using m(6) by (simp add: opcodes)
  have "traceable m r l ?w2" using assms(8) [OF _ m(1)] unfolding traceable_def get by simp
  then obtain w' where w': "(forced code)\<^sup>*\<^sup>* ?w2 w'" "returned m r w'" "fails w' = fs" "kmem w' = km" "pmem w' = pm"
    using run_kernel [OF run, of r l fs km pm code] assms(7) by auto
  have f: "(forced code)\<^sup>*\<^sup>* w w'" using 1 2 w'(1) by (meson converse_rtranclp_into_rtranclp)
  have stuck: "\<forall>v. \<not> step code w' v"
    using w'(2) by (auto simp: step_iff returned_def blocked_kernel program_step_def split: if_splits)
  show ?thesis
    using w' m(1) forced_inevitable [OF f stuck] by blast
qed

text \<open>A kernel that reads two bytes at the address given and stores them at its address 100.\<close>

definition reading_kernel :: kernel_code where
  "reading_kernel =
     \<lparr>nf_getsockopt = (\<lambda>_ _ _ _. K_Return (- 22) 0),
      nf_setsockopt = (\<lambda>_ _ val _. K_Copy_from 100 val 2 (\<lambda>e. K_Return (if e = 0 then 0 else - 14) 0)),
      ipt = \<lparr>IPT_SO_GET_INFO = 64, IPT_SO_GET_ENTRIES = 65, IPT_SO_SET_REPLACE = 64, IPT_SO_SET_ADD_COUNTERS = 65\<rparr>\<rparr>"

definition calling_world :: "bool list \<Rightarrow> world" where
  "calling_world fs =
     \<lparr>to_kernel = [], to_program = [], kmem = (\<lambda>_. 0), pmem = (\<lambda>_. 7), kst = K_Wait [], pst = setsockopt 64 500 2, fails = fs, reads = [], strace = False,
      ulog = [], exit_status = None\<rparr>"

theorem syscall_is_direct_witness:
  "\<exists>w' m. (step reading_kernel)\<^sup>*\<^sup>* (calling_world [False]) w' \<and> returned m 0 w' \<and> kmem w' 100 = 7"
proof -
  have p: "pst (calling_world [False]) = setsockopt 64 500 2" "setsockopt 64 500 2 \<noteq> getsockopt 64 500 2"
    by (simp_all add: calling_world_def setsockopt_def getsockopt_def opcodes)
  have d: "direct (nf_setsockopt reading_kernel PF_INET 64 500 2) (fails (calling_world [False])) (kmem (calling_world [False])) (pmem (calling_world [False])) =
      Ok (0, 0, [], mem_store 100 (mem_range 500 2 (\<lambda>_. 7)) (\<lambda>_. 0), \<lambda>_. 7)"
    by (simp add: reading_kernel_def calling_world_def fails_now_def)
  have "mem_store 100 (mem_range 500 2 (\<lambda>_. 7)) (\<lambda>_. 0) 100 = 7" by (simp add: mem_store_def mem_range_def)
  then show ?thesis
    using syscall_is_direct [of "calling_world [False]" 64 500 2 reading_kernel 0 0 "[]" "mem_store 100 (mem_range 500 2 (\<lambda>_. 7)) (\<lambda>_. 0)" "\<lambda>_. 7"] p d
    by (auto simp: calling_world_def)
qed

text \<open>A read that returns less than the message announces is not noticed by the comparison with the length of the request, which is 0.\<close>

lemma short_read_unnoticed:
  assumes "pst w = P_Wait p" "to_program w = Hdr (kernelop KOP_COPY_TO_USER 2 to from 2) # Payload [1, 2] # q" "reads w = 1 # ks"
  shows "program_step w = Some (w\<lparr>to_program := q, reads := ks, pst := P_Exit ''data of the message missing''\<rparr>)"
  using assms by (simp add: program_step_def take_payload_def kernelop_def short_read_def)

text \<open>The length that the kernel returns is lost: \<open>getsockopt\<close> stores the one of its own request.\<close>

lemma getsockopt_length_lost: "returned m r w \<Longrightarrow> stored_optlen (pst w) = Some (um_args m ! 3)"
  by (simp add: returned_def stored_optlen_def)

end
