(* ===== verification/Ifconfig.thy ===== *)
theory Ifconfig
  imports Describe
begin

text \<open>
  The \<^verbatim>\<open>ifconfig\<close> command, tools/ifconfig.c, and the devices that core/core.c creates at the start. A device that is
  brought up is shown to get its address and its route, and to leave nothing behind when it is brought down.
\<close>

section \<open>State\<close>

text \<open>
  Besides interfaces, routes and cache: the counter of interface indices, the next identity of a route, the
  notifications sent (the last one first, \<open>True\<close> for \<^verbatim>\<open>NETDEV_UP\<close>), the lines printed and what the memory of a new address holds.
\<close>

record if_state =
  ipst :: ip_state
  ifindex_counter :: int
  next_rid :: nat
  notified :: "(bool \<times> in_ifaddr) list"
  printed :: "string list"
  fresh_ifaddr :: in_ifaddr

definition if_log :: "string \<Rightarrow> if_state \<Rightarrow> if_state" where
  "if_log line s = s\<lparr>printed := line # printed s\<rparr>"

definition ifa_line :: "in_ifaddr \<Rightarrow> string" where
  "ifa_line ifa =
     CHR 0x09 # ''addr:  '' @ dotted (ifa_local ifa) @ CHR 0x09 # ''mask:  '' @ dotted (ifa_mask ifa) @ CHR 0x09 # ''bcast: '' @ dotted (ifa_broadcast ifa)"

definition ifshow :: "net_device \<Rightarrow> if_state \<Rightarrow> (bool \<times> if_state) outcome" where
  "ifshow dev s =
     (case ip_ptr dev of
        None \<Rightarrow> Barf ''NULL pointer''
      | Some ifas \<Rightarrow>
          Ok (True,
              if_log (CHR 0x09 # ''RX packets: '' @ show_nat (rxpackets dev) @ '' bytes: '' @ show_nat (rxbytes dev) @
                  CHR 0x0A # CHR 0x09 # ''TX packets: '' @ show_nat (txpackets dev) @ '' bytes: '' @ show_nat (txbytes dev) @ [CHR 0x0A])
                (fold (\<lambda>ifa. if_log (ifa_line ifa)) ifas (if_log (dname dev) s))))"

section \<open>Setting an address\<close>

text \<open>
  Each part of \<open>set_device\<close> changes the address at once, also when a later part fails. The result: success, the address, whether
  \<^verbatim>\<open>NETDEV_UP\<close> was sent (with the address as it was then) and the message. A read behind the last argument is an error.
\<close>

definition quote :: "string \<Rightarrow> string" where
  "quote s = CHR 0x27 # s @ [CHR 0x27]"

type_synonym set_result = "(bool \<times> in_ifaddr \<times> string option) outcome"

definition set_broadcast :: "string list \<Rightarrow> in_ifaddr \<Rightarrow> set_result" where
  "set_broadcast args ifa =
     (case args of
        [] \<Rightarrow> Barf ''NULL pointer''
      | a # _ \<Rightarrow>
          (case inet_aton a of
             None \<Rightarrow> Ok (False, ifa, Some (''invalid broadcast address '' @ quote a))
           | Some x \<Rightarrow> Ok (True, ifa\<lparr>ifa_broadcast := x\<rparr>, None)))"

text \<open>
  A mask in dotted notation takes two arguments but is counted as one, so that one more argument is then expected than there is.
\<close>

definition set_mask :: "string list \<Rightarrow> in_ifaddr \<Rightarrow> set_result" where
  "set_mask args ifa =
     (case args of
        [] \<Rightarrow> Barf ''NULL pointer''
      | a # rest \<Rightarrow>
          if a = ''mask'' \<and> rest \<noteq> [] then
            (case inet_aton (hd rest) of
               None \<Rightarrow> Ok (False, ifa, Some (''invalid netmask '' @ quote (hd rest)))
             | Some x \<Rightarrow> set_broadcast (tl rest) (ifa\<lparr>ifa_mask := x\<rparr>))
          else
            let nbits = sint (atoi a) in
            if nbits < 8 \<or> nbits > 31 then Ok (False, ifa, Some (''nonsensical netmask bits '' @ quote a))
            else
              let ifa = ifa\<lparr>ifa_mask := htonl (NOT (drop_bit (nat nbits) 0xffffffff))\<rparr>
              in if rest = [] then Ok (True, ifa, None) else set_broadcast rest ifa)"

definition set_device :: "string list \<Rightarrow> in_ifaddr \<Rightarrow> (bool \<times> in_ifaddr \<times> in_ifaddr option \<times> string option) outcome" where
  "set_device args ifa =
     (case args of
        [] \<Rightarrow> Barf ''NULL pointer''
      | a # rest \<Rightarrow>
          (case inet_aton a of
             None \<Rightarrow> Ok (False, ifa, None, Some (''invalid interface address '' @ quote a))
           | Some x \<Rightarrow>
               let ifa = ifa\<lparr>ifa_local := x, ifa_address := x\<rparr> in
               if rest = [] then Ok (True, ifa, Some ifa, None)
               else bind_outcome (set_mask rest ifa) (\<lambda>(ok, ifa', msg). Ok (ok, ifa', Some ifa, msg))))"

text \<open>What the caller sees of it: the notification and the message.\<close>

definition report_set :: "in_ifaddr option \<Rightarrow> string option \<Rightarrow> if_state \<Rightarrow> if_state" where
  "report_set sent msg s =
     (let s = (case sent of None \<Rightarrow> s | Some ifa \<Rightarrow> s\<lparr>notified := (True, ifa) # notified s\<rparr>)
      in case msg of None \<Rightarrow> s | Some m \<Rightarrow> if_log m s)"

section \<open>Devices\<close>

definition new_device :: "string \<Rightarrow> int \<Rightarrow> in_ifaddr \<Rightarrow> net_device" where
  "new_device name i ifa =
     \<lparr>dname = take IFNAMSIZ name, ifindex = i, ip_ptr = Some [ifa], rxpackets = 0, rxbytes = 0, txpackets = 0, txbytes = 0\<rparr>"

definition create_device :: "string \<Rightarrow> string list \<Rightarrow> if_state \<Rightarrow> (net_device option \<times> if_state) outcome" where
  "create_device name args s =
     bind_outcome (set_device args (fresh_ifaddr s)) (\<lambda>(ok, ifa, sent, msg).
       let i = ifindex_counter s;
           s = report_set sent msg (s\<lparr>ifindex_counter := i + 1\<rparr>);
           dev = new_device name i ifa
       in if \<not> ok then Ok (None, s)
          else
            let st = add_route_for_device (next_rid s) dev (ipst s)
            in Ok (Some dev, s\<lparr>next_rid := Suc (next_rid s), ipst := st\<lparr>interfaces := interfaces st @ [dev]\<rparr>\<rparr>))"

text \<open>
  Freeing a device: the route allocated under it is taken off the table by its destructor, and the cache entries allocated under the device and that route
  go. Routes added with the route command are allocated elsewhere and stay.
\<close>

definition free_device :: "net_device \<Rightarrow> ip_state \<Rightarrow> ip_state" where
  "free_device dev st =
     drop_entries (Of_device (ifindex dev))
       (fold free_route (filter (\<lambda>r. rdestructor r \<and> interface r = ifindex dev) (routes st))
         (st\<lparr>interfaces := filter (\<lambda>d. ifindex d \<noteq> ifindex dev) (interfaces st)\<rparr>))"

fun show_all :: "net_device list \<Rightarrow> if_state \<Rightarrow> (bool \<times> if_state) outcome" where
  "show_all [] s = Ok (True, s)"
| "show_all (d # ds) s = bind_outcome (ifshow d s) (\<lambda>(_, s). show_all ds s)"

definition put_device :: "net_device \<Rightarrow> ip_state \<Rightarrow> ip_state" where
  "put_device dev st = st\<lparr>interfaces := map (\<lambda>d. if ifindex d = ifindex dev then dev else d) (interfaces st)\<rparr>"

definition ifconfig :: "string list \<Rightarrow> if_state \<Rightarrow> (bool \<times> if_state) outcome" where
  "ifconfig argv s =
     (let argc = length argv; name = argv ! 1; dev = interface_by_name name (ipst s) in
      if argc = 1 then show_all (interfaces (ipst s)) s
      else if strstarts (last argv) ''up'' then
        (case dev of
           Some d \<Rightarrow> Ok (False, if_log (''device '' @ quote (dname d) @ '' already exists'') s)
         | None \<Rightarrow>
             if argc < 4 then Ok (False, if_log ''not enough arguments to bring up device'' s)
             else bind_outcome (create_device name (drop 2 argv) s) (\<lambda>(_, s). Ok (True, s)))
      else
        (case dev of
           None \<Rightarrow> Ok (False, if_log (''No such device '' @ quote name) s)
         | Some d \<Rightarrow>
             if argc = 2 then ifshow d s
             else
               (case ip_ptr d of
                  Some (ifa # ifas) \<Rightarrow>
                    let s = s\<lparr>notified := (False, ifa) # notified s\<rparr> in
                    if argc = 3 \<and> strstarts (argv ! 2) ''down'' then Ok (True, s\<lparr>ipst := free_device d (ipst s)\<rparr>)
                    else
                      bind_outcome (set_device (drop 2 argv) ifa) (\<lambda>(ok, ifa, sent, msg).
                        Ok (ok, report_set sent msg (s\<lparr>ipst := put_device (d\<lparr>ip_ptr := Some (ifa # ifas)\<rparr>) (ipst s)\<rparr>)))
                | _ \<Rightarrow> Barf ''assert: ifaddr'')))"

text \<open>The devices that exist at the start.\<close>

definition core_init :: "if_state \<Rightarrow> if_state outcome" where
  "core_init s =
     bind_outcome (create_device ''lo'' [''127.0.0.1'', ''8'', ''127.255.255.255''] s) (\<lambda>(_, s).
     bind_outcome (create_device ''eth0'' [''192.168.0.1'', ''24'', ''192.168.0.255''] s) (\<lambda>(_, s).
     bind_outcome (create_device ''eth1'' [''192.168.1.1'', ''24'', ''192.168.1.255''] s) (\<lambda>(_, s).
       Ok (if_log ''core_init() completed'' s))))"

section \<open>Addresses as text\<close>

lemma split_on_part: "c \<notin> set p \<Longrightarrow> split_on c (p @ c # r) = p # split_on c r"
  by (induction p) auto

lemma split_on_last: "c \<notin> set p \<Longrightarrow> split_on c p = [p]"
  by (induction p) auto

lemma digits_base_10: "list_all isdigit s \<Longrightarrow> digits_in_base 10 s n = Some (foldl (\<lambda>n c. 10 * n + digit_value c) n s)"
  by (induction s arbitrary: n) (auto simp: isdigit_def digit_value_def hex_value_def Let_def)

lemma show_nat_hd: "0 < n \<Longrightarrow> hd (show_nat n) \<noteq> CHR ''0''"
proof (induction n rule: show_nat.induct)
  case (1 n)
  show ?case
  proof (cases "n < 10")
    case True
    then have "n \<in> {1, 2, 3, 4, 5, 6, 7, 8, 9}" using 1(2) by auto
    then show ?thesis using True by (elim insertE) (simp_all add: show_nat.simps digit_chars)
  next
    case False
    then have "hd (show_nat n) = hd (show_nat (n div 10))"
      using show_nat_digits [of "n div 10"] by (simp add: show_nat.simps [of n])
    then show ?thesis using 1(1) False by simp
  qed
qed

lemma aton_part_show: "aton_part (show_nat n) = Some (int n)"
proof (cases "n = 0")
  case True
  then show ?thesis by (simp add: show_nat.simps digit_chars aton_part_def hex_value_def)
next
  case False
  have d: "list_all isdigit (show_nat n)" "show_nat n \<noteq> []" "digits_value (show_nat n) = int n" using show_nat_digits [of n] by auto
  have "hd (show_nat n) \<noteq> CHR ''0''" using show_nat_hd False by blast
  moreover from this have "take 2 (show_nat n) \<noteq> ''0x''" "take 2 (show_nat n) \<noteq> ''0X''"
    by (metis hd_take list.sel(1) zero_less_numeral)+
  ultimately show ?thesis
    using digits_base_10 [OF d(1), of 0] d by (simp add: aton_part_def digits_value_def)
qed

lemma dotted_parts:
  fixes a :: u32
  defines "b k \<equiv> unat (ucast (drop_bit k a) :: u8)"
  shows "dotted a = show_nat (b 0) @ CHR ''.'' # show_nat (b 8) @ CHR ''.'' # show_nat (b 16) @ CHR ''.'' # show_nat (b 24)"
  by (simp add: b_def dotted_def quad_def bytes32_def numeral_2_eq_2 numeral_3_eq_3)

lemma dotted_no_space: "list_all (\<lambda>c. \<not> isspace c) (dotted a)"
proof -
  have n: "list_all (\<lambda>c. \<not> isspace c) (show_nat n)" for n
    using show_nat_digits [of n] by (auto simp: list_all_iff isdigit_not)
  have "\<not> isspace CHR ''.''" by (simp add: isspace_def)
  then show ?thesis unfolding dotted_parts by (simp add: n)
qed

lemma int_byte: "int (unat (b :: u8)) < 256"
  using unat_u8_less [of b] by linarith

lemma host_to_net_bytes:
  fixes a :: u32
  defines "b k \<equiv> int (unat (ucast (drop_bit k a) :: u8))"
  shows "host_to_net (b 0 * 16777216 + b 8 * 65536 + b 16 * 256 + b 24) = a"
proof -
  have r: "0 \<le> b k" "b k < 256" for k unfolding b_def using int_byte [of "ucast (drop_bit k a)"] by linarith+
  have step: "(x * 256 + b k) div 256 = x" "(x * 256 + b k) mod 256 = b k" for x k using r [of k] by simp_all
  have nest: "b 0 * 16777216 + b 8 * 65536 + b 16 * 256 + b 24 = ((b 0 * 256 + b 8) * 256 + b 16) * 256 + b 24" by simp
  have quot: "x div 65536 = x div 256 div 256" "x div 16777216 = x div 256 div 256 div 256" for x :: int
    by (simp_all flip: zdiv_zmult2_eq)
  have "b 0 mod 256 = b 0" using r [of 0] by simp
  then have "host_to_net (b 0 * 16777216 + b 8 * 65536 + b 16 * 256 + b 24) =
      word_of_int (b 0 + 256 * b 8 + 65536 * b 16 + 16777216 * b 24)" unfolding host_to_net_def nest quot step by simp
  also have "b 0 + 256 * b 8 + 65536 * b 16 + 16777216 * b 24 = int (unat a)"
    using arg_cong [OF val32_bytes32 [of a], of int] unfolding b_def val32_def val16_def by (simp add: algebra_simps)
  finally show ?thesis by simp
qed

lemma inet_aton_dotted: "inet_aton (dotted a) = Some a"
proof -
  let ?b = "\<lambda>k. unat (ucast (drop_bit k a) :: u8)"
  have t: "takeWhile (\<lambda>c. \<not> isspace c) (dotted a) = dotted a"
    using dotted_no_space [of a] by (simp add: takeWhile_eq_all_conv list_all_iff)
  have p: "split_on CHR ''.'' (dotted a) = [show_nat (?b 0), show_nat (?b 8), show_nat (?b 16), show_nat (?b 24)]"
    unfolding dotted_parts by (simp add: split_on_part split_on_last show_nat_no_dot)
  have b: "int (?b k) < 256" for k by (rule int_byte)
  show ?thesis
    unfolding inet_aton_def t p using b [of 0] b [of 8] b [of 16] b [of 24] host_to_net_bytes [of a] by (simp add: aton_part_show)
qed

lemma takeWhile_all_digits: "list_all isdigit xs \<Longrightarrow> takeWhile isdigit xs = xs"
  by (simp add: takeWhile_eq_all_conv list_all_iff)

lemma atoi_show: "n < 1000 \<Longrightarrow> sint (atoi (show_nat n)) = int n"
proof -
  assume n: "n < 1000"
  have d: "list_all isdigit (show_nat n)" "show_nat n \<noteq> []" "digits_value (show_nat n) = int n" using show_nat_digits [of n] by auto
  then obtain c s where c: "show_nat n = c # s" "isdigit c" by (cases "show_nat n") auto
  have "fst (strtol10 (show_nat n)) = clamp_long (int n)"
    using c d isdigit_not [OF c(2)] by (simp add: strtol10_def takeWhile_all_digits)
  then show ?thesis using n by (simp add: atoi_def clamp_long_def signed_of_nat signed_take_bit_int_eq_self)
qed

section \<open>Up and down\<close>

lemma quiet_up: "strstarts ''up'' ''up''" "\<not> strstarts ''down'' ''up''" "strstarts ''down'' ''down''"
  by (simp_all add: strstarts_def)

definition up_args :: "u32 \<Rightarrow> nat \<Rightarrow> u32 \<Rightarrow> string list \<Rightarrow> string list" where
  "up_args a n bc rest = dotted a # show_nat n # dotted bc # rest"

definition up_ifaddr :: "u32 \<Rightarrow> nat \<Rightarrow> u32 \<Rightarrow> in_ifaddr \<Rightarrow> in_ifaddr" where
  "up_ifaddr a n bc ifa = ifa\<lparr>ifa_local := a, ifa_address := a, ifa_mask := bits_netmask n, ifa_broadcast := bc\<rparr>"

lemma dotted_not_mask: "show_nat n \<noteq> ''mask''"
  using show_nat_digits [of n] by (auto simp: isdigit_def)

lemma set_device_up:
  assumes "8 \<le> n" "n \<le> 31"
  shows "set_device (up_args a n bc rest) ifa = Ok (True, up_ifaddr a n bc ifa, Some (ifa\<lparr>ifa_local := a, ifa_address := a\<rparr>), None)"
  using assms atoi_show [of n]
  by (simp add: set_device_def set_mask_def set_broadcast_def up_args_def up_ifaddr_def inet_aton_dotted dotted_not_mask bits_netmask_def Let_def)

text \<open>The route of a new device.\<close>

definition device_route :: "if_state \<Rightarrow> u32 \<Rightarrow> nat \<Rightarrow> ipv4_route" where
  "device_route s a n =
     \<lparr>rid = next_rid s, network = a AND bits_netmask n, netmask = bits_netmask n, interface = ifindex_counter s, gateway = a,
      rdestructor = True, rfreed = False\<rparr>"

definition up_device :: "if_state \<Rightarrow> string \<Rightarrow> u32 \<Rightarrow> nat \<Rightarrow> u32 \<Rightarrow> net_device" where
  "up_device s name a n bc = new_device name (ifindex_counter s) (up_ifaddr a n bc (fresh_ifaddr s))"

lemma create_up:
  assumes "8 \<le> n" "n \<le> 31"
  shows "\<exists>s'. create_device name (up_args a n bc rest) s = Ok (Some (up_device s name a n bc), s') \<and>
    ipst s' = (ipst s)\<lparr>interfaces := interfaces (ipst s) @ [up_device s name a n bc], routes := routes (ipst s) @ [device_route s a n]\<rparr> \<and>
    notified s' = (True, (fresh_ifaddr s)\<lparr>ifa_local := a, ifa_address := a\<rparr>) # notified s \<and>
    ifindex_counter s' = ifindex_counter s + 1 \<and> next_rid s' = Suc (next_rid s)"
  by (simp add: create_device_def set_device_up [OF assms] report_set_def up_device_def new_device_def add_route_for_device_def device_route_def
      up_ifaddr_def Let_def)

text \<open>Indices and identities are used once.\<close>

definition numbers_ok :: "if_state \<Rightarrow> bool" where
  "numbers_ok s \<longleftrightarrow>
     (\<forall>d \<in> set (interfaces (ipst s)). ifindex d < ifindex_counter s) \<and>
     (\<forall>r \<in> set (routes (ipst s)). interface r < ifindex_counter s \<and> rid r < next_rid s) \<and>
     (\<forall>e \<in> set (rcache (ipst s)). (\<forall>i. rt_owner e = Of_device i \<longrightarrow> i < ifindex_counter s) \<and> (\<forall>i. rt_owner e = Of_route i \<longrightarrow> i < next_rid s))"

lemma filter_fresh: "\<forall>x \<in> set xs. P x \<Longrightarrow> filter P xs = xs"
  by simp

lemma free_device_up:
  assumes "numbers_ok s"
  shows "free_device (up_device s name a n bc)
    ((ipst s)\<lparr>interfaces := interfaces (ipst s) @ [up_device s name a n bc], routes := routes (ipst s) @ [device_route s a n]\<rparr>) = ipst s"
proof -
  have i: "ifindex (up_device s name a n bc) = ifindex_counter s" by (simp add: up_device_def new_device_def)
  have "filter (\<lambda>r. rdestructor r \<and> interface r = ifindex_counter s) (routes (ipst s)) = []"
    "filter (\<lambda>r. rid r \<noteq> next_rid s) (routes (ipst s)) = routes (ipst s)"
    "filter (\<lambda>d. ifindex d \<noteq> ifindex_counter s) (interfaces (ipst s)) = interfaces (ipst s)"
    "filter (\<lambda>e. rt_owner e \<noteq> Of_route (next_rid s)) (rcache (ipst s)) = rcache (ipst s)"
    "filter (\<lambda>e. rt_owner e \<noteq> Of_device (ifindex_counter s)) (rcache (ipst s)) = rcache (ipst s)"
    using assms by (fastforce simp: numbers_ok_def filter_empty_conv intro!: filter_fresh)+
  then show ?thesis
    by (simp add: free_device_def i device_route_def free_route_def destroy_route_def drop_entries_def)
qed

lemma ifconfig_up:
  assumes "interface_by_name name (ipst s) = None" "8 \<le> n" "n \<le> 31"
  shows "\<exists>s'. ifconfig (''ifconfig'' # name # up_args a n bc [''up'']) s = Ok (True, s') \<and>
    ipst s' = (ipst s)\<lparr>interfaces := interfaces (ipst s) @ [up_device s name a n bc], routes := routes (ipst s) @ [device_route s a n]\<rparr> \<and>
    notified s' = (True, (fresh_ifaddr s)\<lparr>ifa_local := a, ifa_address := a\<rparr>) # notified s"
proof -
  have "last (''ifconfig'' # name # up_args a n bc [''up'']) = ''up''" "length (''ifconfig'' # name # up_args a n bc [''up'']) = 6"
    "drop 2 (''ifconfig'' # name # up_args a n bc [''up'']) = up_args a n bc [''up'']" by (simp_all add: up_args_def)
  then show ?thesis
    using create_up [OF assms(2,3), of name a bc "[''up'']" s] assms(1) quiet_up unfolding ifconfig_def Let_def by auto
qed

text \<open>
  C32. A device that \<open>ifconfig\<close> brings up is found by its name with the address, mask and broadcast address given; its
  address becomes a local one unless another device has it already, and addresses in its network are routed to it
  unless an earlier route covers them; all other lookups are as before. Bringing it down again restores interfaces, routes and cache.
\<close>

theorem ifconfig_up_down:
  assumes "numbers_ok s" "interface_by_name name (ipst s) = None" "8 \<le> n" "n \<le> 31"
  shows "\<exists>s1 s2 dev r. ifconfig [''ifconfig'', name, dotted a, show_nat n, dotted bc, ''up''] s = Ok (True, s1) \<and>
    interface_by_name name (ipst s1) = Some dev \<and>
    ip_ptr dev = Some [(fresh_ifaddr s)\<lparr>ifa_local := a, ifa_address := a, ifa_mask := bits_netmask n, ifa_broadcast := bc\<rparr>] \<and>
    (\<forall>x. find_local x (ipst s1) = (case find_local x (ipst s) of Some d \<Rightarrow> Some d | None \<Rightarrow> if x = a then Some dev else None)) \<and>
    interface r = ifindex dev \<and>
    (\<forall>x. find_route x (ipst s1) =
       (case find_route x (ipst s) of Some q \<Rightarrow> Some q | None \<Rightarrow> if x AND bits_netmask n = a AND bits_netmask n then Some r else None)) \<and>
    ifconfig [''ifconfig'', name, ''down''] s1 = Ok (True, s2) \<and> ipst s2 = ipst s"
proof -
  let ?dev = "up_device s name a n bc" and ?r = "device_route s a n"
  obtain s1 where s1: "ifconfig [''ifconfig'', name, dotted a, show_nat n, dotted bc, ''up''] s = Ok (True, s1)"
    "ipst s1 = (ipst s)\<lparr>interfaces := interfaces (ipst s) @ [?dev], routes := routes (ipst s) @ [?r]\<rparr>"
    using ifconfig_up [OF assms(2-4), of a bc] by (auto simp: up_args_def)
  have p: "ip_ptr ?dev = Some [(fresh_ifaddr s)\<lparr>ifa_local := a, ifa_address := a, ifa_mask := bits_netmask n, ifa_broadcast := bc\<rparr>]"
    by (simp add: up_device_def new_device_def up_ifaddr_def)
  have n: "interface_by_name name (ipst s1) = Some ?dev"
    using assms(2) by (simp add: s1(2) interface_by_name_def find_first_append up_device_def new_device_def)
  have l: "find_local x (ipst s1) = (case find_local x (ipst s) of Some d \<Rightarrow> Some d | None \<Rightarrow> if x = a then Some ?dev else None)" for x
    using p by (auto simp: s1(2) find_local_def find_first_append split: option.split)
  have r: "find_route x (ipst s1) =
      (case find_route x (ipst s) of Some q \<Rightarrow> Some q | None \<Rightarrow> if x AND bits_netmask n = a AND bits_netmask n then Some ?r else None)" for x
    by (auto simp: s1(2) find_route_def find_first_append device_route_def split: option.split)
  have i: "interface ?r = ifindex ?dev" by (simp add: device_route_def up_device_def new_device_def)
  obtain s2 where "ifconfig [''ifconfig'', name, ''down''] s1 = Ok (True, s2)" "ipst s2 = ipst s"
    using n p free_device_up [OF assms(1), of name a n bc] s1(2) quiet_up by (simp add: ifconfig_def)
  then show ?thesis using s1(1) n p l r i by blast
qed

text \<open>The three devices of the start, with the indices that the examples of the routing use.\<close>

definition blank_if_state :: if_state where
  "blank_if_state = \<lparr>ipst = \<lparr>interfaces = [], routes = [], rcache = []\<rparr>, ifindex_counter = 1, next_rid = 0, notified = [], printed = [],
     fresh_ifaddr = \<lparr>ifa_local = 0, ifa_address = 0, ifa_mask = 0, ifa_broadcast = 0\<rparr>\<rparr>"

lemma start_texts:
  "dotted 0x0100007F = ''127.0.0.1''" "dotted 0xFFFFFF7F = ''127.255.255.255''" "show_nat 8 = ''8''" "show_nat 24 = ''24''"
  "dotted 0x0100A8C0 = ''192.168.0.1''" "dotted 0xFF00A8C0 = ''192.168.0.255''" "dotted 0x0101A8C0 = ''192.168.1.1''" "dotted 0xFF01A8C0 = ''192.168.1.255''"
  by code_simp+

lemma core_init_devices:
  "\<exists>s. core_init blank_if_state = Ok s \<and> numbers_ok s \<and> map dname (interfaces (ipst s)) = [''lo'', ''eth0'', ''eth1''] \<and>
     map ifindex (interfaces (ipst s)) = [1, 2, 3] \<and> map interface (routes (ipst s)) = [1, 2, 3] \<and> rcache (ipst s) = []"
  using set_device_up [of 8 "0x0100007F" "0xFFFFFF7F" "[]"] set_device_up [of 24 "0x0100A8C0" "0xFF00A8C0" "[]"]
    set_device_up [of 24 "0x0101A8C0" "0xFF01A8C0" "[]"]
  by (simp add: core_init_def create_device_def up_args_def start_texts report_set_def new_device_def up_ifaddr_def add_route_for_device_def
      if_log_def blank_if_state_def numbers_ok_def IFNAMSIZ_def Let_def)

theorem ifconfig_up_down_witness:
  "\<exists>s s1 s2 dev. core_init blank_if_state = Ok s \<and>
    ifconfig [''ifconfig'', ''eth2'', ''192.168.1.1'', ''8'', ''192.168.1.255'', ''up''] s = Ok (True, s1) \<and>
    interface_by_name ''eth2'' (ipst s1) = Some dev \<and> ifconfig [''ifconfig'', ''eth2'', ''down''] s1 = Ok (True, s2) \<and> ipst s2 = ipst s"
  using core_init_devices
proof (elim exE conjE)
  fix s
  assume s: "core_init blank_if_state = Ok s" "numbers_ok s" "map dname (interfaces (ipst s)) = [''lo'', ''eth0'', ''eth1'']"
  have "dname d \<in> set [''lo'', ''eth0'', ''eth1'']" if "d \<in> set (interfaces (ipst s))" for d
    unfolding s(3) [symmetric] using that by simp
  then have "take 16 (dname d) \<noteq> ''eth2''" if "d \<in> set (interfaces (ipst s))" for d using that by fastforce
  then have n: "interface_by_name ''eth2'' (ipst s) = None" by (simp add: interface_by_name_def IFNAMSIZ_def find_first_None)
  have "8 \<le> (8 :: nat)" "(8 :: nat) \<le> 31" by simp_all
  from ifconfig_up_down [OF s(2) n this, of "0x0101A8C0" "0xFF01A8C0"] s(1) show ?thesis
    unfolding start_texts by (elim exE conjE) (intro exI conjI)
qed

text \<open>
  A mask in dotted notation without a broadcast address ends in a read behind the arguments, and the device of a bad mask is announced and then
  forgotten, while the command succeeds.
\<close>

lemma dotted_mask_overruns: "set_device [dotted a, ''mask'', dotted mk] ifa = Barf ''NULL pointer''"
  by (simp add: set_device_def set_mask_def set_broadcast_def inet_aton_dotted Let_def)

lemma failed_up_succeeds:
  assumes "interface_by_name name (ipst s) = None"
  shows "\<exists>s'. ifconfig [''ifconfig'', name, dotted a, ''up''] s = Ok (True, s') \<and> interfaces (ipst s') = interfaces (ipst s) \<and>
    fst (hd (notified s'))"
proof -
  have "sint (atoi ''up'') = 0" by code_simp
  then show ?thesis
    using assms quiet_up by (simp add: ifconfig_def create_device_def set_device_def set_mask_def inet_aton_dotted report_set_def if_log_def Let_def)
qed

end
