(* ===== verification/Hooks.thy ===== *)
theory Hooks
  imports Ifconfig "HOL-Library.Multiset"
begin

text \<open>
  Netfilter hooks and the packet queue: verdicts, the wrappers around registration and the call of a hook in core/core.c, the
  \<^verbatim>\<open>hook\<close> command of tools/hook.c and the \<^verbatim>\<open>queue\<close> command of tools/queue.c. Registration is shown to be all or nothing, the
  hooks of the command to be gone after the next packet, and the queue to give out each packet once, by its number.
\<close>

section \<open>Verdicts\<close>

definition nf_retval_str :: "string list" where
  "nf_retval_str = [''NF_DROP'', ''NF_ACCEPT'', ''NF_STOLEN'', ''NF_QUEUE'', ''NF_REPEAT'']"

definition nf_retval :: "32 word \<Rightarrow> string" where
  "nf_retval r = (if 0 \<le> sint r \<and> sint r < int (length nf_retval_str) then nf_retval_str ! nat (sint r) else ''ERROR ('' @ show_i r @ '')'')"

fun position :: "string \<Rightarrow> string list \<Rightarrow> int \<Rightarrow> int" where
  "position name [] i = - 1"
| "position name (s # ss) i = (if name = s then i else position name ss (i + 1))"

definition nf_retval_by_name :: "string \<Rightarrow> int" where
  "nf_retval_by_name name = position name nf_retval_str 0"

definition NF_DROP :: "32 word" where "NF_DROP = 0"
definition NF_ACCEPT :: "32 word" where "NF_ACCEPT = 1"
definition NF_STOLEN :: "32 word" where "NF_STOLEN = 2"
definition NF_QUEUE :: "32 word" where "NF_QUEUE = 3"

section \<open>The call of a hook\<close>

text \<open>
  \<open>fn\<close> is the function of the hook, \<open>fail\<close> the decision of \<open>should_i_fail\<close>; the result is the verdict, the packet and the line logged.
\<close>

definition call_elem_hook ::
    "bool \<Rightarrow> bool \<Rightarrow> string \<Rightarrow> string option \<Rightarrow> (sk_buff \<Rightarrow> 32 word \<times> sk_buff) \<Rightarrow> sk_buff \<Rightarrow> (32 word \<times> sk_buff \<times> string option) outcome" where
  "call_elem_hook fail log_describes hookname owner_name fn skb =
     (if \<not> nfsim_check_packet skb then Barf ''skb modified without being made writable!''
      else if fail then Ok (NF_DROP, skb, None)
      else
        let (ret, skb) = fn skb;
            line = ''hook:'' @ hookname @ '' '' @ (case owner_name of Some n \<Rightarrow> n | None \<Rightarrow> ''nfsim'') @ '' '' @ nf_retval ret
        in if ret = NF_STOLEN then Ok (ret, skb, Some line)
           else bind_outcome (describe_packet log_describes skb) (\<lambda>d. Ok (ret, skb, Some (line @ d))))"

section \<open>Registration\<close>

datatype hook_fn = Hook_accept | Hook_drop | Hook_queue | Other_hook nat

record nf_hook_ops =
  ops_owner :: "string option"
  ops_hook :: hook_fn
  ops_pf :: int
  ops_hooknum :: int
  ops_priority :: "32 word"

text \<open>
  The kernel's tables are a state \<open>'k\<close>; registering a hook gives 0 or an error. The wrapper looks at the owner of the first
  hook but compares the one of the hook at hand: from the second one on there is always an owner to compare, since the first one has been
  set. An empty array leaves the result unset.
\<close>

type_synonym 'k register = "nf_hook_ops \<Rightarrow> 'k \<Rightarrow> int \<times> 'k"
type_synonym 'k unregister = "nf_hook_ops \<Rightarrow> 'k \<Rightarrow> 'k"

definition unregister_hooks :: "'k unregister \<Rightarrow> nf_hook_ops list \<Rightarrow> 'k \<Rightarrow> 'k" where
  "unregister_hooks unreg regs k = fold unreg regs k"

fun register_hooks :: "'k register \<Rightarrow> 'k unregister \<Rightarrow> string \<Rightarrow> nf_hook_ops list \<Rightarrow> nf_hook_ops list \<Rightarrow> int option \<Rightarrow> 'k \<Rightarrow> (int \<times> 'k) outcome" where
  "register_hooks reg unreg owner earlier [] ret k = (case ret of None \<Rightarrow> Barf ''uninitialised value'' | Some r \<Rightarrow> Ok (r, k))"
| "register_hooks reg unreg owner earlier (h # hs) ret k =
     (if ops_owner h = None \<and> earlier \<noteq> [] then Barf ''NULL pointer''
      else if ops_owner h \<noteq> None \<and> ops_owner h \<noteq> Some owner then Barf ''nf_register_hook: owner''
      else
        let h = h\<lparr>ops_owner := Some owner\<rparr>; (r, k) = reg h k
        in if r = 0 then register_hooks reg unreg owner (earlier @ [h]) hs (Some 0) k
           else Ok (r, if earlier \<noteq> [] then unregister_hooks unreg earlier k else k))"

definition nf_register_hook_wrapper :: "'k register \<Rightarrow> 'k unregister \<Rightarrow> nf_hook_ops list \<Rightarrow> string \<Rightarrow> 'k \<Rightarrow> (int \<times> 'k) outcome" where
  "nf_register_hook_wrapper reg unreg regs owner k = register_hooks reg unreg owner [] regs None k"

definition nf_register_sockopt_wrapper :: "bool \<Rightarrow> ('o \<Rightarrow> 'k \<Rightarrow> int \<times> 'k) \<Rightarrow> 'o \<Rightarrow> string option \<Rightarrow> string \<Rightarrow> 'k \<Rightarrow> (int \<times> 'k) outcome" where
  "nf_register_sockopt_wrapper fail reg so so_owner owner k =
     (if so_owner \<noteq> None \<and> so_owner \<noteq> Some owner then Barf ''nf_register_sockopt: owner''
      else if fail then Ok (- 4, k)
      else Ok (reg so k))"

section \<open>The hook command\<close>

record 'k hook_state =
  hook_list :: "nf_hook_ops list"
  ktables :: 'k
  hook_lines :: "string list"

definition hook_numbers :: "(string \<times> int) list" where
  "hook_numbers = [(''IP_PRE_ROUTING'', 0), (''IP_POST_ROUTING'', 4), (''IP_LOCAL_IN'', 1), (''IP_LOCAL_OUT'', 3), (''IP_FORWARD'', 2)]"

definition hook_verdicts :: "(string \<times> hook_fn) list" where
  "hook_verdicts = [(''DROP'', Hook_drop), (''ACCEPT'', Hook_accept), (''QUEUE'', Hook_queue)]"

definition print_hook :: "nf_hook_ops \<Rightarrow> string" where
  "print_hook h =
     (case ops_hook h of Hook_accept \<Rightarrow> ''ACCEPT'' | Hook_drop \<Rightarrow> ''DROP'' | Hook_queue \<Rightarrow> ''QUEUE'' | _ \<Rightarrow> ''UNKNOWN'') @ '' '' @
     show_i (ops_priority h) @ '' '' @
     (if ops_pf h \<noteq> 2 then ''Non-IPv4''
      else if ops_hooknum h = 0 then ''IP_PRE_ROUTING''
      else if ops_hooknum h = 4 then ''IP_PRE_ROUTING''
      else if ops_hooknum h = 2 then ''IP_FORWARD''
      else if ops_hooknum h = 1 then ''IP_LOCAL_IN''
      else if ops_hooknum h = 3 then ''IP_LOCAL_OUT''
      else ''UNKNOWN'')"

definition hook_fn_result :: "hook_fn \<Rightarrow> 32 word option" where
  "hook_fn_result f = (case f of Hook_accept \<Rightarrow> Some NF_ACCEPT | Hook_drop \<Rightarrow> Some NF_DROP | Hook_queue \<Rightarrow> Some NF_QUEUE | _ \<Rightarrow> None)"

text \<open>The result of the kernel's registration is not looked at. The owner is the simulator itself, without a module.\<close>

definition hook_cmd :: "'k register \<Rightarrow> string list \<Rightarrow> 'k hook_state \<Rightarrow> bool \<times> 'k hook_state" where
  "hook_cmd reg argv s =
     (if length argv = 1 then (True, s\<lparr>hook_lines := rev (map print_hook (hook_list s)) @ hook_lines s\<rparr>)
      else if length argv \<noteq> 4 then (False, s\<lparr>hook_lines := ''Bad hook command'' # hook_lines s\<rparr>)
      else
        case map_of hook_numbers (argv ! 1) of
          None \<Rightarrow> (False, s\<lparr>hook_lines := (''Unknown hook '' @ argv ! 1) # hook_lines s\<rparr>)
        | Some n \<Rightarrow>
            (case map_of hook_verdicts (argv ! 3) of
               None \<Rightarrow> (False, s\<lparr>hook_lines := (''Unknown verdict '' @ argv ! 3) # hook_lines s\<rparr>)
             | Some f \<Rightarrow>
                 let h = \<lparr>ops_owner = None, ops_hook = f, ops_pf = 2, ops_hooknum = n, ops_priority = atoi (argv ! 2)\<rparr>
                 in (True, s\<lparr>hook_list := h # hook_list s, ktables := snd (reg h (ktables s))\<rparr>)))"

definition hook_post_cleanup :: "'k unregister \<Rightarrow> string \<Rightarrow> 'k hook_state \<Rightarrow> bool \<times> 'k hook_state" where
  "hook_post_cleanup unreg cmd s =
     (if cmd \<noteq> ''gen_ip'' then (True, s)
      else (True, s\<lparr>hook_list := [], ktables := unregister_hooks unreg (hook_list s) (ktables s)\<rparr>))"

section \<open>The queue\<close>

record 'i nfsim_queueitem =
  q_skb :: sk_buff
  q_info :: 'i
  q_id :: int

record 'i queue_state =
  nfsim_queue :: "'i nfsim_queueitem list"
  queueid :: int
  q_lines :: "string list"
  reinjected :: "(sk_buff \<times> 'i \<times> int) list"

definition enqueue_packet_to_queuenum :: "bool \<Rightarrow> sk_buff \<Rightarrow> 'i \<Rightarrow> 'i queue_state \<Rightarrow> (int \<times> 'i queue_state) outcome" where
  "enqueue_packet_to_queuenum log_describes skb info s =
     bind_outcome (describe_packet log_describes skb) (\<lambda>d.
       Ok (0, s\<lparr>nfsim_queue := nfsim_queue s @ [\<lparr>q_skb = skb, q_info = info, q_id = queueid s\<rparr>], queueid := queueid s + 1,
                q_lines := (''queue:added'' @ d) # q_lines s\<rparr>))"

fun list_queue :: "bool \<Rightarrow> 'i nfsim_queueitem list \<Rightarrow> string list outcome" where
  "list_queue ld [] = Ok []"
| "list_queue ld (i # is) =
     bind_outcome (describe_packet ld (q_skb i)) (\<lambda>d. bind_outcome (list_queue ld is) (\<lambda>ls. Ok ((show_i (word_of_int (q_id i)) @ '':'' @ d) # ls)))"

text \<open>Listing returns 0, which is failure for a command. Without a number the first packet is taken, whether there is one or not.\<close>

definition queue_cmd :: "bool \<Rightarrow> string list \<Rightarrow> 'i queue_state \<Rightarrow> (bool \<times> 'i queue_state) outcome" where
  "queue_cmd ld argv s =
     (if length argv = 1 then bind_outcome (list_queue ld (nfsim_queue s)) (\<lambda>ls. Ok (False, s\<lparr>q_lines := rev ls @ q_lines s\<rparr>))
      else if length argv \<le> 3 then
        let verdict = nf_retval_by_name (argv ! 1) in
        if verdict < 0 then Ok (False, s\<lparr>q_lines := (''Invalid verdict '' @ CHR 0x27 # argv ! 1 @ [CHR 0x27]) # q_lines s\<rparr>)
        else
          let inject = (\<lambda>i. s\<lparr>nfsim_queue := remove1 i (nfsim_queue s), reinjected := (q_skb i, q_info i, verdict) # reinjected s\<rparr>) in
          if length argv = 3 then
            (case find_first (\<lambda>i. q_id i = sint (atoi (argv ! 2))) (nfsim_queue s) of
               Some i \<Rightarrow> Ok (True, inject i)
             | None \<Rightarrow>
                 Ok (False, s\<lparr>q_lines := (''No packet found in the queue matching number '' @ CHR 0x27 # show_i (atoi (argv ! 2)) @ [CHR 0x27]) # q_lines s\<rparr>))
          else (case nfsim_queue s of [] \<Rightarrow> Barf ''the list head is taken for a packet'' | i # _ \<Rightarrow> Ok (True, inject i))
      else Ok (False, s))"

section \<open>Registration is all or nothing\<close>

text \<open>
  What the kernel's functions do to the hooks in its tables: registering adds the hook if it succeeds and nothing otherwise,
  unregistering takes it out.
\<close>

definition hook_laws :: "'k register \<Rightarrow> 'k unregister \<Rightarrow> ('k \<Rightarrow> nf_hook_ops multiset) \<Rightarrow> bool" where
  "hook_laws reg unreg members \<longleftrightarrow>
     (\<forall>h k. members (snd (reg h k)) = (if fst (reg h k) = 0 then add_mset h (members k) else members k)) \<and>
     (\<forall>h k. members (unreg h k) = members k - {#h#})"

lemma unregister_members: "hook_laws reg unreg members \<Longrightarrow> members (unregister_hooks unreg hs k) = members k - mset hs"
  by (induction hs arbitrary: k) (simp_all add: unregister_hooks_def hook_laws_def)

abbreviation owned :: "string \<Rightarrow> nf_hook_ops list \<Rightarrow> nf_hook_ops list" where
  "owned owner hs \<equiv> map (\<lambda>h. h\<lparr>ops_owner := Some owner\<rparr>) hs"

lemma register_hooks_members:
  assumes "hook_laws reg unreg members" "register_hooks reg unreg owner earlier hs ret k = Ok (r, k')"
    "members k = base + mset earlier" "ret \<in> {None, Some 0}"
  shows "members k' = (if r = 0 then base + mset (earlier @ owned owner hs) else base)"
  using assms(2-4)
proof (induction hs arbitrary: earlier ret k)
  case Nil
  then show ?case by (auto split: option.splits)
next
  case (Cons h hs)
  let ?h = "h\<lparr>ops_owner := Some owner\<rparr>"
  obtain q k1 where k1: "reg ?h k = (q, k1)" by fastforce
  have m: "members k1 = (if q = 0 then add_mset ?h (members k) else members k)"
    using assms(1) k1 unfolding hook_laws_def by (metis fst_conv snd_conv)
  show ?case
  proof (cases "q = 0")
    case True
    then have "register_hooks reg unreg owner (earlier @ [?h]) hs (Some 0) k1 = Ok (r, k')"
      using Cons.prems(1) k1 by (simp split: if_splits)
    from Cons.IH [OF this] show ?thesis using m True Cons.prems(2) by simp
  next
    case False
    then have "r = q" "k' = (if earlier \<noteq> [] then unregister_hooks unreg earlier k1 else k1)"
      using Cons.prems(1) k1 by (simp_all split: if_splits)
    then show ?thesis using False m Cons.prems(2) unregister_members [OF assms(1), of earlier k1] by simp
  qed
qed

lemma hook_cmd_members:
  assumes "hook_laws reg unreg members" "\<forall>h k. fst (reg h k) = 0" "members (ktables s) = base + mset (hook_list s)"
  shows "members (ktables (snd (hook_cmd reg argv s))) = base + mset (hook_list (snd (hook_cmd reg argv s)))"
  using assms by (auto simp: hook_cmd_def hook_laws_def Let_def split: option.split)

lemma hook_cmds_members:
  assumes "hook_laws reg unreg members" "\<forall>h k. fst (reg h k) = 0" "members (ktables s) = base + mset (hook_list s)"
  shows "members (ktables (fold (\<lambda>argv s. snd (hook_cmd reg argv s)) cmds s)) =
    base + mset (hook_list (fold (\<lambda>argv s. snd (hook_cmd reg argv s)) cmds s))"
  using assms(3) by (induction cmds arbitrary: s) (simp_all add: hook_cmd_members [OF assms(1,2)])

text \<open>
  C34. A module's hooks are registered all or none: after an error the kernel's tables hold what they held before, the
  hooks that had been registered being taken out again. And whatever hooks the \<open>hook\<close> command has added, after the
  next packet the tables hold what they held before the first of them.
\<close>

theorem hooks_all_or_nothing:
  assumes "hook_laws reg unreg members"
  shows "(nf_register_hook_wrapper reg unreg regs owner k = Ok (r, k') \<longrightarrow>
      members k' = (if r = 0 then members k + mset (owned owner regs) else members k)) \<and>
    ((\<forall>h k. fst (reg h k) = 0) \<and> hook_list s = [] \<longrightarrow>
      (let t = snd (hook_post_cleanup unreg ''gen_ip'' (fold (\<lambda>argv s. snd (hook_cmd reg argv s)) cmds s))
       in hook_list t = [] \<and> members (ktables t) = members (ktables s)))"
proof (intro conjI impI)
  assume "nf_register_hook_wrapper reg unreg regs owner k = Ok (r, k')"
  then show "members k' = (if r = 0 then members k + mset (owned owner regs) else members k)"
    using register_hooks_members [OF assms, of owner "[]" regs None k r k' "members k"] by (simp add: nf_register_hook_wrapper_def)
next
  assume a: "(\<forall>h k. fst (reg h k) = 0) \<and> hook_list s = []"
  then show "let t = snd (hook_post_cleanup unreg ''gen_ip'' (fold (\<lambda>argv s. snd (hook_cmd reg argv s)) cmds s))
       in hook_list t = [] \<and> members (ktables t) = members (ktables s)"
    using hook_cmds_members [OF assms, of s "members (ktables s)" cmds] unregister_members [OF assms] by (simp add: hook_post_cleanup_def Let_def)
qed

text \<open>A table with room for one hook of each priority.\<close>

definition small_reg :: "nf_hook_ops list register" where
  "small_reg h k = (if ops_priority h \<in> ops_priority ` set k then (- 17, k) else (0, h # k))"

theorem hooks_all_or_nothing_witness:
  "nf_register_hook_wrapper small_reg remove1 [\<lparr>ops_owner = Some ''m'', ops_hook = Hook_drop, ops_pf = 2, ops_hooknum = 0, ops_priority = 1\<rparr>,
      \<lparr>ops_owner = Some ''m'', ops_hook = Hook_drop, ops_pf = 2, ops_hooknum = 4, ops_priority = 1\<rparr>] ''m'' [] = Ok (- 17, []) \<and> mset ([] :: nf_hook_ops list) = {#}"
proof -
  have l: "hook_laws small_reg remove1 mset" by (simp add: hook_laws_def small_reg_def)
  let ?h = "\<lambda>n. \<lparr>ops_owner = Some ''m'', ops_hook = Hook_drop, ops_pf = 2, ops_hooknum = n, ops_priority = 1\<rparr> :: nf_hook_ops"
  have "nf_register_hook_wrapper small_reg remove1 [?h 0, ?h 4] ''m'' [] = Ok (- 17, [])"
    by (simp add: nf_register_hook_wrapper_def small_reg_def unregister_hooks_def)
  then show ?thesis using hooks_all_or_nothing [OF l, of "[?h 0, ?h 4]" "''m''" "[]" "- 17" "[]"] by simp
qed

section \<open>Verdict names and the queue\<close>

lemma nf_retval_round: "0 \<le> n \<Longrightarrow> n < 5 \<Longrightarrow> nf_retval_by_name (nf_retval (word_of_int n)) = n"
proof -
  assume "0 \<le> n" "n < 5"
  then have "n \<in> {0, 1, 2, 3, 4}" by auto
  then show ?thesis by (elim insertE) (simp_all add: nf_retval_by_name_def nf_retval_def nf_retval_str_def)
qed

text \<open>The numbers of the packets in the queue are different and below the next one.\<close>

definition queue_ok :: "'i queue_state \<Rightarrow> bool" where
  "queue_ok s \<longleftrightarrow> sorted_wrt (<) (map q_id (nfsim_queue s)) \<and> (\<forall>i \<in> set (nfsim_queue s). q_id i < queueid s)"

lemma sorted_wrt_remove1: "sorted_wrt (<) (map f xs) \<Longrightarrow> sorted_wrt (<) (map (f :: 'a \<Rightarrow> int) (remove1 x xs))"
  by (induction xs) (auto dest: notin_set_remove1)

lemma enqueue_ok:
  "queue_ok s \<Longrightarrow> enqueue_packet_to_queuenum ld skb info s = Ok (r, s') \<Longrightarrow> queue_ok s' \<and> length (nfsim_queue s') = Suc (length (nfsim_queue s))"
  by (auto simp: enqueue_packet_to_queuenum_def queue_ok_def bind_outcome_Ok_iff sorted_wrt_append less_imp_le)

lemma queue_cmd_ok: "queue_ok s \<Longrightarrow> queue_cmd ld argv s = Ok (r, s') \<Longrightarrow> queue_ok s'"
  by (auto simp: queue_cmd_def queue_ok_def bind_outcome_Ok_iff Let_def sorted_wrt_remove1 split: if_splits option.splits list.splits
      dest: notin_set_remove1)

lemma find_first_unique: "distinct (map f xs) \<Longrightarrow> x \<in> set xs \<Longrightarrow> find_first (\<lambda>y. f y = f x) xs = Some x"
  by (induction xs) (auto dest: image_eqI [of "f x" f])

lemma verdict_number: "v < 5 \<Longrightarrow> nf_retval_by_name (nf_retval_str ! v) = int v"
proof -
  assume "v < 5"
  then have "v \<in> {0, 1, 2, 3, 4}" by auto
  then show ?thesis by (elim insertE) (simp_all add: nf_retval_by_name_def nf_retval_str_def)
qed

text \<open>A verdict with a number reinjects the packet of that number, and it is in the queue no more.\<close>

lemma queue_verdict_once:
  assumes "queue_ok s" "i \<in> set (nfsim_queue s)" "v < 5" "q_id i < 1000" "0 \<le> q_id i"
  shows "\<exists>s'. queue_cmd ld [''queue'', nf_retval_str ! v, show_nat (nat (q_id i))] s = Ok (True, s') \<and>
    reinjected s' = (q_skb i, q_info i, int v) # reinjected s \<and> (\<forall>j \<in> set (nfsim_queue s'). q_id j \<noteq> q_id i)"
proof -
  have d: "distinct (map q_id (nfsim_queue s))" using assms(1) by (simp add: queue_ok_def strict_sorted_iff)
  then have f: "find_first (\<lambda>j. q_id j = q_id i) (nfsim_queue s) = Some i" using assms(2) by (rule find_first_unique)
  have n: "sint (atoi (show_nat (nat (q_id i)))) = q_id i" using atoi_show [of "nat (q_id i)"] assms(4,5) by simp
  have u: "distinct (nfsim_queue s)" "inj_on q_id (set (nfsim_queue s))" using d by (simp_all add: distinct_map)
  have g: "\<forall>j \<in> set (remove1 i (nfsim_queue s)). q_id j \<noteq> q_id i"
    using inj_onD [OF u(2) _ _ assms(2)] unfolding set_remove1_eq [OF u(1)] by blast
  have v: "nf_retval_by_name (nf_retval_str ! v) = int v" by (rule verdict_number [OF assms(3)])
  let ?s = "s\<lparr>nfsim_queue := remove1 i (nfsim_queue s), reinjected := (q_skb i, q_info i, int v) # reinjected s\<rparr>"
  have "queue_cmd ld [''queue'', nf_retval_str ! v, show_nat (nat (q_id i))] s = Ok (True, ?s)"
    unfolding queue_cmd_def Let_def using v n f by simp
  then show ?thesis using g by (intro exI [of _ ?s]) simp
qed

end
