(* ===== verification/Cmdline.thy ===== *)
theory Cmdline
  imports Ifconfig
begin

text \<open>
  The command line options of core/core.c: the table collected by the linker is turned into the arguments of \<^verbatim>\<open>getopt_long\<close>, and what that
  returns is looked up in the table again.
\<close>

record cmdline_option =
  o_name :: string
  o_has_arg :: nat
  o_val :: int

text \<open>A long option is returned as its index, a short one as its character, which is at least the character 0.\<close>

definition get_cmdline_option :: "cmdline_option list \<Rightarrow> int \<Rightarrow> cmdline_option option outcome" where
  "get_cmdline_option copts c =
     (if c < 48 then if 0 \<le> c \<and> c < int (length copts) then Ok (Some (copts ! nat c)) else Barf ''read past the table''
      else Ok (find_first (\<lambda>co. o_val co = c) copts))"

text \<open>The options made so far have their index for a value, which is what the value of the next one is compared with.\<close>

definition conflicts :: "cmdline_option \<Rightarrow> cmdline_option list \<Rightarrow> bool" where
  "conflicts co opts \<longleftrightarrow> (\<exists>p \<in> set opts. (o_val co \<noteq> 0 \<and> o_val co = o_val p) \<or> o_name co = o_name p)"

fun make_options :: "cmdline_option list \<Rightarrow> cmdline_option list \<Rightarrow> cmdline_option list outcome" where
  "make_options opts [] = Ok opts"
| "make_options opts (co # cos) =
     (if o_has_arg co > 2 then Barf (''Bad argument '' @ o_name co)
      else if conflicts co opts then Barf (''Conflicting arguments '' @ o_name co)
      else make_options (opts @ [co\<lparr>o_val := int (length opts)\<rparr>]) cos)"

definition get_cmdline_options :: "cmdline_option list \<Rightarrow> cmdline_option list outcome" where
  "get_cmdline_options copts = make_options [] copts"

text \<open>Two colons do not fit into the temporary string of three bytes.\<close>

fun get_cmdline_optstr :: "cmdline_option list \<Rightarrow> string outcome" where
  "get_cmdline_optstr [] = Ok []"
| "get_cmdline_optstr (co # cos) =
     (if o_val co = 0 then get_cmdline_optstr cos
      else if o_has_arg co > 1 then Barf ''write past the end of the buffer''
      else bind_outcome (get_cmdline_optstr cos) (\<lambda>s. Ok (char_of (o_val co) # replicate (o_has_arg co) CHR '':'' @ s)))"

lemma make_options_shape:
  "make_options opts cos = Ok r \<Longrightarrow> map o_val opts = map int [0..<length opts] \<Longrightarrow> distinct (map o_name opts) \<Longrightarrow>
   map o_name r = map o_name (opts @ cos) \<and> map o_val r = map int [0..<length r] \<and> distinct (map o_name r)"
proof (induction cos arbitrary: opts)
  case (Cons co cos)
  then have c: "\<not> conflicts co opts" "make_options (opts @ [co\<lparr>o_val := int (length opts)\<rparr>]) cos = Ok r" by (auto split: if_splits)
  have "o_name co \<notin> o_name ` set opts" using c(1) by (auto simp: conflicts_def)
  then have "distinct (map o_name (opts @ [co\<lparr>o_val := int (length opts)\<rparr>]))" using Cons.prems(3) by simp
  moreover have "map o_val (opts @ [co\<lparr>o_val := int (length opts)\<rparr>]) = map int [0..<length (opts @ [co\<lparr>o_val := int (length opts)\<rparr>])]"
    using Cons.prems(2) by simp
  ultimately have r: "map o_name r = map o_name ((opts @ [co\<lparr>o_val := int (length opts)\<rparr>]) @ cos)" "map o_val r = map int [0..<length r]" "distinct (map o_name r)"
    using Cons.IH [OF c(2)] by blast+
  show ?case by (intro conjI r(2,3)) (simp add: r(1))
qed simp

text \<open>
  Every long option has a name of its own and, in a table of at most 48 entries, is found again by what \<^verbatim>\<open>getopt_long\<close> returns for it; a
  short option is found by its character as the first entry that has it.
\<close>

lemma long_option_found:
  assumes "get_cmdline_options copts = Ok opts" "i < length copts" "length copts \<le> 48"
  shows "get_cmdline_option copts (o_val (opts ! i)) = Ok (Some (copts ! i)) \<and> o_name (opts ! i) = o_name (copts ! i) \<and> distinct (map o_name copts)"
proof -
  have s: "map o_name opts = map o_name copts" "map o_val opts = map int [0..<length opts]" "distinct (map o_name opts)"
    using make_options_shape [of "[]" copts opts] assms(1) by (auto simp: get_cmdline_options_def)
  have l: "length opts = length copts" using map_eq_imp_length_eq [OF s(1)] .
  have "o_val (opts ! i) = map o_val opts ! i" using assms(2) l by simp
  then have "o_val (opts ! i) = int i" unfolding s(2) using assms(2) l by simp
  moreover have "o_name (opts ! i) = o_name (copts ! i)" using s(1) assms(2) l by (metis nth_map)
  ultimately show ?thesis using assms(2,3) s by (simp add: get_cmdline_option_def)
qed

text \<open>Two options with the same short character are not noticed: the second one can only be given by its long name.\<close>

lemma short_conflict_unnoticed:
  "get_cmdline_options [\<lparr>o_name = ''quiet'', o_has_arg = 0, o_val = 113\<rparr>, \<lparr>o_name = ''queue'', o_has_arg = 0, o_val = 113\<rparr>] =
   Ok [\<lparr>o_name = ''quiet'', o_has_arg = 0, o_val = 0\<rparr>, \<lparr>o_name = ''queue'', o_has_arg = 0, o_val = 1\<rparr>]"
  by (simp add: get_cmdline_options_def conflicts_def)

end
