(* ===== verification/Spec2Isabelle.thy ===== *)
theory Spec2Isabelle
  imports Gen_Send Field Talloc_Trees Proc_Sysctl Tcpsession Message Hooks Cmdline
begin

text \<open>
  A verification library for nfsim, the netfilter simulator.

  \<^bold>\<open>The program.\<close> nfsim compiles the Linux netfilter modules into an ordinary process and drives them from a script. The process
  is built of four layers. \<^verbatim>\<open>kernelenv/\<close> stands for the kernel that the modules are compiled against: byte order, locks, bit
  operations, timers, socket buffers, notifier chains, the /proc file system. \<^verbatim>\<open>core/\<close> is the simulator: the IPv4 stack that
  carries packets past the netfilter hooks, the allocator, logging, expectations on the log, the command interpreter, the
  systematic test of failure paths, and the channel through which a real program such as iptables makes its system
  calls to the simulated kernel. \<^verbatim>\<open>tools/\<close> holds the commands of a script: generating packets and errors, routes, interfaces, hooks, the
  queue, TCP sessions, time, /proc, tracing. The modules under test come from a kernel tree and are not part of the program.

  A command travels as follows. A line is split into words and run by \<open>process_line\<close> and \<open>tui_do_command\<close> (Tui); the hooks around a
  command set up and judge the expectations (Expect), which see every line that is logged (Log). \<open>gen_ip\<close> parses its words
  (Gen_Ip), makes a socket buffer (Skb) and hands it to the stack (Gen_Send, Ipv4), which looks up a route (Route, Ifconfig), calls the
  hooks (Hooks) and describes the packet in the log (Describe), where the expectations of the script or of \<open>tcpsession\<close>
  (Tcpsession) find it.

  \<^bold>\<open>The theories, and the sources they translate.\<close>

  \<^item> Nfsim_Prelude: machine types, \<open>outcome\<close> (a value, or \<open>Barf\<close> for a function that ends the process), lemmas on words and lists, and
    the contract \<open>registry\<close> of a table searched from the front.
  \<^item> Checksum (core/ipv4/ipv4.c, kernelenv/kernelenv.c): swaps, \<open>do_csum\<close> with its alignment cases and accumulator, partial sums, check
    fields. The sum is the one of RFC 1071 over the 16-bit words of the buffer, byte-swapped at an odd address and with an odd last byte in the upper
    half; the contract \<open>checksummed\<close> (a message with a settable check field
    verifies once it holds the complement of the rest) is interpreted for IP headers, ICMP messages and TCP and UDP segments.
  \<^item> Clist (core/list.h): circular lists and hash lists on a pointer store. The contract \<open>ring\<close> is interpreted for plain, deleting,
    initialising and RCU operations; readers between two stores of an RCU insertion are safe.
  \<^item> Jhash (kernelenv/kernelenv.c): the hash of bytes and of words, which agree; mixing is a bijection.
  \<^item> Cstring (core/utils.h, kernelenv/kernelenv.c): bounded copies, prefix tests, and the C library functions the program calls.
  \<^item> Timers (kernelenv/kernelenv.c, tools/time.c): timer lists with wrap-around comparison. \<open>stable_insert\<close> is the contract of insertion in
    order, interpreted for timers and, in Kernelenv, for notifier chains; advancing time runs the due timers in order.
  \<^item> Kernelenv (kernelenv/kernelenv.c): locks with their misuse checks and the relation \<open>locking\<close> of their reachable states, bit operations,
    division, notifier chains, object caches, page orders, error pointers.
  \<^item> Skb (kernelenv/kernelenv.c): socket buffers with the master copy of a non-linear packet; content is kept by every operation.
  \<^item> Route (core/ipv4/ipv4.c, tools/route.c): the table and its cache, which is transparent; parsing of destinations.
  \<^item> Ipv4 (core/ipv4/ipv4.c, core/core.c, kernelenv/kernelenv.c): reception, forwarding, delivery, output, ICMP errors, reassembly. A packet carries the master
    copy against which \<open>nfsim_check_packet\<close> compares it. \<open>stats_only\<close> is what the stack relies on of the counters of a device.
  \<^item> Expect and Log (core/expect.c, core/log.c): the pattern match, which equals the relation \<open>loosely\<close>, expectations, logging.
  \<^item> Tui (core/tui.c): commands and hooks, splitting a line, scripts. The command table is a \<open>registry\<close>.
  \<^item> Failtest (core/failtest.c): decision points; a fork is a value with the state of the child and the continuation of the parent,
    and \<open>decides\<close> the relation of the runs; the printed path replays a run.
  \<^item> Talloc and Talloc_Trees (core/talloc.c): chunk links, and the predicate that they form a forest; allocation, stealing, references,
    freeing, reallocation, reports and strings.
  \<^item> Field (core/field.c): extra fields of structures, a \<open>registry\<close>.
  \<^item> Gen_Ip and Gen_Send (tools/gen_ip.c, tools/gen_err.c): arguments, headers and checksums, sending.
  \<^item> Seq_File (core/seq_file.c): files made of records. The contract \<open>seq_source\<close> states what a table of operations must do, as the comments of the
    source do, and is interpreted for the single-record files that the program itself provides.
  \<^item> Proc_Tree and Proc_Sysctl (kernelenv/proc_stuff.c, tools/proc.c): the tree of entries, sysctl tables, paged files, vectors of integers as
    text. \<open>int_conv\<close> is the contract of a conversion, interpreted for the plain, the bounded and the jiffies variant.
  \<^item> Describe (core/ipv4/ipv4.c): the description of a packet in the log.
  \<^item> Gen_Command (core/core.c, tools/gen_ip.c): the command \<^verbatim>\<open>gen_ip\<close> on the state of the simulator, with the lines it logs for the packets that leave.
  \<^item> Tcpsession (tools/tcpsession.c): sessions, refined to the difference of sent and acknowledged numbers, and played through the commands
    \<^verbatim>\<open>expect\<close> and \<^verbatim>\<open>gen_ip\<close> of the other theories.
  \<^item> Message (core/message.c, core/nfsockopt.h, core/fakesockopt.c, tools/strace.c): system calls as messages between two processes, an
    \<open>inductive\<close> step relation on the pair of them.
  \<^item> Ifconfig (tools/ifconfig.c, core/core.c): devices with their routes and notifications, and the devices of the start.
  \<^item> Hooks (core/core.c, tools/hook.c, tools/queue.c): verdicts, calls and registration of hooks, queued packets.
  \<^item> Cmdline (core/core.c): the tables for \<^verbatim>\<open>getopt_long\<close>.

  \<^bold>\<open>What is shown.\<close> Packets: \<open>ip_rcv_paths\<close>, \<open>gen_ip_paths\<close> and, below, \<open>router_forwards_described\<close> follow a packet from the command to the
  device and back into text, for accepting hooks, a right cache and a time to live of at least 2 (for less see \<open>ip_forward_ttl_zero\<close> and \<open>ttl_expired\<close>); \<open>gather_frag_reassembles\<close>, \<open>icmp_packet_well_formed\<close>, the checksum theorems and \<open>skb_make_writable_ok\<close> are its
  stations; \<open>route_cache_transparent\<close> and \<open>ifconfig_up_down\<close> its routes; \<open>hooks_all_or_nothing\<close> its hooks. Commands:
  \<open>tui_do_command_verdict\<close> and \<open>loose_match_correct\<close> judge them, \<open>process_line_words\<close> splits them, \<open>copy_printable_escape\<close>,
  \<open>parse_flags_accepts\<close>, \<open>string_to_number_range\<close> and \<open>parse_packet_well_formed\<close> are about their words, \<open>tcpsession_refines\<close> and
  \<open>tcpsession_open_close\<close> about the largest of them. Memory and lists: the forest theorems of Talloc_Trees, \<open>list_add_rcu_readers\<close>,
  \<open>list_move_lists\<close>. Kernel services: timers, for handlers that leave timers and time alone, locks, division, files (\<open>proc_file_read_slice\<close>, \<open>seq_read_refines\<close>) and sysctl variables. Processes: \<open>syscall_is_direct\<close> and
  \<open>failpath_replays\<close>.

  \<^bold>\<open>Representation.\<close> C integers are words of their width where they can wrap (the machine has 64-bit pointers and is little-endian), and
  natural numbers or integers where the code bounds them. Memory is modelled where aliasing matters: lists, timers and chunks live
  in a store of addresses; bytes of a packet are lists, and an access outside is an error value. \<^verbatim>\<open>barf\<close> and exit are \<open>Barf\<close>. Logging of
  the packet path is reduced to its events; Gen_Command turns those of packets that leave into their lines, and the other lines are an argument. The buffer of
  \<^verbatim>\<open>printk\<close> is modelled with its 4096 bytes. Identities stand for the addresses of /proc entries. The count of a lock is an integer. Answers of the failure injector, the
  allocator's failures and the lengths of short reads on the socket are arguments.

  \<^bold>\<open>Fuel.\<close> Loops that could run forever carry fuel and a theorem that enough of it gives the result: \<open>talloc_free\<close> needs twice the number of
  chunks below the freed one, \<open>seq_read\<close> more than the bytes of the content and the number of records together, reading of a paged file more than
  the bytes asked for. All other loops are total, by a measure; \<open>syscall_is_direct\<close> bounds the steps of the two processes.

  \<^bold>\<open>Parameters.\<close> Code outside the program is an argument: the netfilter hooks and the registration of the kernel, the socket options of a module
  (\<open>kernel_code\<close>), the operations of a sequential file and the functions of a /proc entry, destructors of chunks, handlers of
  commands, the shell behind backquotes.

  \<^bold>\<open>Not modelled.\<close> main and the tables of initialisers, modules and options that the linker collects (core/core.c), and loading of shared objects
  (tools/module.c): operating system and linker. tools/iptables.c starts a program and prints its output; the calls of that program are modelled.
  KOP_FORK and the passing of descriptors (core/message.c, core/fakesockopt.c): they exchange open files. tools/info.c, config.c, echo.c, version.c
  and all help texts: fixed output. core/ipv6/: its functions are empty and no packet reaches them. core/utils.c: messages before exit.
  The branches for CONFIG_IP_ROUTE_FWMARK in the route lookups (core/ipv4/ipv4.c): the configuration modelled has no marks in routes.
  Release functions of files (core/seq_file.c): they only free memory. Formatting of \<^verbatim>\<open>printf\<close> beyond the formats used.
\<close>

section \<open>From the command to the description of what is sent\<close>

text \<open>
  C2. The simulator forwards what it is told to generate and describes what it sends as it was told, when every hook accepts and the route cache is
  right: a UDP datagram or TCP segment that \<open>gen_ip\<close> is asked for with \<^verbatim>\<open>IF=\<close> an existing interface, in words as \<open>describe\<close> writes them
  (\<open>plain_args\<close>: numeric protocol, canonical numbers, TCP flags and options in its order, no TTL, DATA or OPT) and for a destination that is not
  local and has a route, passes the hooks of a router in order, and what leaves on the device of its route, with TTL and checksum changed, is described
  by exactly the words of the command line.
\<close>

theorem router_forwards_described:
  assumes "cache_ok st" "interface_by_name name st = Some dev" "ifindex dev \<noteq> 0" "plain_args args" "n \<le> 65475"
    and "input_entry d s 0 st = Some e" "rt_input e \<noteq> Ip_local_deliver"
  shows "\<exists>bs w' st'. gen_ip accept_all fr fa (cmd # (''IF='' @ name) # dotted s # dotted d # show_nat n # args) w st =
      Ok ([At_hook NF_IP_PRE_ROUTING, At_hook NF_IP_FORWARD, At_hook NF_IP_POST_ROUTING, Sent (rt_dev e) bs None, Freed], True, w', st') \<and>
    unat (bs ! 8) = 254 \<and> describe [] (int (length bs)) bs None = Ok (join_words (dotted s # dotted d # show_nat n # args))"
  by (rule gen_ip_described [OF assms, of fr fa cmd w]) blast

theorem router_forwards_described_witness:
  "\<exists>bs w' st'. gen_ip accept_all False False [''gen_ip'', ''IF=eth0'', ''192.168.0.2'', ''192.168.1.2'', ''4'', ''17'', ''1024'', ''53'']
       \<lparr>ct_use = (\<lambda>_. 0), ct_destroyed = [], nfsim_seq = 0, linear_packets = False, stale = 0\<rparr> two_devices =
      Ok ([At_hook NF_IP_PRE_ROUTING, At_hook NF_IP_FORWARD, At_hook NF_IP_POST_ROUTING, Sent (Dev 3) bs None, Freed], True, w', st') \<and>
    unat (bs ! 8) = 254 \<and> describe [] (int (length bs)) bs None = Ok ''192.168.0.2 192.168.1.2 4 17 1024 53''"
proof -
  let ?s = "0x0200A8C0 :: u32" and ?d = "0x0201A8C0 :: u32"
  have a: "dotted ?s = ''192.168.0.2''" "dotted ?d = ''192.168.1.2''" "show_nat 4 = ''4''" "show_nat 1024 = ''1024''" "show_nat 53 = ''53''"
    by code_simp+
  have "map_option ifindex (interface_by_name ''eth0'' two_devices) = Some 2" by code_simp
  then obtain dev where dev: "interface_by_name ''eth0'' two_devices = Some dev" "ifindex dev \<noteq> 0" by auto
  have "case input_entry ?d ?s 0 two_devices of Some e \<Rightarrow> rt_input e = Ip_forward \<and> rt_dev e = Dev 3 | None \<Rightarrow> False" by code_simp
  then obtain e where e: "input_entry ?d ?s 0 two_devices = Some e" "rt_input e = Ip_forward" "rt_dev e = Dev 3"
    by (auto split: option.splits)
  have "plain_args [''17'', ''1024'', ''53'']"
    unfolding plain_args_def by (rule disjI1, rule exI [of _ 1024], rule exI [of _ 53]) (simp add: a)
  from router_forwards_described [OF two_devices_ok dev this _ e(1), of 4 False False "''gen_ip''"] e(2,3) show ?thesis by (simp add: a)
qed

end
